(* ===== verification/Prelude.thy ===== *)
theory Prelude imports Main "HOL-Library.Sublist" "HOL-Library.Multiset" begin

text \<open>
  What every component shares: the effect type of a JavaScript function that may throw and
  that changes state, with its combinators and their evaluation rules; the runs of interleaved steps
  and the sort by a comparator, each with its laws as a locale; the insertion-ordered
  \<^verbatim>\<open>Map\<close> of the language, with its laws as a locale; the two operators the code uses on
  optional values (\<^verbatim>\<open>??\<close> and truthiness of a string); and lemmas on lists and strings.
\<close>

section \<open>Lemma collections\<close>

named_theorems eff_eval \<open>evaluation of the effect combinators\<close>
named_theorems keeps_intro \<open>rules for predicates that a computation keeps\<close>

section \<open>Effects: state passing with exceptions\<close>

text \<open>
  \<open>('w, 'e, 'a) eff\<close> is a computation over the world \<open>'w\<close> that returns an \<open>'a\<close> (\<open>Inr\<close>) or
  throws an \<open>'e\<close> (\<open>Inl\<close>); the world it leaves is returned in both cases, because a throw does
  not undo earlier assignments.
\<close>

type_synonym ('w, 'e, 'a) eff = "'w \<Rightarrow> ('e + 'a) \<times> 'w"

definition ret :: "'a \<Rightarrow> ('w, 'e, 'a) eff" where
  "ret x = (\<lambda>w. (Inr x, w))"

definition throw :: "'e \<Rightarrow> ('w, 'e, 'a) eff" where
  "throw e = (\<lambda>w. (Inl e, w))"

definition seqM :: "('w, 'e, 'a) eff \<Rightarrow> ('a \<Rightarrow> ('w, 'e, 'b) eff) \<Rightarrow> ('w, 'e, 'b) eff" where
  "seqM m f = (\<lambda>w. case m w of (Inl e, w') \<Rightarrow> (Inl e, w') | (Inr x, w') \<Rightarrow> f x w')"

definition catchM :: "('w, 'e, 'a) eff \<Rightarrow> ('e \<Rightarrow> ('w, 'f, 'a) eff) \<Rightarrow> ('w, 'f, 'a) eff" where
  "catchM m h = (\<lambda>w. case m w of (Inl e, w') \<Rightarrow> h e w' | (Inr x, w') \<Rightarrow> (Inr x, w'))"

definition finallyM :: "('w, 'e, 'a) eff \<Rightarrow> ('w \<Rightarrow> 'w) \<Rightarrow> ('w, 'e, 'a) eff" where
  "finallyM m g = (\<lambda>w. case m w of (r, w') \<Rightarrow> (r, g w'))"

definition updM :: "('w \<Rightarrow> 'w) \<Rightarrow> ('w, 'e, unit) eff" where
  "updM g = (\<lambda>w. (Inr (), g w))"

definition getM :: "('w \<Rightarrow> 'a) \<Rightarrow> ('w, 'e, 'a) eff" where
  "getM g = (\<lambda>w. (Inr (g w), w))"

definition liftM :: "'e + 'a \<Rightarrow> ('w, 'e, 'a) eff" where
  "liftM r = (\<lambda>w. (r, w))"

text \<open>The world a computation leaves.\<close>

definition effect_of :: "('w, 'e, 'a) eff \<Rightarrow> 'w \<Rightarrow> 'w" where
  "effect_of m w = snd (m w)"

lemma ret_eval [eff_eval]: "ret x w = (Inr x, w)"
  by (simp add: ret_def)

lemma throw_eval [eff_eval]: "throw e w = (Inl e, w)"
  by (simp add: throw_def)

lemma updM_eval [eff_eval]: "updM g w = (Inr (), g w)"
  by (simp add: updM_def)

lemma getM_eval [eff_eval]: "getM g w = (Inr (g w), w)"
  by (simp add: getM_def)

lemma liftM_eval [eff_eval]: "liftM r w = (r, w)"
  by (simp add: liftM_def)

lemma seqM_eval [eff_eval]:
  "seqM m f w = (case m w of (Inl e, w') \<Rightarrow> (Inl e, w') | (Inr x, w') \<Rightarrow> f x w')"
  by (simp add: seqM_def)

lemma catchM_eval [eff_eval]:
  "catchM m h w = (case m w of (Inl e, w') \<Rightarrow> h e w' | (Inr x, w') \<Rightarrow> (Inr x, w'))"
  by (simp add: catchM_def)

lemma finallyM_eval [eff_eval]: "finallyM m g w = (fst (m w), g (snd (m w)))"
  by (simp add: finallyM_def split: prod.splits)

lemma seqM_returns: "fst (m w) = Inr x \<Longrightarrow> seqM m f w = f x (snd (m w))"
  by (cases "m w") (simp add: seqM_def)

lemma seqM_throws: "fst (m w) = Inl e \<Longrightarrow> seqM m f w = (Inl e, snd (m w))"
  by (cases "m w") (simp add: seqM_def)

lemma map_option_const_idem [simp]:
  "map_option (\<lambda>_. z) (map_option (\<lambda>_. z) m) = map_option (\<lambda>_. z) m"
  by (cases m) simp_all

lemma seqM_assoc: "seqM (seqM m f) g = seqM m (\<lambda>x. seqM (f x) g)"
  by (auto simp: seqM_def fun_eq_iff split: prod.splits sum.splits)

lemma seqM_Inr_elim:
  assumes "seqM m f w = (Inr y, w')"
  obtains x v where "m w = (Inr x, v)" and "f x v = (Inr y, w')"
  using assms by (auto simp: seqM_def split: prod.splits sum.splits)

subsection \<open>Predicates a computation keeps\<close>

text \<open>\<open>keeps P m\<close>: whatever \<open>m\<close> does, returning or throwing, \<open>P\<close> holds after it if it held before.\<close>

definition keeps :: "('w \<Rightarrow> bool) \<Rightarrow> ('w, 'e, 'a) eff \<Rightarrow> bool" where
  "keeps P m \<longleftrightarrow> (\<forall>w. P w \<longrightarrow> P (snd (m w)))"

lemma keepsI: "(\<And>w. P w \<Longrightarrow> P (snd (m w))) \<Longrightarrow> keeps P m"
  by (simp add: keeps_def)

lemma keepsD: "keeps P m \<Longrightarrow> P w \<Longrightarrow> P (snd (m w))"
  by (simp add: keeps_def)

lemma keeps_result: "keeps P m \<Longrightarrow> P w \<Longrightarrow> m w = (r, w') \<Longrightarrow> P w'"
  by (drule (1) keepsD) simp

lemma keeps_ret [keeps_intro]: "keeps P (ret x)"
  by (simp add: keeps_def ret_def)

lemma keeps_throw [keeps_intro]: "keeps P (throw e)"
  by (simp add: keeps_def throw_def)

lemma keeps_getM [keeps_intro]: "keeps P (getM g)"
  by (simp add: keeps_def getM_def)

lemma keeps_liftM [keeps_intro]: "keeps P (liftM r)"
  by (simp add: keeps_def liftM_def)

lemma keeps_updM: "(\<And>w. P w \<Longrightarrow> P (g w)) \<Longrightarrow> keeps P (updM g)"
  by (simp add: keeps_def updM_def)

lemma keeps_seqM [keeps_intro]:
  "keeps P m \<Longrightarrow> (\<And>x. keeps P (f x)) \<Longrightarrow> keeps P (seqM m f)"
  by (force simp: keeps_def seqM_def split: prod.splits sum.splits)

lemma keeps_catchM [keeps_intro]:
  "keeps P m \<Longrightarrow> (\<And>e. keeps P (h e)) \<Longrightarrow> keeps P (catchM m h)"
  by (force simp: keeps_def catchM_def split: prod.splits sum.splits)

lemma keeps_finallyM:
  "keeps P m \<Longrightarrow> (\<And>w. P w \<Longrightarrow> P (g w)) \<Longrightarrow> keeps P (finallyM m g)"
  by (simp add: keeps_def finallyM_eval)

section \<open>The operators on optional values\<close>

text \<open>\<^verbatim>\<open>a ?? b\<close>; \<^verbatim>\<open>undefined\<close> and \<^verbatim>\<open>null\<close> are both \<open>None\<close>.\<close>

definition coalesce :: "'a option \<Rightarrow> 'a \<Rightarrow> 'a" where
  "coalesce a b = (case a of None \<Rightarrow> b | Some x \<Rightarrow> x)"

definition coalesce_opt :: "'a option \<Rightarrow> 'a option \<Rightarrow> 'a option" where
  "coalesce_opt a b = (case a of None \<Rightarrow> b | Some x \<Rightarrow> Some x)"

lemma coalesce_simps [simp]: "coalesce None b = b" "coalesce (Some x) b = x"
  by (simp_all add: coalesce_def)

lemma coalesce_opt_simps [simp]: "coalesce_opt None b = b" "coalesce_opt (Some x) b = Some x"
  by (simp_all add: coalesce_opt_def)

text \<open>A string in a condition: the empty string is false, as are \<^verbatim>\<open>null\<close> and \<^verbatim>\<open>undefined\<close>.\<close>

definition truthy :: "string option \<Rightarrow> bool" where
  "truthy s \<longleftrightarrow> (case s of None \<Rightarrow> False | Some x \<Rightarrow> x \<noteq> [])"

lemma truthy_simps [simp]: "\<not> truthy None" "truthy (Some x) \<longleftrightarrow> x \<noteq> []"
  by (simp_all add: truthy_def)

lemma truthy_Some: "truthy s \<longleftrightarrow> (\<exists>x. s = Some x \<and> x \<noteq> [])"
  by (cases s) simp_all

section \<open>The language's Map: insertion-ordered, one entry per key\<close>

type_synonym ('k, 'v) jsmap = "('k \<times> 'v) list"

fun jm_get :: "('k, 'v) jsmap \<Rightarrow> 'k \<Rightarrow> 'v option" where
  "jm_get [] k = None"
| "jm_get ((k', v) # m) k = (if k = k' then Some v else jm_get m k)"

fun jm_set :: "'k \<Rightarrow> 'v \<Rightarrow> ('k, 'v) jsmap \<Rightarrow> ('k, 'v) jsmap" where
  "jm_set k v [] = [(k, v)]"
| "jm_set k v ((k', v') # m) = (if k = k' then (k, v) # m else (k', v') # jm_set k v m)"

fun jm_delete :: "'k \<Rightarrow> ('k, 'v) jsmap \<Rightarrow> ('k, 'v) jsmap" where
  "jm_delete k [] = []"
| "jm_delete k ((k', v') # m) = (if k = k' then m else (k', v') # jm_delete k m)"

definition jm_keys :: "('k, 'v) jsmap \<Rightarrow> 'k list" where
  "jm_keys m = map fst m"

definition jm_ok :: "('k, 'v) jsmap \<Rightarrow> bool" where
  "jm_ok m \<longleftrightarrow> distinct (jm_keys m)"

text \<open>\<^verbatim>\<open>new Map(xs)\<close>: the entries are set in order, so a later one overrides an earlier one.\<close>

definition jm_of_list :: "('k \<times> 'v) list \<Rightarrow> ('k, 'v) jsmap" where
  "jm_of_list xs = fold (\<lambda>(k, v). jm_set k v) xs []"

text \<open>
  The contract of a keyed store, which the caches of the components rely on: what a lookup
  returns after an insertion or a removal, and that both keep the store well formed.
\<close>

locale keyed_store =
  fixes lookup :: "'m \<Rightarrow> 'k \<Rightarrow> 'v option"
    and insert :: "'k \<Rightarrow> 'v \<Rightarrow> 'm \<Rightarrow> 'm"
    and remove :: "'k \<Rightarrow> 'm \<Rightarrow> 'm"
    and empty :: 'm
    and ok :: "'m \<Rightarrow> bool"
  assumes lookup_insert: "ok m \<Longrightarrow> lookup (insert k v m) j = (if j = k then Some v else lookup m j)"
    and lookup_remove: "ok m \<Longrightarrow> lookup (remove k m) j = (if j = k then None else lookup m j)"
    and lookup_empty: "lookup empty j = None"
    and ok_insert: "ok m \<Longrightarrow> ok (insert k v m)"
    and ok_remove: "ok m \<Longrightarrow> ok (remove k m)"
    and ok_empty: "ok empty"
begin

lemma ok_remove_all: "ok m \<Longrightarrow> ok (fold remove ks m)"
  by (induction ks arbitrary: m) (simp_all add: ok_remove)

lemma lookup_remove_all:
  "ok m \<Longrightarrow> lookup (fold remove ks m) j = (if j \<in> set ks then None else lookup m j)"
  by (induction ks arbitrary: m) (auto simp: lookup_remove ok_remove)

lemma lookup_overwrite_remove:
  "ok m \<Longrightarrow> lookup (remove k (insert k v m)) j = (if j = k then None else lookup m j)"
  by (simp add: lookup_remove lookup_insert ok_insert)

lemma ok_insert_all: "ok m \<Longrightarrow> ok (fold (\<lambda>(k, v). insert k v) xs m)"
  by (induction xs arbitrary: m) (auto simp: ok_insert)

lemma lookup_insert_all_None:
  "ok m \<Longrightarrow> j \<notin> fst ` set xs \<Longrightarrow> lookup (fold (\<lambda>(k, v). insert k v) xs m) j = lookup m j"
  by (induction xs arbitrary: m) (auto simp: lookup_insert ok_insert)

lemma lookup_insert_all_mem:
  "ok m \<Longrightarrow> lookup (fold (\<lambda>(k, v). insert k v) xs m) j = Some v \<Longrightarrow>
    lookup m j = Some v \<or> (j, v) \<in> set xs"
proof (induction xs arbitrary: m)
  case Nil
  then show ?case by simp
next
  case (Cons p xs)
  obtain k' v' where p: "p = (k', v')" by (cases p)
  with Cons.prems Cons.IH [of "insert k' v' m"] have
    "lookup (insert k' v' m) j = Some v \<or> (j, v) \<in> set xs"
    by (simp add: ok_insert)
  with Cons.prems(1) show ?case by (auto simp: p lookup_insert split: if_splits)
qed

lemma lookup_insert_all_dom:
  "ok m \<Longrightarrow> j \<in> fst ` set xs \<or> lookup m j \<noteq> None \<Longrightarrow>
    \<exists>v. lookup (fold (\<lambda>(k, v). insert k v) xs m) j = Some v"
proof (induction xs arbitrary: m)
  case Nil
  then show ?case by simp
next
  case (Cons p xs)
  obtain k' v' where p: "p = (k', v')" by (cases p)
  with Cons.prems have "j \<in> fst ` set xs \<or> lookup (insert k' v' m) j \<noteq> None"
    by (auto simp: lookup_insert)
  with Cons.prems(1) Cons.IH [of "insert k' v' m"] show ?case by (simp add: p ok_insert)
qed

end

subsection \<open>The language's Map provides it\<close>

lemma jm_get_map_of: "jm_get m = map_of m"
  by (induction m) (auto simp: fun_eq_iff)

lemma jm_get_None: "jm_get m k = None \<longleftrightarrow> k \<notin> set (jm_keys m)"
  by (simp add: jm_get_map_of jm_keys_def map_of_eq_None_iff)

lemma jm_get_mem: "jm_get m k = Some v \<Longrightarrow> (k, v) \<in> set m"
  by (simp add: jm_get_map_of map_of_SomeD)

lemma jm_get_set: "jm_get (jm_set k v m) j = (if j = k then Some v else jm_get m j)"
  by (induction m) auto

lemma jm_set_keys: "set (jm_keys (jm_set k v m)) = insert k (set (jm_keys m))"
  by (induction k v m rule: jm_set.induct) (simp_all add: jm_keys_def insert_commute)

lemma jm_delete_keys: "set (jm_keys (jm_delete k m)) \<subseteq> set (jm_keys m)"
  by (induction k m rule: jm_delete.induct) (auto simp only: jm_delete.simps jm_keys_def list.map set_simps fst_conv split: if_splits)

lemma jm_ok_set: "jm_ok m \<Longrightarrow> jm_ok (jm_set k v m)"
proof (induction m)
  case Nil
  then show ?case by (simp add: jm_ok_def jm_keys_def)
next
  case (Cons p m)
  then show ?case
    using jm_set_keys [of k v m] by (cases p) (auto simp: jm_ok_def jm_keys_def)
qed

lemma jm_ok_delete: "jm_ok m \<Longrightarrow> jm_ok (jm_delete k m)"
proof (induction m)
  case Nil
  then show ?case by simp
next
  case (Cons p m)
  then show ?case
    using jm_delete_keys [of k m] by (cases p) (auto simp: jm_ok_def jm_keys_def)
qed

lemma jm_get_delete: "jm_ok m \<Longrightarrow> jm_get (jm_delete k m) j = (if j = k then None else jm_get m j)"
proof (induction m)
  case Nil
  then show ?case by simp
next
  case (Cons p m)
  obtain k' v' where p: "p = (k', v')" by (cases p)
  have "jm_ok m" and "k' \<notin> set (jm_keys m)"
    using Cons.prems by (auto simp: p jm_ok_def jm_keys_def)
  then show ?case
    using Cons.IH jm_get_None [of m k'] by (auto simp: p)
qed

interpretation jm: keyed_store jm_get jm_set jm_delete "[]" jm_ok
  by unfold_locales (simp_all add: jm_get_set jm_get_delete jm_ok_set jm_ok_delete, simp add: jm_ok_def jm_keys_def)

lemma jm_set_not_Nil [simp]: "jm_set k v m \<noteq> []"
  by (induction k v m rule: jm_set.induct) simp_all

lemma jm_ok_of_list: "jm_ok (jm_of_list xs)"
  unfolding jm_of_list_def by (rule jm.ok_insert_all [OF jm.ok_empty])

lemma jm_of_list_mem: "jm_get (jm_of_list xs) k = Some v \<Longrightarrow> (k, v) \<in> set xs"
  unfolding jm_of_list_def using jm.lookup_insert_all_mem [OF jm.ok_empty, of xs k v] by simp

lemma jm_of_list_None: "jm_get (jm_of_list xs) k = None \<longleftrightarrow> k \<notin> fst ` set xs"
  unfolding jm_of_list_def
  using jm.lookup_insert_all_None [OF jm.ok_empty, of k xs]
    jm.lookup_insert_all_dom [OF jm.ok_empty, of k xs] by fastforce

lemma jm_all_None_Nil: "(\<And>k. jm_get m k = None) \<Longrightarrow> m = []"
  using jm_get_None [of m] by (cases m) (auto simp: jm_keys_def)

section \<open>Strings\<close>

text \<open>\<^verbatim>\<open>s.includes(t)\<close>\<close>

definition str_includes :: "string \<Rightarrow> string \<Rightarrow> bool" where
  "str_includes s t \<longleftrightarrow> sublist t s"

lemma str_includes_code [code]:
  "str_includes s t \<longleftrightarrow> (prefix t s \<or> (case s of [] \<Rightarrow> False | _ # s' \<Rightarrow> str_includes s' t))"
  by (cases s) (auto simp: str_includes_def sublist_Cons_right)

lemma str_includes_append: "str_includes (a @ t @ b) t"
  by (auto simp: str_includes_def sublist_def)

section \<open>Sorting an array\<close>

text \<open>
  \<^verbatim>\<open>xs.sort(cmp)\<close> is stable; \<open>le a b\<close> is \<^verbatim>\<open>cmp(a, b) <= 0\<close>. For a comparator that is a total
  preorder the standard determines the result: the stable ordered permutation.
\<close>

fun insert_le :: "('a \<Rightarrow> 'a \<Rightarrow> bool) \<Rightarrow> 'a \<Rightarrow> 'a list \<Rightarrow> 'a list" where
  "insert_le le x [] = [x]"
| "insert_le le x (y # ys) = (if le x y then x # y # ys else y # insert_le le x ys)"

definition js_sort :: "('a \<Rightarrow> 'a \<Rightarrow> bool) \<Rightarrow> 'a list \<Rightarrow> 'a list" where
  "js_sort le xs = foldr (insert_le le) xs []"

lemma js_sort_sorted: "sorted_wrt le xs \<Longrightarrow> js_sort le xs = xs"
proof (induction xs)
  case (Cons x xs)
  then have "js_sort le (x # xs) = insert_le le x xs" by (simp add: js_sort_def)
  then show ?case using Cons.prems by (cases xs) auto
qed (simp add: js_sort_def)

locale comparator =
  fixes le :: "'a \<Rightarrow> 'a \<Rightarrow> bool"
  assumes total: "le x y \<or> le y x"
    and trans: "le x y \<Longrightarrow> le y z \<Longrightarrow> le x z"
begin

lemma mset_insert_le: "mset (insert_le le x ys) = add_mset x (mset ys)"
  by (induction ys) auto

lemma mset_js_sort [simp]: "mset (js_sort le xs) = mset xs"
  by (induction xs) (simp_all add: js_sort_def mset_insert_le)

lemma set_js_sort [simp]: "set (js_sort le xs) = set xs"
  using mset_js_sort by (metis set_mset_mset)

lemma sorted_insert_le: "sorted_wrt le ys \<Longrightarrow> sorted_wrt le (insert_le le x ys)"
proof (induction ys)
  case (Cons y ys)
  have "set (insert_le le x ys) = insert x (set ys)"
    using mset_insert_le [of x ys] by (metis set_mset_mset set_mset_add_mset_insert)
  then show ?case using Cons total [of x y] by (auto intro: trans)
qed simp

lemma sorted_js_sort: "sorted_wrt le (js_sort le xs)"
  by (induction xs) (simp_all add: js_sort_def sorted_insert_le)

text \<open>Elements that the comparator cannot tell apart keep their order.\<close>

lemma filter_insert_le:
  assumes "\<And>x y. P x \<Longrightarrow> P y \<Longrightarrow> le x y"
  shows "filter P (insert_le le x ys) = filter P (x # ys)"
  using assms by (induction ys) auto

lemma stable_js_sort:
  assumes "\<And>x y. P x \<Longrightarrow> P y \<Longrightarrow> le x y"
  shows "filter P (js_sort le xs) = filter P xs"
  by (induction xs) (simp_all add: js_sort_def filter_insert_le [OF assms])

end

section \<open>Reachable states\<close>

text \<open>
  The contract between a component that moves by steps and the claims about its runs: what is
  reachable is what starts and what a step reaches. Several components interleave their operations
  in this way; invariants, closure under runs and relations between an earlier and a later state are
  proved here once.
\<close>

locale step_system =
  fixes reach :: "'s \<Rightarrow> bool" and start :: "'s \<Rightarrow> bool" and step :: "'s \<Rightarrow> 's \<Rightarrow> bool"
  assumes reach_step: "reach x \<Longrightarrow> step x y \<Longrightarrow> reach y"
    and reach_induct: "reach x \<Longrightarrow> (\<And>y. start y \<Longrightarrow> I y) \<Longrightarrow> (\<And>y z. reach y \<Longrightarrow> I y \<Longrightarrow> step y z \<Longrightarrow> I z) \<Longrightarrow> I x"
begin

lemma invariant:
  assumes "\<And>x. start x \<Longrightarrow> I x" and "\<And>x y. I x \<Longrightarrow> step x y \<Longrightarrow> I y" and "reach x"
  shows "I x"
  using assms(3) by (rule reach_induct) (blast intro: assms(1,2))+

lemma run:
  assumes "\<And>e x. step x (f e x)" and "reach x"
  shows "reach (fold f es x)"
  using assms(2) by (induction es arbitrary: x) (auto intro: reach_step assms(1))

text \<open>A relation from a fixed state to the states of its future.\<close>

lemma future:
  assumes "reach x" and "step\<^sup>*\<^sup>* x y" and "R x"
    and "\<And>y z. reach y \<Longrightarrow> R y \<Longrightarrow> step y z \<Longrightarrow> R z"
  shows "reach y \<and> R y"
  using assms(2) by induction (use assms(1,3,4) reach_step in blast)+

end

end
