(* ===== verification/Secure_Wipe.thy ===== *)
theory Secure_Wipe imports Prelude "HOL-Library.Word" begin

unbundle bit_operations_syntax

text \<open>
  \<^verbatim>\<open>src/security/secure-wipe.ts\<close>: zeroing of byte buffers, word arrays and keypairs in an
  explicit store, and the UTF-8 encoder of the key-derivation path. Byte buffers are views
  (buffer, offset, length) of an \<^verbatim>\<open>ArrayBuffer\<close> store, so that two views can alias; a
  buffer absent from the store is detached, and filling it throws. Timers of
  \<^verbatim>\<open>setTimeout\<close> are part of the store, so the deferred second pass is a step of its own.
\<close>

section \<open>The store\<close>

type_synonym byte = "8 word"

record view =
  v_buf :: nat
  v_off :: nat
  v_len :: nat

text \<open>A CryptoJS \<^verbatim>\<open>WordArray\<close>; the flags say whether the engine lets the two be assigned.\<close>

record word_array =
  wa_words :: "32 word list option"
  wa_sigBytes :: int
  wa_words_frozen :: bool
  wa_frozen :: bool

text \<open>The two private fields of the SDK's \<^verbatim>\<open>Keypair\<close>.\<close>

record keypair =
  kp_secretSeed :: "view option"
  kp_secretKey :: "view option"
  kp_frozen :: bool

record heap =
  h_bufs :: "nat \<Rightarrow> byte list option"
  h_was :: "nat \<Rightarrow> word_array option"
  h_kps :: "nat \<Rightarrow> keypair option"
  h_timers :: "(nat \<times> view) list"
  h_now :: nat
  h_has_timeout :: bool

datatype type_error = TypeError

section \<open>Byte buffers\<close>

definition DEFERRED_WIPE_MS :: nat where
  "DEFERRED_WIPE_MS = 115"

definition fill_range :: "nat \<Rightarrow> nat \<Rightarrow> byte list \<Rightarrow> byte list" where
  "fill_range off len bs = map (\<lambda>i. if off \<le> i \<and> i < off + len then 0 else bs ! i) [0..<length bs]"

text \<open>\<^verbatim>\<open>view.fill(0)\<close>: in place on the backing buffer; a detached buffer throws.\<close>

definition view_fill :: "view \<Rightarrow> (heap, type_error, unit) eff" where
  "view_fill v = (\<lambda>h. case h_bufs h (v_buf v) of
      None \<Rightarrow> (Inl TypeError, h)
    | Some bs \<Rightarrow> (Inr (), h\<lparr>h_bufs := (h_bufs h)(v_buf v := Some (fill_range (v_off v) (v_len v) bs))\<rparr>))"

definition set_timeout :: "nat \<Rightarrow> view \<Rightarrow> heap \<Rightarrow> heap" where
  "set_timeout d v h = h\<lparr>h_timers := h_timers h @ [(h_now h + d, v)]\<rparr>"

definition wipeBytes :: "view option \<Rightarrow> (heap, type_error, unit) eff" where
  "wipeBytes b = (case b of
      None \<Rightarrow> ret ()
    | Some v \<Rightarrow> catchM
        (seqM (view_fill v) (\<lambda>_.
         updM (\<lambda>h. if h_has_timeout h then set_timeout DEFERRED_WIPE_MS v h else h)))
        (\<lambda>_. ret ()))"

text \<open>The timer callback: a second fill, its exception swallowed.\<close>

definition deferred_wipe :: "view \<Rightarrow> (heap, type_error, unit) eff" where
  "deferred_wipe v = catchM (view_fill v) (\<lambda>_. ret ())"

text \<open>The event loop reaching time \<open>t\<close>: every timer that is due fires, in the order it was set.\<close>

definition run_timers :: "nat \<Rightarrow> heap \<Rightarrow> heap" where
  "run_timers t h =
     (let due = filter (\<lambda>(d, v). d \<le> t) (h_timers h);
          h' = h\<lparr>h_now := max t (h_now h), h_timers := filter (\<lambda>(d, v). \<not> d \<le> t) (h_timers h)\<rparr>
      in fold (\<lambda>(d, v) g. effect_of (deferred_wipe v) g) due h')"

section \<open>Word arrays\<close>

text \<open>The loop over \<open>wa.words\<close>, one assignment per index.\<close>

fun zero_words :: "nat \<Rightarrow> 32 word list \<Rightarrow> 32 word list" where
  "zero_words 0 ws = ws"
| "zero_words (Suc n) ws = (zero_words n ws)[n := 0]"

definition wipeWordArray :: "nat option \<Rightarrow> (heap, type_error, unit) eff" where
  "wipeWordArray a = (\<lambda>h. case a of None \<Rightarrow> (Inr (), h) | Some i \<Rightarrow>
     (case h_was h i of None \<Rightarrow> (Inr (), h) | Some wa \<Rightarrow>
       (case wa_words wa of
          None \<Rightarrow> (Inr (), h)
        | Some ws \<Rightarrow>
            if wa_words_frozen wa \<and> ws \<noteq> [] then (Inr (), h)
            else let wa' = wa\<lparr>wa_words := Some (zero_words (length ws) ws)\<rparr>
                 in if wa_frozen wa' then (Inr (), h\<lparr>h_was := (h_was h)(i := Some wa')\<rparr>)
                    else (Inr (), h\<lparr>h_was := (h_was h)(i := Some (wa'\<lparr>wa_sigBytes := 0\<rparr>))\<rparr>))))"

section \<open>Keypairs\<close>

definition drop_refs :: "nat \<Rightarrow> heap \<Rightarrow> heap" where
  "drop_refs i h = (case h_kps h i of
      None \<Rightarrow> h
    | Some k \<Rightarrow> if kp_frozen k then h
        else h\<lparr>h_kps := (h_kps h)(i := Some (k\<lparr>kp_secretSeed := None, kp_secretKey := None\<rparr>))\<rparr>)"

definition wipeKeypair :: "nat option \<Rightarrow> (heap, type_error, unit) eff" where
  "wipeKeypair kp = (\<lambda>h. case kp of None \<Rightarrow> (Inr (), h) | Some i \<Rightarrow>
     (case h_kps h i of None \<Rightarrow> (Inr (), h) | Some k \<Rightarrow>
        seqM (wipeBytes (kp_secretSeed k)) (\<lambda>_.
        seqM (wipeBytes (kp_secretKey k)) (\<lambda>_.
        updM (drop_refs i))) h))"

text \<open>\<^verbatim>\<open>try { return await fn() } finally { wipeKeypair(kp) }\<close>\<close>

definition withWipedKeypair :: "nat option \<Rightarrow> (heap, 'e, 'a) eff \<Rightarrow> (heap, 'e, 'a) eff" where
  "withWipedKeypair kp fn =
     finallyM fn (effect_of (wipeKeypair kp))"

section \<open>The UTF-8 encoder\<close>

text \<open>
  A string is its list of UTF-16 code units. The encoder writes into a buffer of four bytes
  per unit at index \<open>w\<close>; an assignment past the end of a typed array is ignored, as
  \<open>list_update\<close> does.
\<close>

definition to_byte :: "int \<Rightarrow> byte" where
  "to_byte c = word_of_int c"

fun utf8_loop :: "16 word list \<Rightarrow> byte list \<Rightarrow> nat \<Rightarrow> byte list \<times> nat" where
  "utf8_loop [] out w = (out, w)"
| "utf8_loop (u # rest) out w =
    (let c = uint u in
     if c < 0x80 then
       utf8_loop rest (out[w := to_byte c]) (w + 1)
     else if c < 0x800 then
       utf8_loop rest
         (out[w := to_byte (0xc0 OR drop_bit 6 c), w + 1 := to_byte (0x80 OR (c AND 0x3f))]) (w + 2)
     else if 0xd800 \<le> c \<and> c \<le> 0xdbff \<and> rest \<noteq> [] then
       (let lo = uint (hd rest);
            c = 0x10000 + push_bit 10 (c - 0xd800) + (lo - 0xdc00)
        in utf8_loop (tl rest)
         (out[w := to_byte (0xf0 OR drop_bit 18 c),
              w + 1 := to_byte (0x80 OR (drop_bit 12 c AND 0x3f)),
              w + 2 := to_byte (0x80 OR (drop_bit 6 c AND 0x3f)),
              w + 3 := to_byte (0x80 OR (c AND 0x3f))]) (w + 4))
     else
       utf8_loop rest
         (out[w := to_byte (0xe0 OR drop_bit 12 c),
              w + 1 := to_byte (0x80 OR (drop_bit 6 c AND 0x3f)),
              w + 2 := to_byte (0x80 OR (c AND 0x3f))]) (w + 3))"

definition utf8ToMutableBytes :: "16 word list \<Rightarrow> byte list" where
  "utf8ToMutableBytes s =
     (let out = replicate (length s * 4) 0;
          (out', w) = utf8_loop s out 0
      in take w out')"

section \<open>What wiping does to the bytes\<close>

text \<open>
  The contract of a wipe: exactly the locations of its region read as zero afterwards, and no
  other location changes. Sequences of wipes then clear the union of their regions, whatever
  aliases whatever.
\<close>

locale wiper =
  fixes wipe :: "'x \<Rightarrow> 's \<Rightarrow> 's"
    and region :: "'x \<Rightarrow> 'l set"
    and at :: "'s \<Rightarrow> 'l \<Rightarrow> 'v option"
    and zero :: 'v
  assumes at_wipe:
    "at (wipe x s) l = (if l \<in> region x then map_option (\<lambda>_. zero) (at s l) else at s l)"
begin

lemma at_wipe_all:
  "at (fold wipe xs s) l = (if \<exists>x\<in>set xs. l \<in> region x then map_option (\<lambda>_. zero) (at s l) else at s l)"
proof (induction xs arbitrary: s)
  case Nil
  then show ?case by simp
next
  case (Cons x xs)
  show ?case by (simp add: Cons.IH at_wipe)
qed

lemma at_wipe_wipe:
  "at (wipe y (wipe x s)) l =
    (if l \<in> region x \<union> region y then map_option (\<lambda>_. zero) (at s l) else at s l)"
  using at_wipe_all [of "[x, y]"] by auto

lemma wipe_idem: "at (wipe x (wipe x s)) l = at (wipe x s) l"
  by (simp add: at_wipe_wipe at_wipe)

end

definition byte_at :: "heap \<Rightarrow> nat \<times> nat \<Rightarrow> byte option" where
  "byte_at h l = (case h_bufs h (fst l) of
      None \<Rightarrow> None
    | Some bs \<Rightarrow> if snd l < length bs then Some (bs ! snd l) else None)"

definition view_region :: "view \<Rightarrow> (nat \<times> nat) set" where
  "view_region v = {l. fst l = v_buf v \<and> v_off v \<le> snd l \<and> snd l < v_off v + v_len v}"

definition opt_region :: "view option \<Rightarrow> (nat \<times> nat) set" where
  "opt_region b = (case b of None \<Rightarrow> {} | Some v \<Rightarrow> view_region v)"

definition secret_region :: "keypair \<Rightarrow> (nat \<times> nat) set" where
  "secret_region k = opt_region (kp_secretSeed k) \<union> opt_region (kp_secretKey k)"

lemma length_fill_range [simp]: "length (fill_range off len bs) = length bs"
  by (simp add: fill_range_def)

lemma nth_fill_range [simp]:
  "i < length bs \<Longrightarrow> fill_range off len bs ! i = (if off \<le> i \<and> i < off + len then 0 else bs ! i)"
  by (simp add: fill_range_def)

lemma byte_at_cong: "h_bufs h = h_bufs h' \<Longrightarrow> byte_at h l = byte_at h' l"
  by (simp add: byte_at_def)

lemma byte_at_view_fill:
  "byte_at (snd (view_fill v h)) l =
    (if l \<in> view_region v then map_option (\<lambda>_. 0) (byte_at h l) else byte_at h l)"
  by (auto simp: view_fill_def byte_at_def view_region_def split: option.splits)

lemma wipeBytes_never_throws: "fst (wipeBytes b h) = Inr ()"
  by (cases b) (auto simp: wipeBytes_def eff_eval split: sum.splits prod.splits)

lemma deferred_wipe_never_throws: "fst (deferred_wipe v h) = Inr ()"
  by (auto simp: deferred_wipe_def eff_eval split: sum.splits prod.splits)

lemma view_fill_frame:
  "h_was (snd (view_fill v h)) = h_was h" "h_kps (snd (view_fill v h)) = h_kps h"
  "h_timers (snd (view_fill v h)) = h_timers h" "h_now (snd (view_fill v h)) = h_now h"
  "h_has_timeout (snd (view_fill v h)) = h_has_timeout h"
  by (simp_all add: view_fill_def split: option.splits)

lemma snd_wipeBytes_Some:
  "snd (wipeBytes (Some v) h) =
    (let h' = snd (view_fill v h)
     in if h_has_timeout h \<and> h_bufs h (v_buf v) \<noteq> None then set_timeout DEFERRED_WIPE_MS v h' else h')"
  by (auto simp: wipeBytes_def eff_eval view_fill_def Let_def split: option.splits)

lemma snd_deferred_wipe: "snd (deferred_wipe v h) = snd (view_fill v h)"
  by (auto simp: deferred_wipe_def eff_eval view_fill_def split: option.splits)

lemma set_timeout_bufs [simp]: "h_bufs (set_timeout d v h) = h_bufs h"
  by (simp add: set_timeout_def)

lemma byte_at_wipeBytes:
  "byte_at (snd (wipeBytes b h)) l =
    (if l \<in> opt_region b then map_option (\<lambda>_. 0) (byte_at h l) else byte_at h l)"
proof (cases b)
  case None
  then show ?thesis by (simp add: wipeBytes_def eff_eval opt_region_def)
next
  case (Some v)
  have "h_bufs (snd (wipeBytes b h)) = h_bufs (snd (view_fill v h))"
    by (simp add: Some snd_wipeBytes_Some Let_def)
  then have "byte_at (snd (wipeBytes b h)) l = byte_at (snd (view_fill v h)) l"
    by (rule byte_at_cong)
  then show ?thesis by (simp add: byte_at_view_fill opt_region_def Some)
qed

interpretation bytes: wiper "\<lambda>b. effect_of (wipeBytes b)" opt_region byte_at 0
  by unfold_locales (simp add: effect_of_def byte_at_wipeBytes)

interpretation timer_bytes: wiper "\<lambda>(d, v). effect_of (deferred_wipe v)" "\<lambda>(d, v). view_region v" byte_at 0
  by unfold_locales (auto simp: effect_of_def snd_deferred_wipe byte_at_view_fill)

lemma wipeBytes_kps [simp]: "h_kps (snd (wipeBytes b h)) = h_kps h"
  by (cases b) (simp_all add: wipeBytes_def [of None] eff_eval snd_wipeBytes_Some Let_def set_timeout_def view_fill_frame)

lemma wipeBytes_was [simp]: "h_was (snd (wipeBytes b h)) = h_was h"
  by (cases b) (simp_all add: wipeBytes_def [of None] eff_eval snd_wipeBytes_Some Let_def set_timeout_def view_fill_frame)

lemma drop_refs_bufs [simp]: "h_bufs (drop_refs i h) = h_bufs h"
  by (simp add: drop_refs_def split: option.splits)

lemma wipeKeypair_never_throws: "fst (wipeKeypair kp h) = Inr ()"
  by (simp add: wipeKeypair_def seqM_returns [OF wipeBytes_never_throws] updM_eval split: option.splits)

text \<open>The two wipes and the dropped references, in the order of the code.\<close>

lemma snd_wipeKeypair:
  assumes "h_kps h i = Some k"
  shows "snd (wipeKeypair (Some i) h) =
    drop_refs i (snd (wipeBytes (kp_secretKey k) (snd (wipeBytes (kp_secretSeed k) h))))"
  using assms by (simp add: wipeKeypair_def seqM_returns [OF wipeBytes_never_throws] updM_eval)

lemma byte_at_wipeKeypair:
  assumes "h_kps h i = Some k"
  shows "byte_at (snd (wipeKeypair (Some i) h)) l =
    (if l \<in> secret_region k then map_option (\<lambda>_. 0) (byte_at h l) else byte_at h l)"
proof -
  have "byte_at (snd (wipeKeypair (Some i) h)) l =
      byte_at (snd (wipeBytes (kp_secretKey k) (snd (wipeBytes (kp_secretSeed k) h)))) l"
    by (rule byte_at_cong) (simp add: snd_wipeKeypair [OF assms])
  then show ?thesis
    using bytes.at_wipe_wipe [of "kp_secretKey k" "kp_secretSeed k" h l]
    by (simp add: secret_region_def effect_of_def)
qed

lemma kps_wipeKeypair:
  assumes "h_kps h i = Some k"
  shows "h_kps (snd (wipeKeypair (Some i) h)) i =
    Some (if kp_frozen k then k else k\<lparr>kp_secretSeed := None, kp_secretKey := None\<rparr>)"
  using assms by (simp add: snd_wipeKeypair drop_refs_def)

section \<open>Properties of wiping\<close>

text \<open>C11: \<open>wipeKeypair\<close> never throws; afterwards every byte of both secret fields reads as zero
  through every view that can reach it, no other byte of the store has changed, and (unless
  the engine forbids the assignment) the keypair holds neither reference any more.\<close>
theorem wipeKeypair_zeroes:
  assumes "h_kps h i = Some k"
  shows "fst (wipeKeypair (Some i) h) = Inr () \<and>
    (\<forall>l. byte_at (snd (wipeKeypair (Some i) h)) l =
      (if l \<in> secret_region k then map_option (\<lambda>_. 0) (byte_at h l) else byte_at h l)) \<and>
    h_kps (snd (wipeKeypair (Some i) h)) i =
      Some (if kp_frozen k then k else k\<lparr>kp_secretSeed := None, kp_secretKey := None\<rparr>)"
  using assms
  by (simp add: wipeKeypair_never_throws byte_at_wipeKeypair kps_wipeKeypair)

theorem wipeKeypair_zeroes_witness:
  "\<exists>h k. h_kps h 7 = Some k \<and> byte_at h (0, 1) = Some 5 \<and>
    byte_at (snd (wipeKeypair (Some 7) h)) (0, 1) = Some 0"
proof -
  define k where "k = \<lparr>kp_secretSeed = Some \<lparr>v_buf = 0, v_off = 1, v_len = 1\<rparr>, kp_secretKey = None, kp_frozen = False\<rparr>"
  define h :: heap where "h = \<lparr>h_bufs = [0 \<mapsto> [4, 5, 6]], h_was = Map.empty, h_kps = [7 \<mapsto> k],
    h_timers = [], h_now = 0, h_has_timeout = True\<rparr>"
  have k: "h_kps h 7 = Some k" by (simp add: h_def)
  have "byte_at h (0, 1) = Some 5" by (simp add: byte_at_def h_def)
  moreover have "(0, 1) \<in> secret_region k"
    by (simp add: secret_region_def opt_region_def k_def view_region_def)
  ultimately show ?thesis using k wipeKeypair_zeroes [OF k] by auto
qed

text \<open>\<open>withWipedKeypair\<close> passes on the callback's result, value or exception alike, and in
  both cases the bytes that the keypair then points to are zero, all others as the callback
  left them.\<close>
lemma withWipedKeypair_wipes:
  fixes fn :: "(heap, 'e, 'a) eff"
  assumes "h_kps (snd (fn h)) i = Some k"
  shows "fst (withWipedKeypair (Some i) fn h) = fst (fn h) \<and>
    (\<forall>l. byte_at (snd (withWipedKeypair (Some i) fn h)) l =
      (if l \<in> secret_region k then map_option (\<lambda>_. 0) (byte_at (snd (fn h)) l)
       else byte_at (snd (fn h)) l))"
  using byte_at_wipeKeypair [OF assms]
  by (simp add: withWipedKeypair_def finallyM_eval effect_of_def)

lemma withWipedKeypair_wipes_witness:
  "\<exists>(h :: heap) k. h_kps h 7 = Some k \<and>
    fst (withWipedKeypair (Some 7) (throw ''bad sign'') h) = (Inl ''bad sign'' :: string + unit) \<and>
    byte_at h (0, 0) = Some 9 \<and>
    byte_at (snd (withWipedKeypair (Some 7) (throw ''bad sign'' :: (heap, string, unit) eff) h)) (0, 0) = Some 0"
proof -
  define k where "k = \<lparr>kp_secretSeed = None, kp_secretKey = Some \<lparr>v_buf = 0, v_off = 0, v_len = 2\<rparr>, kp_frozen = True\<rparr>"
  define h :: heap where "h = \<lparr>h_bufs = [0 \<mapsto> [9, 8]], h_was = Map.empty, h_kps = [7 \<mapsto> k],
    h_timers = [], h_now = 0, h_has_timeout = False\<rparr>"
  define fn :: "(heap, string, unit) eff" where "fn = throw ''bad sign''"
  have fn: "fn h = (Inl ''bad sign'', h)" by (simp add: fn_def throw_eval)
  have k: "h_kps (snd (fn h)) 7 = Some k" by (subst fn) (simp add: h_def)
  have b: "byte_at h (0, 0) = Some 9" by (simp add: byte_at_def h_def)
  have r: "(0, 0) \<in> secret_region k"
    by (simp add: secret_region_def opt_region_def k_def view_region_def)
  have "fst (withWipedKeypair (Some 7) fn h) = Inl ''bad sign'' \<and>
      byte_at (snd (withWipedKeypair (Some 7) fn h)) (0, 0) = Some 0"
    using withWipedKeypair_wipes [of fn, OF k] b r by (auto simp: fn)
  then show ?thesis
    using b by (intro exI [of _ h] exI [of _ k]) (simp add: fn_def h_def)
qed

text \<open>When a set of timers fires, exactly the regions of the due ones are cleared.\<close>

lemma byte_at_run_timers:
  "byte_at (run_timers t h) l =
    (if \<exists>(d, v)\<in>set (h_timers h). d \<le> t \<and> l \<in> view_region v
     then map_option (\<lambda>_. 0) (byte_at h l) else byte_at h l)"
proof -
  let ?h = "h\<lparr>h_now := max t (h_now h), h_timers := filter (\<lambda>(d, v). \<not> d \<le> t) (h_timers h)\<rparr>"
  have "byte_at ?h l = byte_at h l" by (rule byte_at_cong) simp
  moreover have "run_timers t h = fold (\<lambda>(d, v). effect_of (deferred_wipe v)) (filter (\<lambda>(d, v). d \<le> t) (h_timers h)) ?h"
    by (simp add: run_timers_def Let_def case_prod_unfold)
  ultimately show ?thesis
    using timer_bytes.at_wipe_all [of "filter (\<lambda>(d, v). d \<le> t) (h_timers h)" ?h l]
    by (auto simp: case_prod_unfold)
qed

lemma wipeBytes_schedules:
  "h_has_timeout h \<Longrightarrow> h_bufs h (v_buf v) \<noteq> None \<Longrightarrow>
    h_timers (snd (wipeBytes (Some v) h)) = h_timers h @ [(h_now h + DEFERRED_WIPE_MS, v)]"
  by (simp add: snd_wipeBytes_Some Let_def set_timeout_def view_fill_frame)

text \<open>The deferred second pass of \<open>wipeBytes\<close>. The wipe of an attached buffer puts one timer
  at the end of the queue, 115 ms ahead; whatever is written to the store before the event
  loop passes that time, every attached byte of the view is zero after it (so bytes written
  into the same region in the meantime are lost).\<close>
lemma wipeBytes_second_pass:
  assumes "h_has_timeout h" and "h_bufs h (v_buf v) \<noteq> None"
    and "set (h_timers (snd (wipeBytes (Some v) h))) \<subseteq> set (h_timers h')"
    and "h_now h + 115 \<le> t" and "l \<in> view_region v"
  shows "byte_at (run_timers t h') l = map_option (\<lambda>_. 0) (byte_at h' l)"
proof -
  have "(h_now h + 115, v) \<in> set (h_timers h')"
    using assms(3) wipeBytes_schedules [OF assms(1,2)] by (auto simp: DEFERRED_WIPE_MS_def)
  with assms(4,5) show ?thesis by (auto simp: byte_at_run_timers)
qed

lemma wipeBytes_second_pass_witness:
  "\<exists>h'. byte_at h' (0, 0) = Some 77 \<and> byte_at (run_timers 215 h') (0, 0) = Some 0"
proof -
  define v where "v = \<lparr>v_buf = 0, v_off = 0, v_len = 2\<rparr>"
  define h :: heap where "h = \<lparr>h_bufs = [0 \<mapsto> [9, 8]], h_was = Map.empty, h_kps = Map.empty,
    h_timers = [], h_now = 100, h_has_timeout = True\<rparr>"
  define h' where "h' = (snd (wipeBytes (Some v) h))\<lparr>h_bufs := [0 \<mapsto> [77, 78]]\<rparr>"
  have 1: "h_has_timeout h" and 2: "h_bufs h (v_buf v) \<noteq> None" by (simp_all add: h_def v_def)
  have 3: "set (h_timers (snd (wipeBytes (Some v) h))) \<subseteq> set (h_timers h')" by (simp add: h'_def)
  have 4: "h_now h + 115 \<le> 215" by (simp add: h_def)
  have 5: "(0, 0) \<in> view_region v" by (simp add: view_region_def v_def)
  have "byte_at h' (0, 0) = Some 77" by (simp add: byte_at_def h'_def)
  then show ?thesis
    using wipeBytes_second_pass [OF 1 2 3 4 5] by auto
qed

lemma length_zero_words [simp]: "length (zero_words n ws) = length ws"
  by (induction n) simp_all

lemma nth_zero_words: "i < length ws \<Longrightarrow> zero_words n ws ! i = (if i < n then 0 else ws ! i)"
  by (induction n) (auto simp: nth_list_update less_Suc_eq)

lemma zero_words_all: "zero_words (length ws) ws = replicate (length ws) 0"
  by (rule nth_equalityI) (simp_all add: nth_zero_words)

lemma wipeWordArray_eq:
  assumes "h_was h i = Some wa" and "wa_words wa = Some ws" and "\<not> wa_words_frozen wa" and "\<not> wa_frozen wa"
  shows "wipeWordArray (Some i) h =
    (Inr (), h\<lparr>h_was := (h_was h)(i := Some (wa\<lparr>wa_words := Some (replicate (length ws) 0), wa_sigBytes := 0\<rparr>))\<rparr>)"
  using assms by (simp add: wipeWordArray_def zero_words_all Let_def)

section \<open>Correctness of the encoder\<close>

text \<open>The same encoder appending to a list instead of writing at an index.\<close>

fun utf8_units :: "16 word list \<Rightarrow> byte list" where
  "utf8_units [] = []"
| "utf8_units (u # rest) =
    (let c = uint u in
     if c < 0x80 then to_byte c # utf8_units rest
     else if c < 0x800 then
       [to_byte (0xc0 OR drop_bit 6 c), to_byte (0x80 OR (c AND 0x3f))] @ utf8_units rest
     else if 0xd800 \<le> c \<and> c \<le> 0xdbff \<and> rest \<noteq> [] then
       (let c = 0x10000 + push_bit 10 (c - 0xd800) + (uint (hd rest) - 0xdc00)
        in [to_byte (0xf0 OR drop_bit 18 c), to_byte (0x80 OR (drop_bit 12 c AND 0x3f)),
            to_byte (0x80 OR (drop_bit 6 c AND 0x3f)), to_byte (0x80 OR (c AND 0x3f))]
           @ utf8_units (tl rest))
     else
       [to_byte (0xe0 OR drop_bit 12 c), to_byte (0x80 OR (drop_bit 6 c AND 0x3f)),
        to_byte (0x80 OR (c AND 0x3f))] @ utf8_units rest)"

lemma take_put: "w < length out \<Longrightarrow> take (Suc w) (out[w := b]) = take w out @ [b]"
  by (simp add: take_Suc_conv_app_nth)

lemma take_put2: "w + 1 < length out \<Longrightarrow>
  take (w + 2) (out[w := a, w + 1 := b]) = take w out @ [a, b]"
  using take_put [of "Suc w" "out[w := a]" b] take_put [of w out a] by simp

lemma take_put3: "w + 2 < length out \<Longrightarrow>
  take (w + 3) (out[w := a, w + 1 := b, w + 2 := c]) = take w out @ [a, b, c]"
  using take_put [of "w + 2" "out[w := a, w + 1 := b]" c] take_put2 [of w out a b]
  by (simp add: eval_nat_numeral)

lemma take_put4: "w + 3 < length out \<Longrightarrow>
  take (w + 4) (out[w := a, w + 1 := b, w + 2 := c, w + 3 := d]) = take w out @ [a, b, c, d]"
  using take_put [of "w + 3" "out[w := a, w + 1 := b, w + 2 := c]" d] take_put3 [of w out a b c]
  by (simp add: eval_nat_numeral)

lemma add_3: "(w :: nat) + 3 = Suc (Suc (Suc w))"
  by simp

lemma add_4: "(w :: nat) + 4 = Suc (Suc (Suc (Suc w)))"
  by simp

text \<open>The loop from index \<open>w\<close>: it writes the appended bytes at \<open>w\<close> and never runs out of the
  buffer, as long as four bytes per remaining unit are left.\<close>

lemma utf8_loop_units:
  "w + 4 * length s \<le> length out \<Longrightarrow>
    \<exists>out'. utf8_loop s out w = (out', w + length (utf8_units s)) \<and> length out' = length out \<and>
      take (w + length (utf8_units s)) out' = take w out @ utf8_units s"
proof (induction s arbitrary: out w rule: length_induct)
  case (1 s)
  show ?case
  proof (cases s)
    case Nil
    then show ?thesis by simp
  next
    case (Cons u rest)
    have IH: "\<exists>out'. utf8_loop r o' w' = (out', w' + length (utf8_units r)) \<and> length out' = length o' \<and>
        take (w' + length (utf8_units r)) out' = take w' o' @ utf8_units r"
      if "length r < length s" and "w' + 4 * length r \<le> length o'" for r o' w'
      using 1 that by blast
    have len: "w + 4 + 4 * length rest \<le> length out" using "1.prems" Cons by simp
    have tl_len: "length (tl rest) \<le> length rest" by simp
    let ?c = "uint u"
    consider (one) "?c < 0x80" | (two) "\<not> ?c < 0x80" "?c < 0x800"
      | (four) "\<not> ?c < 0x800" "0xd800 \<le> ?c \<and> ?c \<le> 0xdbff \<and> rest \<noteq> []"
      | (three) "\<not> ?c < 0x800" "\<not> (0xd800 \<le> ?c \<and> ?c \<le> 0xdbff \<and> rest \<noteq> [])"
      by blast
    then show ?thesis
    proof cases
      case one
      have "take (w + 1) (out[w := to_byte ?c]) = take w out @ [to_byte ?c]"
        using len take_put [of w out] by simp
      with IH [of rest "w + 1" "out[w := to_byte ?c]"] len one Cons show ?thesis by auto
    next
      case two
      with IH [of rest "w + 2" "out[w := to_byte (0xc0 OR drop_bit 6 ?c), w + 1 := to_byte (0x80 OR (?c AND 0x3f))]"]
        len Cons take_put2 [of w out] show ?thesis by (auto simp: Let_def)
    next
      case three
      with IH [of rest "w + 3" "out[w := to_byte (0xe0 OR drop_bit 12 ?c),
          w + 1 := to_byte (0x80 OR (drop_bit 6 ?c AND 0x3f)), w + 2 := to_byte (0x80 OR (?c AND 0x3f))]"]
        len Cons take_put3 [of w out] show ?thesis by (auto simp: Let_def add_3)
    next
      case four
      let ?d = "0x10000 + push_bit 10 (?c - 0xd800) + (uint (hd rest) - 0xdc00)"
      from four have "length (tl rest) < length s" using Cons by simp
      with IH [of "tl rest" "w + 4" "out[w := to_byte (0xf0 OR drop_bit 18 ?d),
          w + 1 := to_byte (0x80 OR (drop_bit 12 ?d AND 0x3f)),
          w + 2 := to_byte (0x80 OR (drop_bit 6 ?d AND 0x3f)), w + 3 := to_byte (0x80 OR (?d AND 0x3f))]"]
        four len tl_len Cons take_put4 [of w out] show ?thesis by (auto simp: Let_def add_4)
    qed
  qed
qed

lemma length_utf8_units: "length (utf8_units s) \<le> 4 * length s"
proof -
  obtain out' :: "byte list" where "length out' = length s * 4"
    and "take (length (utf8_units s)) out' = utf8_units s"
    using utf8_loop_units [of 0 s "replicate (length s * 4) 0"] by auto
  then show ?thesis by (metis length_take min.cobounded1 mult.commute)
qed

lemma utf8ToMutableBytes_units: "utf8ToMutableBytes s = utf8_units s"
proof -
  obtain out' where "utf8_loop s (replicate (length s * 4) 0) 0 = (out', length (utf8_units s))"
    and "take (length (utf8_units s)) out' = utf8_units s"
    using utf8_loop_units [of 0 s "replicate (length s * 4) 0"] by auto
  then show ?thesis by (simp add: utf8ToMutableBytes_def)
qed

text \<open>The reference: UTF-16 and UTF-8 of a code point, by arithmetic (RFC 2781, RFC 3629).\<close>

definition scalar_value :: "int \<Rightarrow> bool" where
  "scalar_value cp \<longleftrightarrow> 0 \<le> cp \<and> cp < 0x110000 \<and> \<not> (0xd800 \<le> cp \<and> cp \<le> 0xdfff)"

definition utf16_cp :: "int \<Rightarrow> 16 word list" where
  "utf16_cp cp = (if cp < 0x10000 then [word_of_int cp]
     else [word_of_int (0xd800 + (cp - 0x10000) div 1024), word_of_int (0xdc00 + (cp - 0x10000) mod 1024)])"

definition utf8_cp :: "int \<Rightarrow> byte list" where
  "utf8_cp cp = map to_byte
     (if cp < 0x80 then [cp]
      else if cp < 0x800 then [0xc0 + cp div 64, 0x80 + cp mod 64]
      else if cp < 0x10000 then [0xe0 + cp div 4096, 0x80 + cp div 64 mod 64, 0x80 + cp mod 64]
      else [0xf0 + cp div 262144, 0x80 + cp div 4096 mod 64, 0x80 + cp div 64 mod 64, 0x80 + cp mod 64])"

lemma push_bit_or_int:
  assumes "0 \<le> y" and "y < 2 ^ n"
  shows "push_bit n a OR y = push_bit n a + (y :: int)"
proof -
  have y: "y = take_bit n y" using assms by (simp add: take_bit_int_eq_self)
  have "push_bit n a AND y = 0" by (subst y, rule bit_eqI) (auto simp: bit_simps)
  then show ?thesis using plus_and_or [of "push_bit n a" y] by simp
qed

lemma or_cont: "0x80 OR (x AND 0x3f) = 0x80 + x mod (64 :: int)"
proof -
  have "x AND 0x3f = x mod 64"
    using take_bit_eq_mask [of 6 x] by (simp add: take_bit_eq_mod mask_eq_exp_minus_1)
  then show ?thesis using push_bit_or_int [of "x mod 64" 6 2] by simp
qed

lemma or_lead2: "0 \<le> x \<Longrightarrow> x < 32 \<Longrightarrow> 0xc0 OR x = 0xc0 + (x :: int)"
  using push_bit_or_int [of x 5 6] by simp

lemma or_lead3: "0 \<le> x \<Longrightarrow> x < 16 \<Longrightarrow> 0xe0 OR x = 0xe0 + (x :: int)"
  using push_bit_or_int [of x 4 14] by simp

lemma or_lead4: "0 \<le> x \<Longrightarrow> x < 8 \<Longrightarrow> 0xf0 OR x = 0xf0 + (x :: int)"
  using push_bit_or_int [of x 3 30] by simp

lemma uint_of_int16: "0 \<le> x \<Longrightarrow> x < 0x10000 \<Longrightarrow> uint (word_of_int x :: 16 word) = x"
  by (simp add: uint_word_of_int)

lemma utf8_units_cp:
  assumes "scalar_value cp"
  shows "utf8_units (utf16_cp cp @ rest) = utf8_cp cp @ utf8_units rest"
proof (cases "cp < 0x10000")
  case True
  then have u: "uint (word_of_int cp :: 16 word) = cp"
    using assms by (simp add: scalar_value_def uint_of_int16)
  have n: "\<not> (0xd800 \<le> cp \<and> cp \<le> 0xdbff \<and> rest \<noteq> [])" and p: "0 \<le> cp"
    using assms by (auto simp: scalar_value_def)
  have d: "drop_bit 6 cp = cp div 64" "drop_bit 12 cp = cp div 4096"
    by (simp_all add: drop_bit_eq_div)
  have l: "cp < 0x800 \<Longrightarrow> 0xc0 OR (cp div 64) = 0xc0 + cp div 64" "0xe0 OR (cp div 4096) = 0xe0 + cp div 4096"
    using p True by (auto intro!: or_lead2 or_lead3)
  show ?thesis
    using True n l by (auto simp: utf16_cp_def utf8_cp_def u or_cont d Let_def)
next
  case False
  let ?x = "cp - 0x10000"
  have b: "0 \<le> ?x" "?x < 0x100000" using False assms by (auto simp: scalar_value_def)
  have r: "0 \<le> ?x div 1024" "?x div 1024 < 1024" using b by auto
  define hi lo :: "16 word" where "hi = word_of_int (0xd800 + ?x div 1024)"
    and "lo = word_of_int (0xdc00 + ?x mod 1024)"
  have hi: "uint hi = 0xd800 + ?x div 1024"
    unfolding hi_def using r by (intro uint_of_int16) linarith+
  have lo: "uint lo = 0xdc00 + ?x mod 1024"
    unfolding lo_def using pos_mod_bound [of 1024 ?x] pos_mod_sign [of 1024 ?x]
    by (intro uint_of_int16) linarith+
  have us: "utf16_cp cp = [hi, lo]" using False by (simp add: utf16_cp_def hi_def lo_def)
  have c: "0x10000 + push_bit 10 (?x div 1024) + ?x mod 1024 = cp"
    by (simp add: push_bit_eq_mult)
  have d: "drop_bit 6 cp = cp div 64" "drop_bit 12 cp = cp div 4096" "drop_bit 18 cp = cp div 262144"
    by (simp_all add: drop_bit_eq_div)
  have l: "0xf0 OR (cp div 262144) = 0xf0 + cp div 262144"
    using b by (intro or_lead4) auto
  have "utf8_units (utf16_cp cp @ rest) =
      (let c = cp in [to_byte (0xf0 OR drop_bit 18 c), to_byte (0x80 OR (drop_bit 12 c AND 0x3f)),
            to_byte (0x80 OR (drop_bit 6 c AND 0x3f)), to_byte (0x80 OR (c AND 0x3f))] @ utf8_units rest)"
    using r c by (simp add: us hi lo Let_def)
  then show ?thesis using False by (simp add: utf8_cp_def or_cont d l)
qed

text \<open>C36: on well-formed UTF-16, \<open>utf8ToMutableBytes\<close> is the UTF-8 encoding of RFC 3629 of the
  code points (one to four bytes each, computed by arithmetic), and the index writes never
  leave the buffer of four bytes per code unit.\<close>
theorem utf8ToMutableBytes_rfc3629:
  assumes "list_all scalar_value cps"
  shows "utf8ToMutableBytes (concat (map utf16_cp cps)) = concat (map utf8_cp cps) \<and>
    length (utf8ToMutableBytes (concat (map utf16_cp cps))) \<le> 4 * length (concat (map utf16_cp cps))"
proof -
  have "utf8_units (concat (map utf16_cp cps)) = concat (map utf8_cp cps)"
    using assms by (induction cps) (simp_all add: utf8_units_cp del: utf8_units.simps(2))
  then show ?thesis
    using length_utf8_units [of "concat (map utf16_cp cps)"] by (simp add: utf8ToMutableBytes_units)
qed

theorem utf8ToMutableBytes_rfc3629_witness:
  "list_all scalar_value [0x53, 0xe9, 0x20ac, 0x1f600] \<and>
    utf8ToMutableBytes [0x53, 0xe9, 0x20ac, 0xd83d, 0xde00] =
      [0x53, 0xc3, 0xa9, 0xe2, 0x82, 0xac, 0xf0, 0x9f, 0x98, 0x80]"
proof -
  have h: "list_all scalar_value [0x53, 0xe9, 0x20ac, 0x1f600]"
    by (simp add: scalar_value_def)
  have "concat (map utf16_cp [0x53, 0xe9, 0x20ac, 0x1f600]) = [0x53, 0xe9, 0x20ac, 0xd83d, 0xde00]"
    by (simp add: utf16_cp_def)
  moreover have "concat (map utf8_cp [0x53, 0xe9, 0x20ac, 0x1f600]) =
      [0x53, 0xc3, 0xa9, 0xe2, 0x82, 0xac, 0xf0, 0x9f, 0x98, 0x80]"
    by (simp add: utf8_cp_def to_byte_def)
  ultimately show ?thesis using h utf8ToMutableBytes_rfc3629 [OF h] by simp
qed

text \<open>Outside well-formed UTF-16 the encoder is not injective. The guard of the surrogate
  branch does not test that the second unit is a low surrogate, so a high surrogate swallows
  whatever follows it, and the ill-formed pair D800 E000 yields the bytes of the well-formed
  pair D801 DC00.\<close>
lemma utf8ToMutableBytes_collision:
  "utf8ToMutableBytes [0xd800, 0xe000] = utf8ToMutableBytes [0xd801, 0xdc00] \<and>
    utf8ToMutableBytes [0xd801, 0xdc00] = utf8_cp 0x10400 \<and>
    length (utf8ToMutableBytes [0xd800, 0x41]) = 4"
  by code_simp

end
