(* ===== verification/Session_Keystore.thy ===== *)
theory Session_Keystore imports Prelude begin

text \<open>
  \<^verbatim>\<open>src/security/session-keystore.ts\<close>: the session cache of wallet seeds, its migration to
  authenticated storage, its lock notifications and the idle lock. An async function runs
  without interruption between two \<^verbatim>\<open>await\<close>s, so each one is split at its awaits: an
  \<open>await\<close> value names the storage call it waits for together with the local variables that
  are live across it, a \<open>ready\<close> value is that call with its answer, and \<open>resume\<close> is the
  code from there to the next await. \<open>drive\<close> composes the segments of one call alone;
  \<open>ks_step\<close> interleaves any number of calls. The storage shim is not part of the repository:
  it is a parameter.
\<close>

section \<open>Module state\<close>

definition SECRET_PREFIX :: string where
  "SECRET_PREFIX = ''xlm_vault_wallet_secret_''"

definition AUTH_FLAG_PREFIX :: string where
  "AUTH_FLAG_PREFIX = ''xlm_vault_wallet_secret_auth_v1_''"

definition IDLE_LOCK_MS :: int where
  "IDLE_LOCK_MS = 5 * 60 * 1000"

text \<open>
  \<open>ks_seen\<close> records every call of a listener, with the lock state the listener can read at
  that moment; exceptions of listeners are swallowed by the code.
\<close>

record keystore =
  ks_cache :: "(string, string) jsmap"
  ks_listeners :: "nat list"
  ks_seen :: "(nat \<times> bool) list"
  ks_lastActivity :: int
  ks_now :: int
  ks_backgroundedAt :: "int option"
  ks_sub :: bool

section \<open>Synchronous operations\<close>

definition secretKeyFor :: "string \<Rightarrow> string" where
  "secretKeyFor i = SECRET_PREFIX @ i"

definition authFlagKey :: "string \<Rightarrow> string" where
  "authFlagKey i = AUTH_FLAG_PREFIX @ i"

definition isUnlocked :: "keystore \<Rightarrow> bool" where
  "isUnlocked ks \<longleftrightarrow> length (ks_cache ks) > 0"

definition subscribeSessionLock :: "nat \<Rightarrow> keystore \<Rightarrow> keystore" where
  "subscribeSessionLock l ks =
     (if l \<in> set (ks_listeners ks) then ks else ks\<lparr>ks_listeners := ks_listeners ks @ [l]\<rparr>)"

definition unsubscribeSessionLock :: "nat \<Rightarrow> keystore \<Rightarrow> keystore" where
  "unsubscribeSessionLock l ks = ks\<lparr>ks_listeners := removeAll l (ks_listeners ks)\<rparr>"

definition notifyLockChange :: "keystore \<Rightarrow> keystore" where
  "notifyLockChange ks =
     ks\<lparr>ks_seen := ks_seen ks @ map (\<lambda>l. (l, isUnlocked ks)) (ks_listeners ks)\<rparr>"

definition touch :: "keystore \<Rightarrow> keystore" where
  "touch ks = ks\<lparr>ks_lastActivity := ks_now ks\<rparr>"

definition wipeCacheEntry :: "string \<Rightarrow> keystore \<Rightarrow> keystore" where
  "wipeCacheEntry i ks =
     (let c = (case jm_get (ks_cache ks) i of
                 Some s \<Rightarrow> if length s > 0 then jm_set i (replicate (length s) (CHR ''0'')) (ks_cache ks)
                           else ks_cache ks
               | None \<Rightarrow> ks_cache ks)
      in ks\<lparr>ks_cache := jm_delete i c\<rparr>)"

definition dropWallet :: "string \<Rightarrow> keystore \<Rightarrow> keystore" where
  "dropWallet i ks = wipeCacheEntry i ks"

definition lockNow :: "keystore \<Rightarrow> keystore" where
  "lockNow ks =
     (let wasUnlocked = length (ks_cache ks) > 0;
          ks1 = fold wipeCacheEntry (jm_keys (ks_cache ks)) ks;
          ks2 = ks1\<lparr>ks_cache := []\<rparr>
      in if wasUnlocked then notifyLockChange ks2 else ks2)"

section \<open>Asynchronous operations, split at their awaits\<close>

datatype await =
    W_flag string bool
  | W_auth string bool
  | W_legacy string bool
  | W_migrate string bool string
  | W_mark string bool string
  | S_auth string string bool
  | S_mark string string bool
  | S_plain string string bool
  | D_secure string
  | D_flag string

text \<open>The answer of the awaited call: \<open>Inl\<close> is a rejected promise.\<close>

datatype ready =
    A_flag string bool "string + bool"
  | A_auth string bool "string + string option"
  | A_legacy string bool "string + string option"
  | A_migrate string bool string "string + bool"
  | A_mark string bool string "string + unit"
  | B_auth string string bool "string + bool"
  | B_mark string string bool "string + unit"
  | B_plain string string bool "string + bool"
  | E_secure string "string + unit"
  | E_flag string "string + unit"

datatype outcome =
    Pending await
  | Got string "string option"
  | SetDone bool
  | Removed
  | Rejected string

text \<open>\<open>sessionCache.set(id, seed); touch(); if (wasLocked) notifyLockChange()\<close>, which three paths share.\<close>

definition cache_seed :: "string \<Rightarrow> string \<Rightarrow> bool \<Rightarrow> keystore \<Rightarrow> keystore" where
  "cache_seed i s wasLocked ks =
     (let ks1 = touch (ks\<lparr>ks_cache := jm_set i s (ks_cache ks)\<rparr>)
      in if wasLocked then notifyLockChange ks1 else ks1)"

definition getWalletSeed :: "string \<Rightarrow> keystore \<Rightarrow> outcome \<times> keystore" where
  "getWalletSeed i ks =
     (let cached = jm_get (ks_cache ks) i
      in if truthy cached then (Got i cached, touch ks)
         else (let wasLocked = length (ks_cache ks) = 0 in (Pending (W_flag i wasLocked), ks)))"

definition setWalletSeed :: "string \<Rightarrow> string \<Rightarrow> keystore \<Rightarrow> outcome \<times> keystore" where
  "setWalletSeed i s ks =
     (let wasLocked = length (ks_cache ks) = 0 in (Pending (S_auth i s wasLocked), ks))"

definition removeWalletSeed :: "string \<Rightarrow> keystore \<Rightarrow> outcome \<times> keystore" where
  "removeWalletSeed i ks = (Pending (D_secure i), wipeCacheEntry i ks)"

fun resume :: "ready \<Rightarrow> keystore \<Rightarrow> outcome \<times> keystore" where
  "resume (A_flag i wl (Inl e)) ks = (Rejected e, ks)"
| "resume (A_flag i wl (Inr migrated)) ks =
     (if migrated then (Pending (W_auth i wl), ks) else (Pending (W_legacy i wl), ks))"
| "resume (A_auth i wl (Inl e)) ks = (Rejected e, ks)"
| "resume (A_auth i wl (Inr seed)) ks =
     (if \<not> truthy seed then (Got i None, ks) else (Got i seed, cache_seed i (the seed) wl ks))"
| "resume (A_legacy i wl (Inl e)) ks = (Rejected e, ks)"
| "resume (A_legacy i wl (Inr legacy)) ks =
     (if \<not> truthy legacy then (Got i None, ks) else (Pending (W_migrate i wl (the legacy)), ks))"
| "resume (A_migrate i wl legacy (Inl e)) ks = (Rejected e, ks)"
| "resume (A_migrate i wl legacy (Inr ok)) ks =
     (if ok then (Pending (W_mark i wl legacy), ks) else (Got i (Some legacy), cache_seed i legacy wl ks))"
| "resume (A_mark i wl legacy (Inl e)) ks = (Rejected e, ks)"
| "resume (A_mark i wl legacy (Inr _)) ks = (Got i (Some legacy), cache_seed i legacy wl ks)"
| "resume (B_auth i s wl (Inl e)) ks = (Rejected e, ks)"
| "resume (B_auth i s wl (Inr ok)) ks =
     (if ok then (Pending (S_mark i s wl), ks) else (Pending (S_plain i s wl), ks))"
| "resume (B_mark i s wl (Inl e)) ks = (Rejected e, ks)"
| "resume (B_mark i s wl (Inr _)) ks = (SetDone True, cache_seed i s wl ks)"
| "resume (B_plain i s wl (Inl e)) ks = (Rejected e, ks)"
| "resume (B_plain i s wl (Inr fallbackOk)) ks =
     (SetDone fallbackOk, if fallbackOk then cache_seed i s wl ks else ks)"
| "resume (E_secure i (Inl e)) ks = (Rejected e, ks)"
| "resume (E_secure i (Inr _)) ks = (Pending (D_flag i), ks)"
| "resume (E_flag i (Inl e)) ks = (Rejected e, ks)"
| "resume (E_flag i (Inr _)) ks = (Removed, ks)"

section \<open>The idle lock\<close>

datatype app_state = Active | Background | Inactive | Unknown

definition installIdleLock :: "keystore \<Rightarrow> keystore" where
  "installIdleLock ks = (if ks_sub ks then ks else ks\<lparr>ks_sub := True\<rparr>)"

definition uninstallIdleLock :: "keystore \<Rightarrow> keystore" where
  "uninstallIdleLock ks =
     (let ks1 = (if ks_sub ks then ks\<lparr>ks_sub := False\<rparr> else ks) in ks1\<lparr>ks_backgroundedAt := None\<rparr>)"

text \<open>The AppState listener.\<close>

definition onAppState :: "app_state \<Rightarrow> keystore \<Rightarrow> keystore" where
  "onAppState nxt ks =
     (if nxt = Background \<or> nxt = Inactive then ks\<lparr>ks_backgroundedAt := Some (ks_now ks)\<rparr>
      else
        let ks1 = (case ks_backgroundedAt ks of
              Some b \<Rightarrow>
                if nxt = Active then
                  (let idleFor = ks_now ks - b; ks' = ks\<lparr>ks_backgroundedAt := None\<rparr>
                   in if idleFor \<ge> IDLE_LOCK_MS then lockNow ks' else ks')
                else ks
            | None \<Rightarrow> ks)
        in if ks_now ks1 - ks_lastActivity ks1 \<ge> IDLE_LOCK_MS then lockNow ks1 else ks1)"

section \<open>The storage shim, a parameter\<close>

record 'st storage =
  st_getItem :: "string \<Rightarrow> 'st \<Rightarrow> (string + bool) \<times> 'st"
  st_setItem :: "string \<Rightarrow> 'st \<Rightarrow> (string + unit) \<times> 'st"
  st_removeItem :: "string \<Rightarrow> 'st \<Rightarrow> (string + unit) \<times> 'st"
  st_secureGetAuthenticated :: "string \<Rightarrow> 'st \<Rightarrow> (string + string option) \<times> 'st"
  st_secureGet :: "string \<Rightarrow> 'st \<Rightarrow> (string + string option) \<times> 'st"
  st_secureSetAuthenticated :: "string \<Rightarrow> string \<Rightarrow> 'st \<Rightarrow> (string + bool) \<times> 'st"
  st_secureSet :: "string \<Rightarrow> string \<Rightarrow> 'st \<Rightarrow> (string + bool) \<times> 'st"
  st_secureRemove :: "string \<Rightarrow> 'st \<Rightarrow> (string + unit) \<times> 'st"

text \<open>The call each await makes.\<close>

fun perform :: "'st storage \<Rightarrow> await \<Rightarrow> 'st \<Rightarrow> ready \<times> 'st" where
  "perform S (W_flag i wl) st = map_prod (A_flag i wl) id (st_getItem S (authFlagKey i) st)"
| "perform S (W_auth i wl) st = map_prod (A_auth i wl) id (st_secureGetAuthenticated S (secretKeyFor i) st)"
| "perform S (W_legacy i wl) st = map_prod (A_legacy i wl) id (st_secureGet S (secretKeyFor i) st)"
| "perform S (W_migrate i wl s) st =
     map_prod (A_migrate i wl s) id (st_secureSetAuthenticated S (secretKeyFor i) s st)"
| "perform S (W_mark i wl s) st = map_prod (A_mark i wl s) id (st_setItem S (authFlagKey i) st)"
| "perform S (S_auth i s wl) st =
     map_prod (B_auth i s wl) id (st_secureSetAuthenticated S (secretKeyFor i) s st)"
| "perform S (S_mark i s wl) st = map_prod (B_mark i s wl) id (st_setItem S (authFlagKey i) st)"
| "perform S (S_plain i s wl) st = map_prod (B_plain i s wl) id (st_secureSet S (secretKeyFor i) s st)"
| "perform S (D_secure i) st = map_prod (E_secure i) id (st_secureRemove S (secretKeyFor i) st)"
| "perform S (D_flag i) st = map_prod (E_flag i) id (st_removeItem S (authFlagKey i) st)"

text \<open>One call run alone, from a segment's outcome to the settled promise.\<close>

fun stage :: "await \<Rightarrow> nat" where
  "stage (W_flag _ _) = 4"
| "stage (W_auth _ _) = 1"
| "stage (W_legacy _ _) = 3"
| "stage (W_migrate _ _ _) = 2"
| "stage (W_mark _ _ _) = 1"
| "stage (S_auth _ _ _) = 2"
| "stage (S_mark _ _ _) = 1"
| "stage (S_plain _ _ _) = 1"
| "stage (D_secure _) = 2"
| "stage (D_flag _) = 1"

lemma stage_pos: "0 < stage a"
  by (cases a) simp_all

lemma resume_stage: "perform S a st = (r, st') \<Longrightarrow> resume r ks = (Pending b, ks') \<Longrightarrow> stage b < stage a"
  by (cases a) (auto simp: map_prod_def split: prod.splits if_splits elim!: resume.elims)

function drive :: "'st storage \<Rightarrow> outcome \<Rightarrow> keystore \<Rightarrow> 'st \<Rightarrow> outcome \<times> keystore \<times> 'st" where
  "drive S (Pending a) ks st =
     (case perform S a st of (r, st') \<Rightarrow> case resume r ks of (out, ks') \<Rightarrow> drive S out ks' st')"
| "drive S (Got i s) ks st = (Got i s, ks, st)"
| "drive S (SetDone b) ks st = (SetDone b, ks, st)"
| "drive S Removed ks st = (Removed, ks, st)"
| "drive S (Rejected e) ks st = (Rejected e, ks, st)"
  by pat_completeness auto
termination
  by (relation "measure (\<lambda>(S, out, ks, st). case out of Pending a \<Rightarrow> stage a | _ \<Rightarrow> 0)")
    (auto simp: stage_pos intro: resume_stage [OF sym sym] split: outcome.splits)

section \<open>Any number of calls, interleaved\<close>

text \<open>
  The page: module state, storage, the calls waiting for an answer, the answers not yet
  consumed, every answer given so far and every settled promise. One event is one turn of the
  event loop; \<open>EAnswer n\<close> lets the storage complete the \<open>n\<close>-th waiting call and \<open>EContinue n\<close>
  runs the \<open>n\<close>-th continuation, so any schedule is a list of events.
\<close>

record 'st sys =
  y_ks :: keystore
  y_st :: 'st
  y_wait :: "await list"
  y_ready :: "ready list"
  y_log :: "ready list"
  y_done :: "outcome list"

datatype event =
    EGet string
  | ESet string string
  | ERemove string
  | EDrop string
  | ELock
  | EListen nat
  | EUnlisten nat
  | EInstall
  | EUninstall
  | EApp app_state
  | ETick nat
  | EAnswer nat
  | EContinue nat

definition without_nth :: "nat \<Rightarrow> 'a list \<Rightarrow> 'a list" where
  "without_nth n xs = take n xs @ drop (Suc n) xs"

fun settle :: "outcome \<times> keystore \<Rightarrow> 'st sys \<Rightarrow> 'st sys" where
  "settle (Pending a, ks) y = y\<lparr>y_ks := ks, y_wait := y_wait y @ [a]\<rparr>"
| "settle (out, ks) y = y\<lparr>y_ks := ks, y_done := y_done y @ [out]\<rparr>"

fun sys_step :: "'st storage \<Rightarrow> event \<Rightarrow> 'st sys \<Rightarrow> 'st sys" where
  "sys_step S (EGet i) y = settle (getWalletSeed i (y_ks y)) y"
| "sys_step S (ESet i s) y = settle (setWalletSeed i s (y_ks y)) y"
| "sys_step S (ERemove i) y = settle (removeWalletSeed i (y_ks y)) y"
| "sys_step S (EDrop i) y = y\<lparr>y_ks := dropWallet i (y_ks y)\<rparr>"
| "sys_step S ELock y = y\<lparr>y_ks := lockNow (y_ks y)\<rparr>"
| "sys_step S (EListen l) y = y\<lparr>y_ks := subscribeSessionLock l (y_ks y)\<rparr>"
| "sys_step S (EUnlisten l) y = y\<lparr>y_ks := unsubscribeSessionLock l (y_ks y)\<rparr>"
| "sys_step S EInstall y = y\<lparr>y_ks := installIdleLock (y_ks y)\<rparr>"
| "sys_step S EUninstall y = y\<lparr>y_ks := uninstallIdleLock (y_ks y)\<rparr>"
| "sys_step S (EApp n) y = (if ks_sub (y_ks y) then y\<lparr>y_ks := onAppState n (y_ks y)\<rparr> else y)"
| "sys_step S (ETick d) y = y\<lparr>y_ks := (y_ks y)\<lparr>ks_now := ks_now (y_ks y) + int d\<rparr>\<rparr>"
| "sys_step S (EAnswer n) y =
     (if n < length (y_wait y) then
        (case perform S (y_wait y ! n) (y_st y) of (r, st') \<Rightarrow>
           y\<lparr>y_wait := without_nth n (y_wait y), y_st := st', y_ready := y_ready y @ [r], y_log := y_log y @ [r]\<rparr>)
      else y)"
| "sys_step S (EContinue n) y =
     (if n < length (y_ready y) then
        settle (resume (y_ready y ! n) (y_ks y)) (y\<lparr>y_ready := without_nth n (y_ready y)\<rparr>)
      else y)"

definition ks_init :: "int \<Rightarrow> keystore" where
  "ks_init t = \<lparr>ks_cache = [], ks_listeners = [], ks_seen = [], ks_lastActivity = t, ks_now = t,
     ks_backgroundedAt = None, ks_sub = False\<rparr>"

definition sys_init :: "int \<Rightarrow> 'st \<Rightarrow> 'st sys" where
  "sys_init t st = \<lparr>y_ks = ks_init t, y_st = st, y_wait = [], y_ready = [], y_log = [], y_done = []\<rparr>"

inductive reachable :: "'st storage \<Rightarrow> 'st sys \<Rightarrow> bool" for S where
  start: "reachable S (sys_init t st)"
| step: "reachable S y \<Longrightarrow> reachable S (sys_step S ev y)"

interpretation keystore_runs: step_system "reachable S" "\<lambda>y. \<exists>t st. y = sys_init t st" "\<lambda>x y. \<exists>ev. y = sys_step S ev x" for S
proof unfold_locales
  show "reachable S y" if "reachable S x" "\<exists>ev. y = sys_step S ev x" for x y
    using that by (blast intro: reachable.step)
  show "I x" if "reachable S x" "\<And>y. \<exists>t st. y = sys_init t st \<Longrightarrow> I y"
    "\<And>y z. reachable S y \<Longrightarrow> I y \<Longrightarrow> \<exists>ev. z = sys_step S ev y \<Longrightarrow> I z" for x I
    using that(1) by induction (use that(2,3) in blast)+
qed

lemma reachable_run: "reachable S y \<Longrightarrow> reachable S (fold (sys_step S) evs y)"
  by (rule keystore_runs.run) auto

section \<open>The synchronous operations\<close>

lemma jm_delete_set: "jm_delete k (jm_set k v m) = jm_delete k m"
  by (induction k v m rule: jm_set.induct) simp_all

lemma wipeCacheEntry_eq: "wipeCacheEntry i ks = ks\<lparr>ks_cache := jm_delete i (ks_cache ks)\<rparr>"
  by (simp add: wipeCacheEntry_def Let_def jm_delete_set split: option.splits)

lemma fold_wipeCacheEntry: "fold wipeCacheEntry is ks = ks\<lparr>ks_cache := fold jm_delete is (ks_cache ks)\<rparr>"
  by (induction "is" arbitrary: ks) (simp_all add: wipeCacheEntry_eq)

lemma lockNow_eq:
  "lockNow ks = (if isUnlocked ks then notifyLockChange (ks\<lparr>ks_cache := []\<rparr>) else ks\<lparr>ks_cache := []\<rparr>)"
  by (simp add: lockNow_def fold_wipeCacheEntry isUnlocked_def Let_def)

lemma isUnlocked_simps [simp]:
  "isUnlocked (notifyLockChange ks) = isUnlocked ks"
  "isUnlocked (touch ks) = isUnlocked ks"
  "ks_cache (notifyLockChange ks) = ks_cache ks"
  "ks_cache (touch ks) = ks_cache ks"
  by (simp_all add: isUnlocked_def notifyLockChange_def touch_def)

lemma ks_cache_lockNow [simp]: "ks_cache (lockNow ks) = []"
  by (simp add: lockNow_eq)

lemma ks_cache_cache_seed [simp]: "ks_cache (cache_seed i s wl ks) = jm_set i s (ks_cache ks)"
  by (simp add: cache_seed_def Let_def)

section \<open>Lock notifications\<close>

text \<open>Between two states every listener was called once if the lock state flipped, and not at all otherwise.\<close>

definition notified_exactly :: "keystore \<Rightarrow> keystore \<Rightarrow> bool" where
  "notified_exactly ks ks' \<longleftrightarrow> ks_listeners ks' = ks_listeners ks \<and>
     ks_seen ks' = ks_seen ks @
       (if isUnlocked ks' = isUnlocked ks then [] else map (\<lambda>l. (l, isUnlocked ks')) (ks_listeners ks))"

lemma notified_exactly_refl: "notified_exactly ks ks"
  by (simp add: notified_exactly_def)

lemma notified_lockNow: "notified_exactly ks (lockNow ks)"
  by (auto simp: notified_exactly_def lockNow_eq notifyLockChange_def isUnlocked_def)

lemma notified_cache_seed:
  "wl \<longleftrightarrow> ks_cache ks = [] \<Longrightarrow> notified_exactly ks (cache_seed i s wl ks)"
  by (auto simp: notified_exactly_def cache_seed_def Let_def notifyLockChange_def touch_def isUnlocked_def)

text \<open>The local \<open>wasLocked\<close> that an await carries.\<close>

fun await_wl :: "await \<Rightarrow> bool option" where
  "await_wl (W_flag _ wl) = Some wl"
| "await_wl (W_auth _ wl) = Some wl"
| "await_wl (W_legacy _ wl) = Some wl"
| "await_wl (W_migrate _ wl _) = Some wl"
| "await_wl (W_mark _ wl _) = Some wl"
| "await_wl (S_auth _ _ wl) = Some wl"
| "await_wl (S_mark _ _ wl) = Some wl"
| "await_wl (S_plain _ _ wl) = Some wl"
| "await_wl (D_secure _) = None"
| "await_wl (D_flag _) = None"

text \<open>One segment: it either waits again with the same \<open>wasLocked\<close> and an unchanged state, or settles.\<close>

lemma resume_segment:
  assumes "perform S a st = (r, st')" and "resume r ks = (out, ks')"
    and "await_wl a = Some wl" and "wl \<longleftrightarrow> ks_cache ks = []"
  shows "(case out of Pending b \<Rightarrow> await_wl b = Some wl \<and> ks' = ks | _ \<Rightarrow> notified_exactly ks ks')"
  using assms
  by (cases a) (auto simp: map_prod_def notified_exactly_refl notified_cache_seed
      split: prod.splits if_splits elim!: resume.elims)

lemma notified_drive:
  "(case out of Pending a \<Rightarrow> await_wl a = Some (ks_cache ks = []) | _ \<Rightarrow> True) \<Longrightarrow>
    notified_exactly ks (fst (snd (drive S out ks st)))"
proof (induction S out ks st rule: drive.induct)
  case (1 S a ks st)
  obtain r st' where p: "perform S a st = (r, st')" by (cases "perform S a st")
  obtain out ks' where r: "resume r ks = (out, ks')" by (cases "resume r ks")
  have seg: "case out of Pending b \<Rightarrow> await_wl b = Some (ks_cache ks = []) \<and> ks' = ks | _ \<Rightarrow> notified_exactly ks ks'"
    using resume_segment [OF p r, of "ks_cache ks = []"] "1.prems" by simp
  show ?case
  proof (cases out)
    case (Pending b)
    with seg "1.IH" [OF p [symmetric] r [symmetric]] show ?thesis by (simp add: p r)
  qed (use seg in \<open>simp_all add: p r\<close>)
qed (simp_all add: notified_exactly_refl)

lemma notified_onAppState: "notified_exactly ks (onAppState nxt ks)"
  by (auto simp: onAppState_def Let_def notified_exactly_def lockNow_eq notifyLockChange_def isUnlocked_def
      split: option.splits)

text \<open>A call of \<open>getWalletSeed\<close> or \<open>setWalletSeed\<close> that runs alone, \<open>lockNow\<close> and the
  AppState handler call every lock listener exactly once, with the new state readable, when
  they flip the cache between empty and non-empty, and no listener otherwise, whatever the
  storage answers (rejections included).\<close>
lemma lock_notifications_exact:
  "notified_exactly ks (fst (snd (drive S (fst (getWalletSeed i ks)) (snd (getWalletSeed i ks)) st))) \<and>
   notified_exactly ks (fst (snd (drive S (fst (setWalletSeed i s ks)) (snd (setWalletSeed i s ks)) st))) \<and>
   notified_exactly ks (lockNow ks) \<and> notified_exactly ks (onAppState nxt ks)"
proof -
  have "notified_exactly ks (fst (snd (drive S (fst (getWalletSeed i ks)) (snd (getWalletSeed i ks)) st)))"
  proof (cases "truthy (jm_get (ks_cache ks) i)")
    case True
    then show ?thesis
      by (simp add: getWalletSeed_def notified_exactly_def) (simp add: touch_def)
  next
    case False
    then show ?thesis
      using notified_drive [where out = "Pending (W_flag i (ks_cache ks = []))" and ks = ks and S = S and st = st]
      by (simp add: getWalletSeed_def del: drive.simps)
  qed
  moreover have "notified_exactly ks (fst (snd (drive S (fst (setWalletSeed i s ks)) (snd (setWalletSeed i s ks)) st)))"
    using notified_drive [where out = "Pending (S_auth i s (ks_cache ks = []))" and ks = ks and S = S and st = st]
    by (simp add: setWalletSeed_def del: drive.simps)
  ultimately show ?thesis by (simp add: notified_lockNow notified_onAppState)
qed

text \<open>Removing the last cached seed flips the cache to empty without a notification, in
  \<open>dropWallet\<close> and in the synchronous part of \<open>removeWalletSeed\<close> alike: whatever the listeners
  were told before, they still hold it.\<close>
lemma dropWallet_flips_silently:
  assumes "ks_cache ks = [(i, s)]" and "ks_listeners ks \<noteq> []"
  shows "isUnlocked ks \<and> \<not> isUnlocked (dropWallet i ks) \<and> ks_seen (dropWallet i ks) = ks_seen ks \<and>
    \<not> notified_exactly ks (dropWallet i ks) \<and> \<not> notified_exactly ks (snd (removeWalletSeed i ks))"
  using assms
  by (simp add: dropWallet_def removeWalletSeed_def wipeCacheEntry_eq isUnlocked_def notified_exactly_def)

lemma dropWallet_flips_silently_witness:
  "\<exists>ks. isUnlocked ks \<and> \<not> notified_exactly ks (dropWallet ''w1'' ks)"
proof -
  define ks where "ks = (ks_init 0)\<lparr>ks_cache := [(''w1'', ''SAAA'')], ks_listeners := [0]\<rparr>"
  have "ks_cache ks = [(''w1'', ''SAAA'')]" and "ks_listeners ks \<noteq> []" by (simp_all add: ks_def)
  from dropWallet_flips_silently [OF this] show ?thesis by blast
qed

section \<open>The idle lock\<close>

text \<open>
  What one AppState change does to the cache. Going to the background only records the time. Any
  other change leaves the cache as it is if the last touch is less than five minutes old and, on
  becoming active, the recorded background time is too; otherwise it empties it.
\<close>

lemma onAppState_cache:
  "ks_cache (onAppState nxt ks) =
    (if nxt = Background \<or> nxt = Inactive then ks_cache ks
     else if ks_now ks - ks_lastActivity ks < IDLE_LOCK_MS \<and>
        (nxt = Active \<longrightarrow> (\<forall>b. ks_backgroundedAt ks = Some b \<longrightarrow> ks_now ks - b < IDLE_LOCK_MS))
     then ks_cache ks else [])"
  by (auto simp: onAppState_def Let_def lockNow_eq IDLE_LOCK_MS_def notifyLockChange_def split: option.splits)

text \<open>Turns of the event loop that neither deliver an AppState change nor remove the listener
  leave the idle lock's own state alone, whatever else they do.\<close>

definition idle_neutral :: "event \<Rightarrow> bool" where
  "idle_neutral ev \<longleftrightarrow> (case ev of EApp _ \<Rightarrow> False | EUninstall \<Rightarrow> False | _ \<Rightarrow> True)"

definition idle_view :: "keystore \<Rightarrow> int option \<times> bool" where
  "idle_view ks = (ks_backgroundedAt ks, ks_sub ks)"

lemma idle_view_simps [simp]:
  "idle_view (touch ks) = idle_view ks" "idle_view (notifyLockChange ks) = idle_view ks"
  "idle_view (ks\<lparr>ks_cache := c\<rparr>) = idle_view ks" "idle_view (lockNow ks) = idle_view ks"
  "idle_view (cache_seed i s wl ks) = idle_view ks"
  "idle_view (subscribeSessionLock l ks) = idle_view ks"
  "idle_view (unsubscribeSessionLock l ks) = idle_view ks"
  "idle_view (ks\<lparr>ks_now := t\<rparr>) = idle_view ks"
  by (simp_all add: idle_view_def touch_def notifyLockChange_def lockNow_eq cache_seed_def Let_def
      subscribeSessionLock_def unsubscribeSessionLock_def)

lemma y_ks_settle [simp]: "y_ks (settle x y) = snd x"
  by (cases x, case_tac a) simp_all

lemma idle_view_resume: "idle_view (snd (resume r ks)) = idle_view ks"
  by (cases "(r, ks)" rule: resume.cases) auto

lemma idle_view_step:
  "idle_neutral ev \<Longrightarrow> ks_sub (y_ks y) \<Longrightarrow> idle_view (y_ks (sys_step S ev y)) = idle_view (y_ks y)"
  by (cases ev) (auto simp: idle_neutral_def idle_view_resume getWalletSeed_def setWalletSeed_def
      removeWalletSeed_def dropWallet_def wipeCacheEntry_eq installIdleLock_def Let_def split: prod.splits)

lemma idle_view_run:
  "list_all idle_neutral evs \<Longrightarrow> ks_sub (y_ks y) \<Longrightarrow>
    idle_view (y_ks (fold (sys_step S) evs y)) = idle_view (y_ks y)"
proof (induction evs arbitrary: y)
  case Nil
  then show ?case by simp
next
  case (Cons ev evs)
  then have "idle_view (y_ks (sys_step S ev y)) = idle_view (y_ks y)"
    by (simp add: idle_view_step)
  with Cons show ?case by (simp add: idle_view_def)
qed

text \<open>C21: with the idle lock installed, if the app goes to the background, then any turns of the
  event loop run (seeds read or stored, answers arriving, time passing), and it becomes active
  five minutes or more after, the cache is empty.\<close>
theorem background_locks:
  assumes "ks_sub (y_ks y)" and "list_all idle_neutral evs"
    and y2: "y2 = fold (sys_step S) evs (sys_step S (EApp Background) y)"
    and "ks_now (y_ks y2) - ks_now (y_ks y) \<ge> 300000"
  shows "\<not> isUnlocked (y_ks (sys_step S (EApp Active) y2))"
proof -
  let ?y1 = "sys_step S (EApp Background) y"
  have y1: "idle_view (y_ks ?y1) = (Some (ks_now (y_ks y)), True)"
    using assms(1) by (simp add: idle_view_def onAppState_def)
  then have "idle_view (y_ks y2) = (Some (ks_now (y_ks y)), True)"
    using idle_view_run [OF assms(2), of ?y1 S] by (simp add: y2 idle_view_def)
  then have "ks_backgroundedAt (y_ks y2) = Some (ks_now (y_ks y))" and "ks_sub (y_ks y2)"
    by (simp_all add: idle_view_def)
  with assms(4) show ?thesis by (simp add: onAppState_cache isUnlocked_def IDLE_LOCK_MS_def)
qed

section \<open>A storage for examples\<close>

text \<open>
  An instance of the parameter, for the closed examples only: both secure reads and writes use
  one slot per key, authenticated calls succeed when the user is enrolled.
\<close>

record mem =
  m_flags :: "string list"
  m_secrets :: "(string, string) jsmap"
  m_enrolled :: bool

definition mem_storage :: "mem storage" where
  "mem_storage = \<lparr>
     st_getItem = (\<lambda>k m. (Inr (k \<in> set (m_flags m)), m)),
     st_setItem = (\<lambda>k m. (Inr (), m\<lparr>m_flags := k # m_flags m\<rparr>)),
     st_removeItem = (\<lambda>k m. (Inr (), m\<lparr>m_flags := removeAll k (m_flags m)\<rparr>)),
     st_secureGetAuthenticated = (\<lambda>k m. (Inr (if m_enrolled m then jm_get (m_secrets m) k else None), m)),
     st_secureGet = (\<lambda>k m. (Inr (jm_get (m_secrets m) k), m)),
     st_secureSetAuthenticated = (\<lambda>k v m.
        (Inr (m_enrolled m), if m_enrolled m then m\<lparr>m_secrets := jm_set k v (m_secrets m)\<rparr> else m)),
     st_secureSet = (\<lambda>k v m. (Inr True, m\<lparr>m_secrets := jm_set k v (m_secrets m)\<rparr>)),
     st_secureRemove = (\<lambda>k m. (Inr (), m\<lparr>m_secrets := jm_delete k (m_secrets m)\<rparr>))\<rparr>"

theorem background_locks_witness:
  "isUnlocked ((ks_init 0)\<lparr>ks_cache := [(''w1'', ''SAAA'')]\<rparr>) \<and>
   \<not> isUnlocked (y_ks (sys_step mem_storage (EApp Active)
      (fold (sys_step mem_storage) [EGet ''w1'', ETick 300000, EGet ''w1'']
        (sys_step mem_storage (EApp Background)
          ((sys_init 0 (undefined :: mem))\<lparr>y_ks := (ks_init 0)\<lparr>ks_cache := [(''w1'', ''SAAA'')], ks_sub := True\<rparr>\<rparr>)))))"
proof -
  let ?y = "(sys_init 0 (undefined :: mem))\<lparr>y_ks := (ks_init 0)\<lparr>ks_cache := [(''w1'', ''SAAA'')], ks_sub := True\<rparr>\<rparr>"
  let ?evs = "[EGet ''w1'', ETick 300000, EGet ''w1'']"
  have "ks_now (y_ks (fold (sys_step mem_storage) ?evs (sys_step mem_storage (EApp Background) ?y)))
      - ks_now (y_ks ?y) \<ge> 300000"
    by (simp add: getWalletSeed_def touch_def onAppState_def ks_init_def)
  from background_locks [OF _ _ refl this] show ?thesis
    by (simp add: idle_neutral_def isUnlocked_def)
qed

section \<open>Where cached and returned seeds come from\<close>

text \<open>The await a ready value answers, and what the answers so far must hold for an await to exist.\<close>

fun answered :: "ready \<Rightarrow> await" where
  "answered (A_flag i wl _) = W_flag i wl"
| "answered (A_auth i wl _) = W_auth i wl"
| "answered (A_legacy i wl _) = W_legacy i wl"
| "answered (A_migrate i wl s _) = W_migrate i wl s"
| "answered (A_mark i wl s _) = W_mark i wl s"
| "answered (B_auth i s wl _) = S_auth i s wl"
| "answered (B_mark i s wl _) = S_mark i s wl"
| "answered (B_plain i s wl _) = S_plain i s wl"
| "answered (E_secure i _) = D_secure i"
| "answered (E_flag i _) = D_flag i"

fun await_ok :: "ready set \<Rightarrow> await \<Rightarrow> bool" where
  "await_ok L (W_auth i wl) \<longleftrightarrow> A_flag i wl (Inr True) \<in> L"
| "await_ok L (W_legacy i wl) \<longleftrightarrow> A_flag i wl (Inr False) \<in> L"
| "await_ok L (W_migrate i wl s) \<longleftrightarrow> A_legacy i wl (Inr (Some s)) \<in> L"
| "await_ok L (W_mark i wl s) \<longleftrightarrow> A_migrate i wl s (Inr True) \<in> L \<and> A_legacy i wl (Inr (Some s)) \<in> L"
| "await_ok L (S_mark i s wl) \<longleftrightarrow> B_auth i s wl (Inr True) \<in> L"
| "await_ok L (S_plain i s wl) \<longleftrightarrow> B_auth i s wl (Inr False) \<in> L"
| "await_ok L _ \<longleftrightarrow> True"

text \<open>The seed \<open>s\<close> was released by the storage for wallet \<open>i\<close>, or stored for it.\<close>

definition sourced :: "ready set \<Rightarrow> string \<Rightarrow> string \<Rightarrow> bool" where
  "sourced L i s \<longleftrightarrow> (\<exists>wl. A_auth i wl (Inr (Some s)) \<in> L \<or> A_legacy i wl (Inr (Some s)) \<in> L \<or>
     B_auth i s wl (Inr True) \<in> L \<or> B_plain i s wl (Inr True) \<in> L)"

definition log_ordered :: "ready list \<Rightarrow> bool" where
  "log_ordered L \<longleftrightarrow> (\<forall>xs r ys. L = xs @ r # ys \<longrightarrow> await_ok (set xs) (answered r))"

definition sys_inv :: "'st sys \<Rightarrow> bool" where
  "sys_inv y \<longleftrightarrow>
     jm_ok (ks_cache (y_ks y)) \<and>
     (\<forall>i s. jm_get (ks_cache (y_ks y)) i = Some s \<longrightarrow> sourced (set (y_log y)) i s) \<and>
     (\<forall>i s. Got i (Some s) \<in> set (y_done y) \<longrightarrow> sourced (set (y_log y)) i s) \<and>
     (\<forall>a\<in>set (y_wait y). await_ok (set (y_log y)) a) \<and>
     (\<forall>r\<in>set (y_ready y). r \<in> set (y_log y) \<and> await_ok (set (y_log y)) (answered r)) \<and>
     log_ordered (y_log y)"

lemma await_ok_mono: "await_ok L a \<Longrightarrow> L \<subseteq> L' \<Longrightarrow> await_ok L' a"
  by (cases a) auto

lemma sourced_mono: "sourced L i s \<Longrightarrow> L \<subseteq> L' \<Longrightarrow> sourced L' i s"
  by (auto simp: sourced_def)

lemma sourcedI:
  "A_auth i wl (Inr (Some s)) \<in> L \<Longrightarrow> sourced L i s"
  "A_legacy i wl (Inr (Some s)) \<in> L \<Longrightarrow> sourced L i s"
  "B_auth i s wl (Inr True) \<in> L \<Longrightarrow> sourced L i s"
  "B_plain i s wl (Inr True) \<in> L \<Longrightarrow> sourced L i s"
  by (auto simp: sourced_def)

lemma log_ordered_snoc:
  "log_ordered (L @ [r]) \<longleftrightarrow> log_ordered L \<and> await_ok (set L) (answered r)"
proof
  assume a: "log_ordered (L @ [r])"
  have "await_ok (set xs) (answered q)" if "L = xs @ q # ys" for xs q ys
    using a that by (simp add: log_ordered_def)
  moreover have "await_ok (set L) (answered r)"
    using a by (simp add: log_ordered_def)
  ultimately show "log_ordered L \<and> await_ok (set L) (answered r)"
    by (simp add: log_ordered_def)
next
  assume a: "log_ordered L \<and> await_ok (set L) (answered r)"
  have "await_ok (set xs) (answered q)" if "L @ [r] = xs @ q # ys" for xs q ys
    using that a by (cases ys rule: rev_cases) (auto simp: log_ordered_def)
  then show "log_ordered (L @ [r])" by (simp add: log_ordered_def)
qed

lemma perform_answered: "perform S a st = (r, st') \<Longrightarrow> answered r = a"
  by (cases a) (auto simp: map_prod_def split: prod.splits)

lemma set_without_nth: "set (without_nth n xs) \<subseteq> set xs"
  by (auto simp: without_nth_def dest: in_set_takeD in_set_dropD)

text \<open>One continuation: the new await is justified by the answers, and so are a returned seed and
  every cache entry it leaves.\<close>

lemma resume_sourced:
  assumes "resume r ks = (out, ks')" and "r \<in> L" and "await_ok L (answered r)"
    and "jm_ok (ks_cache ks)" and "\<And>i s. jm_get (ks_cache ks) i = Some s \<Longrightarrow> sourced L i s"
  shows "(\<forall>b. out = Pending b \<longrightarrow> await_ok L b) \<and> (\<forall>i s. out = Got i (Some s) \<longrightarrow> sourced L i s) \<and>
    jm_ok (ks_cache ks') \<and> (\<forall>i s. jm_get (ks_cache ks') i = Some s \<longrightarrow> sourced L i s)"
proof -
  have new: "out = Pending b \<Longrightarrow> await_ok L b" for b
    using assms(1-3) by (cases "(r, ks)" rule: resume.cases) (auto simp: truthy_Some split: if_splits)
  have got: "out = Got i (Some s) \<Longrightarrow> sourced L i s" for i s
    using assms(1-3) by (cases "(r, ks)" rule: resume.cases)
      (auto simp: truthy_Some sourced_def split: if_splits)
  have "ks_cache ks' = ks_cache ks \<or> (\<exists>i s. ks_cache ks' = jm_set i s (ks_cache ks) \<and> sourced L i s)"
    using assms(1-3) by (cases "(r, ks)" rule: resume.cases)
      (auto simp: truthy_Some split: if_splits; blast intro: sourcedI)+
  then have "jm_ok (ks_cache ks')" and "jm_get (ks_cache ks') i = Some s \<longrightarrow> sourced L i s" for i s
    using assms(4,5) by (auto simp: jm_get_set jm_ok_set split: if_splits)
  with new got show ?thesis by blast
qed

lemma settle_inv:
  assumes "sys_inv y" and "\<forall>b. out = Pending b \<longrightarrow> await_ok (set (y_log y)) b"
    and "\<forall>i s. out = Got i (Some s) \<longrightarrow> sourced (set (y_log y)) i s"
    and "jm_ok (ks_cache ks')" and "\<forall>i s. jm_get (ks_cache ks') i = Some s \<longrightarrow> sourced (set (y_log y)) i s"
  shows "sys_inv (settle (out, ks') y)"
  using assms by (cases out) (auto simp: sys_inv_def)

lemma cache_shrinks_inv:
  assumes "sys_inv y" and "jm_ok (ks_cache ks')"
    and "\<And>i s. jm_get (ks_cache ks') i = Some s \<Longrightarrow> jm_get (ks_cache (y_ks y)) i = Some s"
  shows "sys_inv (y\<lparr>y_ks := ks'\<rparr>)"
  using assms by (simp add: sys_inv_def)

lemma wipe_shrinks:
  "jm_ok c \<Longrightarrow> jm_ok (jm_delete i c) \<and> (\<forall>j s. jm_get (jm_delete i c) j = Some s \<longrightarrow> jm_get c j = Some s)"
  by (simp add: jm_ok_delete jm_get_delete)

lemma jm_ok_Nil [simp]: "jm_ok []"
  by (rule jm.ok_empty)

lemma ks_cache_onAppState: "ks_cache (onAppState n ks) = ks_cache ks \<or> ks_cache (onAppState n ks) = []"
  by (simp add: onAppState_cache)

lemma sys_inv_answer:
  assumes inv: "sys_inv y"
  shows "sys_inv (sys_step S (EAnswer n) y)"
proof (cases "n < length (y_wait y)")
  case True
  obtain r st' where p: "perform S (y_wait y ! n) (y_st y) = (r, st')"
    by (cases "perform S (y_wait y ! n) (y_st y)")
  have "await_ok (set (y_log y)) (answered r)"
    using inv True by (simp add: sys_inv_def perform_answered [OF p])
  then show ?thesis
    using inv True set_without_nth [of n "y_wait y"]
    by (auto simp: p sys_inv_def log_ordered_snoc
        intro: await_ok_mono [OF _ subset_insertI] sourced_mono [OF _ subset_insertI])
qed (simp add: inv)

lemma sys_inv_continue:
  assumes inv: "sys_inv y"
  shows "sys_inv (sys_step S (EContinue n) y)"
proof (cases "n < length (y_ready y)")
  case True
  let ?y = "y\<lparr>y_ready := without_nth n (y_ready y)\<rparr>"
  obtain out ks' where r: "resume (y_ready y ! n) (y_ks y) = (out, ks')"
    by (cases "resume (y_ready y ! n) (y_ks y)")
  have "y_ready y ! n \<in> set (y_ready y)" using True by simp
  then have "y_ready y ! n \<in> set (y_log y)" and "await_ok (set (y_log y)) (answered (y_ready y ! n))"
    using inv by (auto simp: sys_inv_def)
  note res = resume_sourced [OF r this]
  have cache: "jm_ok (ks_cache (y_ks y))"
    and src: "\<And>i s. jm_get (ks_cache (y_ks y)) i = Some s \<Longrightarrow> sourced (set (y_log y)) i s"
    using inv by (simp_all add: sys_inv_def)
  have "sys_inv ?y" using inv set_without_nth [of n "y_ready y"] by (auto simp: sys_inv_def)
  then have "sys_inv (settle (out, ks') ?y)"
    by (rule settle_inv) (use res [OF cache src] in simp_all)
  then show ?thesis using True by (simp add: r)
qed (simp add: inv)

lemma sys_inv_step: "sys_inv y \<Longrightarrow> sys_inv (sys_step S ev y)"
proof (cases ev)
  case (EGet i)
  assume inv: "sys_inv y"
  show ?thesis
    using settle_inv [OF inv, of "fst (getWalletSeed i (y_ks y))" "snd (getWalletSeed i (y_ks y))"] inv
    by (simp add: EGet getWalletSeed_def Let_def sys_inv_def split: if_splits)
next
  case (ESet i s)
  assume inv: "sys_inv y"
  show ?thesis
    using settle_inv [OF inv, of "fst (setWalletSeed i s (y_ks y))" "snd (setWalletSeed i s (y_ks y))"] inv
    by (simp add: ESet setWalletSeed_def sys_inv_def)
next
  case (ERemove i)
  assume inv: "sys_inv y"
  show ?thesis
    using settle_inv [OF inv, of "Pending (D_secure i)" "wipeCacheEntry i (y_ks y)"] inv
      wipe_shrinks [of "ks_cache (y_ks y)" i]
    by (simp add: ERemove removeWalletSeed_def wipeCacheEntry_eq sys_inv_def)
next
  case (EDrop i)
  assume inv: "sys_inv y"
  show ?thesis
    using cache_shrinks_inv [OF inv] wipe_shrinks [of "ks_cache (y_ks y)" i] inv
    by (simp add: EDrop dropWallet_def wipeCacheEntry_eq sys_inv_def)
next
  case (EApp n)
  assume inv: "sys_inv y"
  show ?thesis
    using cache_shrinks_inv [OF inv, of "onAppState n (y_ks y)"] ks_cache_onAppState [of n "y_ks y"] inv
    by (auto simp: EApp sys_inv_def)
next
  case (EAnswer n)
  assume inv: "sys_inv y"
  show ?thesis unfolding EAnswer by (rule sys_inv_answer [OF inv])
next
  case (EContinue n)
  assume inv: "sys_inv y"
  show ?thesis unfolding EContinue by (rule sys_inv_continue [OF inv])
qed (simp_all add: sys_inv_def subscribeSessionLock_def unsubscribeSessionLock_def
    installIdleLock_def uninstallIdleLock_def Let_def)

lemma sys_inv_reachable: "reachable S y \<Longrightarrow> sys_inv y"
proof (rule keystore_runs.invariant [where S = S])
  show "sys_inv x" if "\<exists>t st. x = sys_init t st" for x
    using that by (auto simp: sys_inv_def sys_init_def ks_init_def log_ordered_def)
qed (auto intro: sys_inv_step)

text \<open>C9: no seed crosses wallets. In every state that any schedule of calls, answers and locks
  reaches, over any storage, a cached entry for wallet \<open>i\<close>, and a seed that \<open>getWalletSeed\<close>
  resolved with for \<open>i\<close>, is one the storage released for \<open>i\<close>'s key or reported as written
  for it; and the cache holds at most one entry per wallet.\<close>
theorem seeds_sourced:
  assumes "reachable S y"
  shows "jm_ok (ks_cache (y_ks y)) \<and>
    (\<forall>i s. jm_get (ks_cache (y_ks y)) i = Some s \<longrightarrow> sourced (set (y_log y)) i s) \<and>
    (\<forall>i s. Got i (Some s) \<in> set (y_done y) \<longrightarrow> sourced (set (y_log y)) i s)"
  using sys_inv_reachable [OF assms] by (simp add: sys_inv_def)

definition demo_mem :: mem where
  "demo_mem = \<lparr>m_flags = [authFlagKey ''w1'', authFlagKey ''w2''],
     m_secrets = [(secretKeyFor ''w1'', ''SA''), (secretKeyFor ''w2'', ''SB'')], m_enrolled = True\<rparr>"

lemmas demo_simps = demo_mem_def mem_storage_def sys_init_def ks_init_def authFlagKey_def secretKeyFor_def
  AUTH_FLAG_PREFIX_def SECRET_PREFIX_def getWalletSeed_def setWalletSeed_def without_nth_def cache_seed_def
  subscribeSessionLock_def notifyLockChange_def touch_def isUnlocked_def lockNow_eq

theorem seeds_sourced_witness:
  "\<exists>y. reachable mem_storage y \<and> Got ''w1'' (Some ''SA'') \<in> set (y_done y) \<and>
    sourced (set (y_log y)) ''w1'' ''SA''"
proof -
  let ?evs = "[EGet ''w1'', EAnswer 0, EContinue 0, EAnswer 0, EContinue 0]"
  let ?y = "fold (sys_step mem_storage) ?evs (sys_init 0 demo_mem)"
  have r: "reachable mem_storage ?y" by (rule reachable_run [OF reachable.start])
  moreover have "Got ''w1'' (Some ''SA'') \<in> set (y_done ?y)" by (simp add: demo_simps)
  ultimately show ?thesis using seeds_sourced [OF r] by blast
qed

text \<open>C23: the order of storage writes, under every schedule. A plain \<open>secureSet\<close> of a seed only
  happens after the authenticated write of the same seed for the same wallet was answered with
  false; the migration flag is only set after an authenticated write was answered with true;
  and a legacy read only follows a migration flag that was read as false.\<close>
theorem storage_write_order:
  assumes "reachable S y" and "y_log y = xs @ r # ys"
  shows "(\<forall>i s wl b. r = B_plain i s wl b \<longrightarrow> B_auth i s wl (Inr False) \<in> set xs) \<and>
    (\<forall>i s wl b. r = B_mark i s wl b \<longrightarrow> B_auth i s wl (Inr True) \<in> set xs) \<and>
    (\<forall>i s wl b. r = A_mark i wl s b \<longrightarrow> A_migrate i wl s (Inr True) \<in> set xs) \<and>
    (\<forall>i wl b. r = A_legacy i wl b \<longrightarrow> A_flag i wl (Inr False) \<in> set xs)"
proof -
  have "await_ok (set xs) (answered r)"
    using sys_inv_reachable [OF assms(1)] assms(2) by (simp add: sys_inv_def log_ordered_def)
  then show ?thesis by auto
qed

theorem storage_write_order_witness:
  "\<exists>y. reachable mem_storage y \<and> (\<exists>xs. y_log y = xs @ [B_plain ''w3'' ''SC'' True (Inr True)] \<and>
    B_auth ''w3'' ''SC'' True (Inr False) \<in> set xs)"
proof -
  let ?evs = "[ESet ''w3'' ''SC'', EAnswer 0, EContinue 0, EAnswer 0]"
  let ?y = "fold (sys_step mem_storage) ?evs (sys_init 0 (demo_mem\<lparr>m_enrolled := False\<rparr>))"
  have r: "reachable mem_storage ?y" by (rule reachable_run [OF reachable.start])
  have log: "y_log ?y = [B_auth ''w3'' ''SC'' True (Inr False)] @ B_plain ''w3'' ''SC'' True (Inr True) # []"
    by (simp add: demo_simps)
  from storage_write_order [OF r log] r log show ?thesis by (intro exI [of _ ?y]) auto
qed


section \<open>Storing, locking, reading back\<close>

text \<open>
  What the code relies on of the shim: a flag reads as last written, a secret reads as last
  written through either write (the authenticated read only when the user approves the
  prompt), a write reports whether it happened and changes nothing else, and nothing rejects.
\<close>

definition storage_laws ::
  "'st storage \<Rightarrow> ('st \<Rightarrow> string \<Rightarrow> bool) \<Rightarrow> ('st \<Rightarrow> string \<Rightarrow> string option) \<Rightarrow> ('st \<Rightarrow> bool) \<Rightarrow> ('st \<Rightarrow> bool) \<Rightarrow> bool" where
  "storage_laws S flag sec approve enrolled \<longleftrightarrow>
     (\<forall>k st. st_getItem S k st = (Inr (flag st k), st)) \<and>
     (\<forall>k st. st_secureGet S k st = (Inr (sec st k), st)) \<and>
     (\<forall>k st. st_secureGetAuthenticated S k st = (Inr (if approve st then sec st k else None), st)) \<and>
     (\<forall>k st. \<exists>st'. st_setItem S k st = (Inr (), st') \<and> flag st' = (flag st)(k := True) \<and> sec st' = sec st) \<and>
     (\<forall>k v st. \<exists>st'. st_secureSetAuthenticated S k v st = (Inr (enrolled st), st') \<and> flag st' = flag st \<and>
        sec st' = (if enrolled st then (sec st)(k := Some v) else sec st)) \<and>
     (\<forall>k v st. \<exists>ok st'. st_secureSet S k v st = (Inr ok, st') \<and> flag st' = flag st \<and>
        sec st' = (if ok then (sec st)(k := Some v) else sec st))"

lemma secretKeyFor_inj: "secretKeyFor i = secretKeyFor j \<longleftrightarrow> i = j"
  by (simp add: secretKeyFor_def)

text \<open>\<open>getWalletSeed\<close> on a cache miss, composed: which read is used, and the migration.\<close>

lemma drive_get_migrated:
  assumes "storage_laws S flag sec approve enrolled" and "\<not> truthy (jm_get (ks_cache ks) i)"
    and "flag st (authFlagKey i)"
  shows "drive S (fst (getWalletSeed i ks)) (snd (getWalletSeed i ks)) st =
    (let r = (if approve st then sec st (secretKeyFor i) else None)
     in if truthy r then (Got i r, cache_seed i (the r) (ks_cache ks = []) ks, st) else (Got i None, ks, st))"
  using assms by (auto simp: getWalletSeed_def storage_laws_def Let_def)

lemma drive_get_legacy:
  assumes "storage_laws S flag sec approve enrolled" and "\<not> truthy (jm_get (ks_cache ks) i)"
    and "\<not> flag st (authFlagKey i)" and "sec st (secretKeyFor i) = Some s" and "s \<noteq> []"
  shows "\<exists>st'. drive S (fst (getWalletSeed i ks)) (snd (getWalletSeed i ks)) st =
      (Got i (Some s), cache_seed i s (ks_cache ks = []) ks, st') \<and> sec st' = sec st \<and>
      flag st' = (if enrolled st then (flag st)(authFlagKey i := True) else flag st)"
proof -
  obtain st1 where 1: "st_secureSetAuthenticated S (secretKeyFor i) s st = (Inr (enrolled st), st1)"
    "flag st1 = flag st" "sec st1 = (if enrolled st then (sec st)(secretKeyFor i := Some s) else sec st)"
    using assms(1) unfolding storage_laws_def by blast
  obtain st2 where 2: "st_setItem S (authFlagKey i) st1 = (Inr (), st2)"
    "flag st2 = (flag st1)(authFlagKey i := True)" "sec st2 = sec st1"
    using assms(1) unfolding storage_laws_def by blast
  have "sec st1 = sec st" using 1(3) assms(4) by (auto simp: fun_eq_iff)
  with 1 2 assms show ?thesis
    by (auto simp: getWalletSeed_def storage_laws_def Let_def)
qed

text \<open>The soft migration. The first read of a seed stored under the legacy layout returns it;
  if the authenticated rewrite succeeded the wallet is marked, and after a lock every later
  read of it depends on the user's approval of the prompt: the seed with it, null without.\<close>
lemma legacy_read_migrates:
  assumes laws: "storage_laws S flag sec approve enrolled"
    and miss: "\<not> truthy (jm_get (ks_cache ks) i)" and unmarked: "\<not> flag st (authFlagKey i)"
    and stored: "sec st (secretKeyFor i) = Some s" "s \<noteq> []" and "enrolled st"
  shows "\<exists>ks' st'. drive S (fst (getWalletSeed i ks)) (snd (getWalletSeed i ks)) st = (Got i (Some s), ks', st') \<and>
    flag st' (authFlagKey i) \<and>
    fst (drive S (fst (getWalletSeed i (lockNow ks'))) (snd (getWalletSeed i (lockNow ks'))) st') =
      Got i (if approve st' then Some s else None)"
proof -
  obtain st' where d: "drive S (fst (getWalletSeed i ks)) (snd (getWalletSeed i ks)) st =
      (Got i (Some s), cache_seed i s (ks_cache ks = []) ks, st')"
    and st': "sec st' = sec st" "flag st' = (flag st)(authFlagKey i := True)"
    using drive_get_legacy [OF laws miss unmarked stored] \<open>enrolled st\<close> by auto
  let ?l = "lockNow (cache_seed i s (ks_cache ks = []) ks)"
  have "drive S (fst (getWalletSeed i ?l)) (snd (getWalletSeed i ?l)) st' =
    (let r = (if approve st' then sec st' (secretKeyFor i) else None)
     in if truthy r then (Got i r, cache_seed i (the r) (ks_cache ?l = []) ?l, st') else (Got i None, ?l, st'))"
    by (rule drive_get_migrated [OF laws]) (simp_all add: st')
  then show ?thesis using d stored by (auto simp: st' Let_def)
qed

text \<open>Storing round trip. When \<open>setWalletSeed\<close> resolves with true, through the authenticated
  write or through the plain fallback, a read after a lock that the user approves returns the
  seed that was stored.\<close>
lemma set_lock_get:
  assumes laws: "storage_laws S flag sec approve enrolled" and "s \<noteq> []"
    and set: "drive S (fst (setWalletSeed i s ks)) (snd (setWalletSeed i s ks)) st = (SetDone True, ks', st')"
    and "approve st'"
  shows "jm_get (ks_cache ks') i = Some s \<and>
    fst (drive S (fst (getWalletSeed i (lockNow ks'))) (snd (getWalletSeed i (lockNow ks'))) st') = Got i (Some s)"
proof -
  obtain st1 where 1: "st_secureSetAuthenticated S (secretKeyFor i) s st = (Inr (enrolled st), st1)"
    "flag st1 = flag st" "sec st1 = (if enrolled st then (sec st)(secretKeyFor i := Some s) else sec st)"
    using laws unfolding storage_laws_def by blast
  obtain st2 where 2: "st_setItem S (authFlagKey i) st1 = (Inr (), st2)"
    "flag st2 = (flag st1)(authFlagKey i := True)" "sec st2 = sec st1"
    using laws unfolding storage_laws_def by blast
  obtain ok st3 where 3: "st_secureSet S (secretKeyFor i) s st1 = (Inr ok, st3)"
    "flag st3 = flag st1" "sec st3 = (if ok then (sec st1)(secretKeyFor i := Some s) else sec st1)"
    using laws unfolding storage_laws_def by blast
  have cache: "jm_get (ks_cache ks') i = Some s" and stored: "sec st' (secretKeyFor i) = Some s"
    using set 1 2 3 by (auto simp: setWalletSeed_def Let_def jm_get_set split: if_splits)
  have miss: "\<not> truthy (jm_get (ks_cache (lockNow ks')) i)" by simp
  have "fst (drive S (fst (getWalletSeed i (lockNow ks'))) (snd (getWalletSeed i (lockNow ks'))) st') = Got i (Some s)"
  proof (cases "flag st' (authFlagKey i)")
    case True
    show ?thesis
      using drive_get_migrated [OF laws miss, where st = st'] True stored assms(2,4) by (simp add: Let_def)
  next
    case False
    show ?thesis
      using drive_get_legacy [OF laws miss False stored assms(2)] by auto
  qed
  with cache show ?thesis by simp
qed

lemma mem_storage_laws:
  "storage_laws mem_storage (\<lambda>m k. k \<in> set (m_flags m)) (\<lambda>m. jm_get (m_secrets m)) m_enrolled m_enrolled"
  by (auto simp: storage_laws_def mem_storage_def fun_eq_iff jm_get_set)

lemma legacy_read_migrates_witness:
  "\<exists>ks' st'. drive mem_storage (fst (getWalletSeed ''w1'' (ks_init 0))) (snd (getWalletSeed ''w1'' (ks_init 0)))
      (demo_mem\<lparr>m_flags := []\<rparr>) = (Got ''w1'' (Some ''SA''), ks', st') \<and> m_flags st' = [authFlagKey ''w1'']"
proof -
  let ?m = "demo_mem\<lparr>m_flags := []\<rparr>"
  have "\<exists>ks' st'. drive mem_storage (fst (getWalletSeed ''w1'' (ks_init 0))) (snd (getWalletSeed ''w1'' (ks_init 0))) ?m =
      (Got ''w1'' (Some ''SA''), ks', st') \<and> authFlagKey ''w1'' \<in> set (m_flags st')"
    using legacy_read_migrates [OF mem_storage_laws, of "ks_init 0" "''w1''" ?m "''SA''"]
    by (auto simp: demo_mem_def ks_init_def)
  then show ?thesis by (auto simp: demo_simps)
qed

lemma set_lock_get_witness:
  "\<exists>ks' st'. drive mem_storage (fst (setWalletSeed ''w3'' ''SC'' (ks_init 0))) (snd (setWalletSeed ''w3'' ''SC'' (ks_init 0)))
      demo_mem = (SetDone True, ks', st') \<and> jm_get (ks_cache ks') ''w3'' = Some ''SC''"
proof -
  let ?r = "drive mem_storage (fst (setWalletSeed ''w3'' ''SC'' (ks_init 0))) (snd (setWalletSeed ''w3'' ''SC'' (ks_init 0))) demo_mem"
  have "\<exists>ks' st'. ?r = (SetDone True, ks', st') \<and> m_enrolled st'"
    by (simp add: demo_simps)
  then obtain ks' st' where d: "?r = (SetDone True, ks', st')" and a: "m_enrolled st'" by blast
  have "''SC'' \<noteq> []" by simp
  from set_lock_get [OF mem_storage_laws this d a] d show ?thesis by (intro exI conjI) auto
qed

text \<open>The fallback of \<open>setWalletSeed\<close> does not clear the migration mark. If a wallet that was
  migrated before is stored again while the authenticated write is refused, the plain write is
  used but the mark stays, so the next read goes to the authenticated read and not, as the
  comment of the fallback promises, through the lazy migration.\<close>
lemma fallback_keeps_mark:
  assumes laws: "storage_laws S flag sec approve enrolled" and "\<not> enrolled st" and "flag st (authFlagKey i)"
    and set: "drive S (fst (setWalletSeed i s ks)) (snd (setWalletSeed i s ks)) st = (SetDone True, ks', st')"
  shows "flag st' (authFlagKey i) \<and> sec st' (secretKeyFor i) = Some s \<and>
    perform S (W_flag i True) st' = (A_flag i True (Inr True), st') \<and>
    fst (resume (A_flag i True (Inr True)) (lockNow ks')) = Pending (W_auth i True)"
proof -
  obtain st1 where "st_secureSetAuthenticated S (secretKeyFor i) s st = (Inr (enrolled st), st1)"
    "flag st1 = flag st" "sec st1 = (if enrolled st then (sec st)(secretKeyFor i := Some s) else sec st)"
    using laws unfolding storage_laws_def by blast
  with assms(2) have 1: "st_secureSetAuthenticated S (secretKeyFor i) s st = (Inr False, st1)"
    "flag st1 = flag st" "sec st1 = sec st" by simp_all
  obtain ok st3 where 3: "st_secureSet S (secretKeyFor i) s st1 = (Inr ok, st3)"
    "flag st3 = flag st1" "sec st3 = (if ok then (sec st1)(secretKeyFor i := Some s) else sec st1)"
    using laws unfolding storage_laws_def by blast
  have "flag st' = flag st" and "sec st' (secretKeyFor i) = Some s"
    using set 1 3 by (auto simp: setWalletSeed_def Let_def split: if_splits)
  then show ?thesis using laws assms(3) by (simp add: storage_laws_def)
qed

lemma fallback_keeps_mark_witness:
  "\<exists>ks' st'. drive mem_storage (fst (setWalletSeed ''w1'' ''SC'' (ks_init 0))) (snd (setWalletSeed ''w1'' ''SC'' (ks_init 0)))
      (demo_mem\<lparr>m_enrolled := False\<rparr>) = (SetDone True, ks', st') \<and> authFlagKey ''w1'' \<in> set (m_flags st')"
proof -
  let ?m = "demo_mem\<lparr>m_enrolled := False\<rparr>"
  let ?r = "drive mem_storage (fst (setWalletSeed ''w1'' ''SC'' (ks_init 0))) (snd (setWalletSeed ''w1'' ''SC'' (ks_init 0))) ?m"
  have "\<exists>ks' st'. ?r = (SetDone True, ks', st')" by (simp add: demo_simps)
  then obtain ks' st' where d: "?r = (SetDone True, ks', st')" by blast
  have "\<not> m_enrolled ?m" and "authFlagKey ''w1'' \<in> set (m_flags ?m)" by (simp_all add: demo_mem_def)
  from fallback_keeps_mark [OF mem_storage_laws this d] d show ?thesis by (intro exI conjI) auto
qed

end
