(* ===== verification/Xlm_Vault.thy ===== *)
theory Xlm_Vault imports Prelude begin

text \<open>
  \<^verbatim>\<open>contracts/xlm_vault/src/lib.rs\<close>: the error codes of the deployed contract, which the client
  decodes.
\<close>

datatype contract_error =
    NotOwner | StillLocked | AlreadyWithdrawn | ShortenForbidden
  | VaultNotFound | InvalidAmount | InvalidTimestamp | AlreadyInitialised

definition error_code :: "contract_error \<Rightarrow> nat" where
  "error_code e = (case e of NotOwner \<Rightarrow> 1 | StillLocked \<Rightarrow> 2 | AlreadyWithdrawn \<Rightarrow> 3 | ShortenForbidden \<Rightarrow> 4
     | VaultNotFound \<Rightarrow> 5 | InvalidAmount \<Rightarrow> 6 | InvalidTimestamp \<Rightarrow> 7 | AlreadyInitialised \<Rightarrow> 8)"

text \<open>The order that \<^verbatim>\<open>#[derive(PartialOrd, Ord)]\<close> gives the errors: that of their codes.\<close>

lemma error_code_inj: "error_code e = error_code f \<longleftrightarrow> e = f"
  by (cases e; cases f) (simp_all add: error_code_def)

instantiation contract_error :: linorder
begin

definition less_eq_contract_error :: "contract_error \<Rightarrow> contract_error \<Rightarrow> bool" where
  "less_eq_contract_error e f \<longleftrightarrow> error_code e \<le> error_code f"

definition less_contract_error :: "contract_error \<Rightarrow> contract_error \<Rightarrow> bool" where
  "less_contract_error e f \<longleftrightarrow> error_code e < error_code f"

instance
  by standard (auto simp: less_eq_contract_error_def less_contract_error_def error_code_inj)

end

end
