(* ===== verification/Soroban_Errors.thy ===== *)
theory Soroban_Errors imports Prelude Xlm_Vault begin

text \<open>
  \<^verbatim>\<open>src/api/soroban-errors.ts\<close>: the classes of errors of the on-chain pipeline, the decoding of
  a failed simulation into a message for the user, and the coercion of any thrown value. A
  string is its UTF-8 bytes; the matching of error texts is on ASCII.
\<close>

section \<open>The error classes\<close>

datatype phase = PBuild | PSimulate | PAssemble | PSign | PSend | PPoll

definition phase_name :: "phase \<Rightarrow> string" where
  "phase_name p = (case p of PBuild \<Rightarrow> ''build'' | PSimulate \<Rightarrow> ''simulate'' | PAssemble \<Rightarrow> ''assemble''
     | PSign \<Rightarrow> ''sign'' | PSend \<Rightarrow> ''send'' | PPoll \<Rightarrow> ''poll'')"

text \<open>The \<^verbatim>\<open>name\<close> of an error is the class that was constructed.\<close>

datatype error_class = Base | WalletNotConnected | Network | Simulation | Sign | Send | OnChain | PollTimeout

text \<open>A thrown value: a \<^verbatim>\<open>SorobanError\<close>, another \<^verbatim>\<open>Error\<close> with its message, or any other value with
  what \<^verbatim>\<open>String(v)\<close> gives.\<close>

datatype soroban_error = SErr
    (se_class: error_class) (se_phase: phase) (se_method: string) (se_message: string)
    (se_userMessage: string) (se_retryable: bool) (se_txHash: "string option") (se_cause: "thrown option")
  and thrown = Soroban soroban_error | JsError string | JsValue string

text \<open>\<^verbatim>\<open>e instanceof Error ? e.message : String(e)\<close>\<close>

definition err_text :: "thrown \<Rightarrow> string" where
  "err_text e = (case e of Soroban s \<Rightarrow> se_message s | JsError m \<Rightarrow> m | JsValue s \<Rightarrow> s)"

definition em_dash :: string where
  "em_dash = [CHR 0xE2, CHR 0x80, CHR 0x94]"

definition walletNotConnectedError :: "string \<Rightarrow> soroban_error" where
  "walletNotConnectedError m = SErr WalletNotConnected PSign m
     (''Wallet not connected '' @ em_dash @ '' cannot sign Soroban transaction.'')
     ''Reconnect your wallet to sign on-chain transactions.'' False None None"

definition networkError :: "string \<Rightarrow> phase \<Rightarrow> thrown \<Rightarrow> soroban_error" where
  "networkError m p cause = SErr Network p m
     (''Network error during '' @ phase_name p @ '': '' @ err_text cause)
     ''Couldn't reach the Stellar RPC. Check your connection and retry.'' True None (Some cause)"

section \<open>Decoding a simulation error\<close>

text \<open>The regular expression \<^verbatim>\<open>/Error\(Contract,\s*#(\d+)\)/\<close>, leftmost match, its captured digits.\<close>

definition is_space :: "char \<Rightarrow> bool" where
  "is_space c \<longleftrightarrow> of_char c \<in> {9, 10, 11, 12, 13, 32 :: nat}"

definition is_digit :: "char \<Rightarrow> bool" where
  "is_digit c \<longleftrightarrow> 48 \<le> (of_char c :: nat) \<and> of_char c \<le> (57 :: nat)"

definition contract_open :: string where
  "contract_open = ''Error(Contract,''"

definition match_code_here :: "string \<Rightarrow> string option" where
  "match_code_here s =
     (if prefix contract_open s then
        (case dropWhile is_space (drop (length contract_open) s) of
           c # t \<Rightarrow>
             if c = CHR ''#'' then
               (let ds = takeWhile is_digit t; rest = dropWhile is_digit t
                in if ds \<noteq> [] \<and> rest \<noteq> [] \<and> hd rest = CHR '')'' then Some ds else None)
             else None
         | [] \<Rightarrow> None)
      else None)"

fun match_code :: "string \<Rightarrow> string option" where
  "match_code [] = None"
| "match_code (c # s) = (case match_code_here (c # s) of Some ds \<Rightarrow> Some ds | None \<Rightarrow> match_code s)"

definition digits_value :: "string \<Rightarrow> nat" where
  "digits_value ds = foldl (\<lambda>n c. 10 * n + (of_char c - 48)) 0 ds"

definition lower_char :: "char \<Rightarrow> char" where
  "lower_char c = (if 65 \<le> (of_char c :: nat) \<and> of_char c \<le> (90 :: nat) then char_of (of_char c + 32 :: nat) else c)"

definition to_lower :: "string \<Rightarrow> string" where
  "to_lower s = map lower_char s"

text \<open>The \<^verbatim>\<open>switch (code)\<close>; a code outside it falls through to the text arm.\<close>

definition code_message :: "nat \<Rightarrow> string option" where
  "code_message code =
     (if code = 1 then Some ''Only the vault owner can perform this action.''
      else if code = 2 then Some ''This vault is still locked. You can withdraw after the unlock date.''
      else if code = 3 then Some ''This vault has already been withdrawn.''
      else if code = 4 then Some ''Locks can only be extended further out, not shortened.''
      else if code = 5 then Some ''Vault not found on-chain. It may have been created on a different network.''
      else if code = 6 then Some ''Invalid amount. Deposits must be positive XLM values.''
      else if code = 7 then Some ''Invalid unlock timestamp. The unlock must be in the future.''
      else if code = 8 then Some ''The contract is already initialised.''
      else None)"

definition text_message :: "string \<Rightarrow> string option" where
  "text_message lower =
     (if str_includes lower ''unauthorized'' \<or> str_includes lower ''not owner'' \<or> str_includes lower ''notowner''
      then Some ''Only the vault owner can perform this action.''
      else if str_includes lower ''still locked'' \<or> str_includes lower ''not unlocked'' \<or> str_includes lower ''stilllocked''
      then Some ''This vault is still locked. You can withdraw after the unlock date.''
      else if str_includes lower ''already withdrawn'' \<or> str_includes lower ''alreadywithdrawn''
      then Some ''This vault has already been withdrawn.''
      else if str_includes lower ''cannot shorten'' \<or> str_includes lower ''must extend'' \<or> str_includes lower ''shortenforbidden''
      then Some ''Locks can only be extended further out, not shortened.''
      else if str_includes lower ''insufficient''
      then Some ''Your wallet does not have enough XLM for this transaction.''
      else if str_includes lower ''not found'' \<or> str_includes lower ''vaultnotfound''
      then Some ''Account or vault not found on Stellar. Fund your account via friendbot first.''
      else None)"

definition method_message :: "string \<Rightarrow> string" where
  "method_message m =
     (if m = ''create_vault'' then ''Could not create vault on-chain. Double-check the inputs and your XLM balance.''
      else if m = ''deposit'' then ''Deposit rejected by the contract. Verify the amount and your wallet balance.''
      else if m = ''extend_lock'' then ''Extension rejected by the contract. The new unlock must be in the future.''
      else if m = ''withdraw'' then ''Withdrawal rejected by the contract. The vault may still be locked.''
      else ''Soroban preflight rejected this '' @ m @ '' call.'')"

definition humanizeSimulationError :: "string \<Rightarrow> string \<Rightarrow> string" where
  "humanizeSimulationError m raw =
     (let lower = to_lower raw
      in case (case match_code raw of Some ds \<Rightarrow> code_message (digits_value ds) | None \<Rightarrow> None) of
           Some msg \<Rightarrow> msg
         | None \<Rightarrow> (case text_message lower of Some msg \<Rightarrow> msg | None \<Rightarrow> method_message m))"

definition onchainFailureMessage :: "string \<Rightarrow> string" where
  "onchainFailureMessage m =
     (if m = ''create_vault'' then ''The contract reverted while creating the vault. No XLM was moved.''
      else if m = ''deposit'' then ''The contract reverted on deposit. Your XLM is still in your wallet.''
      else if m = ''extend_lock'' then ''The contract reverted on extend. The lock was not changed.''
      else if m = ''withdraw'' then ''The contract reverted on withdraw. Funds remain in the vault.''
      else ''The contract reverted during execution.'')"

section \<open>The other classes\<close>

definition simulationError :: "string \<Rightarrow> string \<Rightarrow> soroban_error" where
  "simulationError m simError = SErr Simulation PSimulate m
     (''Soroban preflight failed ('' @ m @ ''): '' @ simError) (humanizeSimulationError m simError) False None None"

definition signError :: "string \<Rightarrow> thrown \<Rightarrow> soroban_error" where
  "signError m cause = SErr Sign PSign m (''Signing failed for '' @ m @ '': '' @ err_text cause)
     ''We couldn't sign this transaction with your wallet seed. Try reconnecting.'' False None (Some cause)"

definition sendError :: "string \<Rightarrow> string \<Rightarrow> string option \<Rightarrow> soroban_error" where
  "sendError m status txHash = SErr Send PSend m (''sendTransaction ('' @ m @ '') returned '' @ status)
     (if status = ''DUPLICATE''
      then ''This transaction was already submitted. Pull-to-refresh to see the result.''
      else ''The Stellar network rejected this transaction. Please retry.'')
     (status \<noteq> ''DUPLICATE'') txHash None"

definition onChainError :: "string \<Rightarrow> string \<Rightarrow> soroban_error" where
  "onChainError m txHash = SErr OnChain PPoll m
     (''Soroban tx '' @ m @ '' failed on-chain (hash='' @ txHash @ '').'')
     (onchainFailureMessage m) False (Some txHash) None"

definition pollTimeoutError :: "string \<Rightarrow> string \<Rightarrow> soroban_error" where
  "pollTimeoutError m txHash = SErr PollTimeout PPoll m
     (''Timed out polling getTransaction for '' @ m @ '' (hash='' @ txHash @ '').'')
     (''Your transaction is taking longer than expected. It may still confirm '' @ em_dash @ '' check the explorer link.'')
     False (Some txHash) None"

definition asSorobanError :: "string \<Rightarrow> thrown \<Rightarrow> soroban_error" where
  "asSorobanError m e =
     (case e of
        Soroban s \<Rightarrow> s
      | JsError msg \<Rightarrow> SErr Base PBuild m msg (if msg \<noteq> [] then msg else ''An unexpected error occurred.'') False None (Some e)
      | JsValue v \<Rightarrow> SErr Base PBuild m v ''An unexpected error occurred.'' False None (Some e))"

lemmas error_defs = walletNotConnectedError_def networkError_def simulationError_def signError_def
  sendError_def onChainError_def pollTimeoutError_def

section \<open>Correctness of the decoding\<close>

text \<open>What the pattern describes: the opening, any white space, a number sign, digits, a parenthesis.\<close>

definition code_text :: "string \<Rightarrow> string \<Rightarrow> string" where
  "code_text ws ds = contract_open @ ws @ ''#'' @ ds @ '')''"

lemma match_code_here_text:
  assumes "list_all is_space ws" and "list_all is_digit ds" and "ds \<noteq> []"
  shows "match_code_here (code_text ws ds @ post) = Some ds"
proof -
  have d: "dropWhile is_space (ws @ CHR ''#'' # x) = CHR ''#'' # x" for x
    using assms(1) by (induction ws) (simp_all add: is_space_def)
  have t: "takeWhile is_digit (ds @ CHR '')'' # x) = ds" "dropWhile is_digit (ds @ CHR '')'' # x) = CHR '')'' # x" for x
    using assms(2) by (induction ds) (auto simp: is_digit_def)
  have "drop (length contract_open) (contract_open @ ws @ CHR ''#'' # ds @ CHR '')'' # post) = ws @ CHR ''#'' # ds @ CHR '')'' # post"
    by simp
  moreover have "\<not> is_digit (CHR '')'')" by (simp add: is_digit_def)
  ultimately show ?thesis using assms(3) by (simp add: match_code_here_def code_text_def d t Let_def del: drop_append)
qed

lemma match_code_here_sound:
  assumes "match_code_here s = Some ds"
  shows "\<exists>ws post. s = code_text ws ds @ post \<and> list_all is_space ws \<and> list_all is_digit ds \<and> ds \<noteq> []"
proof -
  let ?u = "drop (length contract_open) s"
  obtain t where p: "prefix contract_open s" and u: "dropWhile is_space ?u = CHR ''#'' # t"
    and ds: "ds = takeWhile is_digit t" "ds \<noteq> []" and r: "dropWhile is_digit t \<noteq> []" "hd (dropWhile is_digit t) = CHR '')''"
    using assms by (auto simp: match_code_here_def Let_def split: if_splits list.splits)
  obtain post where post: "dropWhile is_digit t = CHR '')'' # post"
    using r by (cases "dropWhile is_digit t") auto
  have "s = contract_open @ ?u" using p by (auto simp: prefix_def)
  also have "?u = takeWhile is_space ?u @ CHR ''#'' # t"
    using takeWhile_dropWhile_id [of is_space ?u] u by simp
  also have "t = ds @ CHR '')'' # post"
    using takeWhile_dropWhile_id [of is_digit t] post ds by simp
  finally have "s = code_text (takeWhile is_space ?u) ds @ post"
    by (simp add: code_text_def)
  moreover have "list_all is_space (takeWhile is_space ?u)" "list_all is_digit ds"
    by (auto simp: ds list_all_iff dest: set_takeWhileD)
  ultimately show ?thesis using ds by blast
qed

text \<open>Leftmost: text before the match in which the opening does not occur is skipped.\<close>

lemma match_code_skip:
  assumes "\<And>a b. pre = a @ b \<Longrightarrow> b \<noteq> [] \<Longrightarrow> \<not> prefix contract_open (b @ rest)"
  shows "match_code (pre @ rest) = match_code rest"
  using assms
proof (induction pre)
  case Nil
  then show ?case by simp
next
  case (Cons c pre)
  have "\<not> prefix contract_open ((c # pre) @ rest)" using Cons.prems [of "[]" "c # pre"] by simp
  then have "match_code_here (c # pre @ rest) = None" by (simp add: match_code_here_def)
  moreover have "match_code (pre @ rest) = match_code rest"
    by (rule Cons.IH) (metis Cons.prems append_Cons)
  ultimately show ?case by simp
qed

lemma match_code_text:
  assumes "list_all is_space ws" and "list_all is_digit ds" and "ds \<noteq> []"
    and "\<And>a b. pre = a @ b \<Longrightarrow> b \<noteq> [] \<Longrightarrow> \<not> prefix contract_open (b @ code_text ws ds @ post)"
  shows "match_code (pre @ code_text ws ds @ post) = Some ds"
proof -
  have "match_code (code_text ws ds @ post) = Some ds"
    using match_code_here_text [OF assms(1-3), of post]
    by (cases "code_text ws ds @ post") (auto simp: code_text_def contract_open_def)
  then show ?thesis using match_code_skip [of pre "code_text ws ds @ post"] assms(4) by simp
qed

text \<open>What each error of the contract is to tell the user.\<close>

fun error_message :: "contract_error \<Rightarrow> string" where
  "error_message NotOwner = ''Only the vault owner can perform this action.''"
| "error_message StillLocked = ''This vault is still locked. You can withdraw after the unlock date.''"
| "error_message AlreadyWithdrawn = ''This vault has already been withdrawn.''"
| "error_message ShortenForbidden = ''Locks can only be extended further out, not shortened.''"
| "error_message VaultNotFound = ''Vault not found on-chain. It may have been created on a different network.''"
| "error_message InvalidAmount = ''Invalid amount. Deposits must be positive XLM values.''"
| "error_message InvalidTimestamp = ''Invalid unlock timestamp. The unlock must be in the future.''"
| "error_message AlreadyInitialised = ''The contract is already initialised.''"

lemma error_message_inj: "error_message e = error_message e' \<longleftrightarrow> e = e'"
  by (cases e; cases e') simp_all

lemma code_message_error: "code_message (error_code e) = Some (error_message e)"
  by (cases e) (simp_all add: code_message_def error_code_def)

text \<open>For each of the contract's eight error codes, a simulation error that carries it as
  \<^verbatim>\<open>Error(Contract, #N)\<close> (any white space, leading zeros, any text around it, as long as the
  opening does not occur earlier) is shown with that error's own message, whatever the method
  and whatever else the text says; different errors have different messages.\<close>
lemma simulation_error_decoded:
  assumes "list_all is_space ws" and "list_all is_digit ds" and "ds \<noteq> []"
    and "digits_value ds = error_code e"
    and "\<And>a b. pre = a @ b \<Longrightarrow> b \<noteq> [] \<Longrightarrow> \<not> prefix contract_open (b @ code_text ws ds @ post)"
  shows "humanizeSimulationError m (pre @ code_text ws ds @ post) = error_message e \<and>
    (error_message e = error_message e' \<longleftrightarrow> e = e')"
  using match_code_text [OF assms(1-3,5)]
  by (simp add: humanizeSimulationError_def assms(4) code_message_error error_message_inj)

lemma simulation_error_decoded_witness:
  "humanizeSimulationError ''withdraw'' ''HostError: Error(Contract, #2) insufficient'' =
    ''This vault is still locked. You can withdraw after the unlock date.''"
proof -
  have split: "''HostError: Error(Contract, #2) insufficient'' =
      ''HostError: '' @ code_text '' '' ''2'' @ '' insufficient''"
    by (simp add: code_text_def contract_open_def)
  have pre: "\<not> prefix contract_open (b @ code_text '' '' ''2'' @ '' insufficient'')"
    if "''HostError: '' = a @ b" and "b \<noteq> []" for a b
  proof -
    have b: "b = drop (length a) ''HostError: ''" using that(1) by simp
    have "length a < 11" using that by (cases b) (auto dest: arg_cong [where f = length])
    moreover have "n \<in> {0, 1, 2, 3, 4, 5, 6, 7, 8, 9, 10}" if "n < 11" for n :: nat
      using that by (simp, presburger)
    ultimately have "length a \<in> {0, 1, 2, 3, 4, 5, 6, 7, 8, 9, 10}" by blast
    then show ?thesis
      by (elim insertE emptyE) (simp_all only: b, simp_all add: contract_open_def code_text_def)
  qed
  have "digits_value ''2'' = error_code StillLocked" by (simp add: digits_value_def error_code_def)
  from simulation_error_decoded [of "'' ''" "''2''" StillLocked "''HostError: ''" "'' insufficient''" "''withdraw''", OF _ _ _ this pre]
  show ?thesis by (simp add: split is_space_def is_digit_def)
qed

text \<open>The leftmost match is a match: a decoded code really stands in the text.\<close>

lemma match_code_sound:
  "match_code s = Some ds \<Longrightarrow> \<exists>pre ws post. s = pre @ code_text ws ds @ post \<and> list_all is_space ws \<and> list_all is_digit ds \<and> ds \<noteq> []"
proof (induction s)
  case Nil
  then show ?case by simp
next
  case (Cons c s)
  show ?case
  proof (cases "match_code_here (c # s)")
    case None
    with Cons obtain pre ws post where "s = pre @ code_text ws ds @ post" "list_all is_space ws" "list_all is_digit ds" "ds \<noteq> []"
      by auto
    then have "c # s = (c # pre) @ code_text ws ds @ post" by simp
    then show ?thesis using \<open>list_all is_space ws\<close> \<open>list_all is_digit ds\<close> \<open>ds \<noteq> []\<close> by blast
  next
    case (Some d)
    with Cons.prems have "match_code_here (c # s) = Some ds" by simp
    from match_code_here_sound [OF this] show ?thesis by (metis append_Nil)
  qed
qed

end

