(* ===== verification/JS_Number.thy ===== *)
theory JS_Number imports Complex_Main "HOL-Library.Log_Nat" begin

text \<open>
  The language's number type on the finite values the code computes with. A \<open>number\<close> is a
  rational; every operation rounds its exact result to 53 significant bits, ties to even, as the
  language's arithmetic does in the normal range (the code's quantities lie between 1e-7 and the
  largest 128-bit integer, far from overflow and from the subnormal numbers). \<open>None\<close> of
  \<open>number option\<close> is a value that is not finite.
\<close>

type_synonym number = rat

section \<open>Rounding\<close>

text \<open>The exponent of the leading bit of a positive rational.\<close>

definition lead_exp :: "rat \<Rightarrow> int" where
  "lead_exp x = (let (p, q) = quotient_of x; e = bitlen p - bitlen q
     in if 2 powi e \<le> x then e else e - 1)"

definition round_even :: "rat \<Rightarrow> int" where
  "round_even x = (let f = \<lfloor>x\<rfloor>; d = x - of_int f
     in if d < 1 / 2 then f else if 1 / 2 < d then f + 1 else if even f then f else f + 1)"

definition rnd :: "rat \<Rightarrow> number" where
  "rnd x = (if x = 0 then 0 else
     let u = 2 powi (lead_exp \<bar>x\<bar> - 52) in of_int (round_even (x / u)) * u)"

definition js_add :: "number \<Rightarrow> number \<Rightarrow> number" where
  "js_add x y = rnd (x + y)"

definition js_mul :: "number \<Rightarrow> number \<Rightarrow> number" where
  "js_mul x y = rnd (x * y)"

definition js_div :: "number \<Rightarrow> number \<Rightarrow> number" where
  "js_div x y = rnd (x / y)"

text \<open>\<^verbatim>\<open>Number(n)\<close> of a \<^verbatim>\<open>bigint\<close>, \<^verbatim>\<open>Math.round\<close> and \<^verbatim>\<open>Math.floor\<close>.\<close>

definition js_of_int :: "int \<Rightarrow> number" where
  "js_of_int n = rnd (of_int n)"

definition js_round :: "number \<Rightarrow> int" where
  "js_round x = \<lfloor>x + 1 / 2\<rfloor>"

definition js_floor :: "number \<Rightarrow> int" where
  "js_floor x = \<lfloor>x\<rfloor>"

section \<open>Accuracy of the rounding\<close>

lemma of_int_leI: "m \<le> n \<Longrightarrow> (of_int m :: rat) \<le> of_int n"
  by simp

lemma of_int_lessI: "m < n \<Longrightarrow> (of_int m :: rat) < of_int n"
  by simp

lemma powi_nat: "0 \<le> k \<Longrightarrow> (2 :: rat) powi k = 2 ^ nat k"
  by (simp add: power_int_def)

lemma powi_less_cancel: "(2 :: rat) powi a < 2 powi b \<Longrightarrow> a < b"
  by (metis not_less power_int_increasing one_le_numeral)

lemma bitlen_rat_bounds:
  assumes "0 < n"
  shows "(2 :: rat) powi (bitlen n - 1) \<le> of_int n" and "of_int n < (2 :: rat) powi bitlen n"
proof -
  have b: "1 \<le> bitlen n" using assms bitlen_eq_zero_iff [of n] bitlen_nonneg [of n] by linarith
  note nb = bitlen_bounds [OF assms]
  have "(of_int (2 ^ nat (bitlen n - 1)) :: rat) \<le> of_int n" using nb by (intro of_int_leI) simp
  then show "(2 :: rat) powi (bitlen n - 1) \<le> of_int n" using b by (simp add: powi_nat)
  have "(of_int n :: rat) < of_int (2 ^ nat (bitlen n))" using nb by (intro of_int_lessI) simp
  then show "of_int n < (2 :: rat) powi bitlen n" using b by (simp add: powi_nat)
qed

lemma quotient_bounds:
  assumes "0 < x" and "quotient_of x = (p, q)"
  shows "2 powi (bitlen p - bitlen q - 1) < x" and "x < 2 powi (bitlen p - bitlen q + 1)"
proof -
  have q: "0 < q" using assms(2) by (rule quotient_of_denom_pos)
  have x: "x = of_int p / of_int q" using assms(2) by (rule quotient_of_div)
  then have p: "0 < p" using assms(1) q by (simp add: zero_less_divide_iff)
  note P = bitlen_rat_bounds [OF p] and Q = bitlen_rat_bounds [OF q]
  have "(2::rat) powi (bitlen p - 1 - bitlen q) = 2 powi (bitlen p - 1) / 2 powi bitlen q"
    by (simp add: power_int_diff)
  also have "\<dots> < of_int p / of_int q"
    using P Q p q by (intro frac_less2) auto
  finally show "2 powi (bitlen p - bitlen q - 1) < x" by (simp add: x algebra_simps)
  have "of_int p / of_int q < (2::rat) powi bitlen p / 2 powi (bitlen q - 1)"
    using P Q p q by (intro frac_less) auto
  also have "\<dots> = 2 powi (bitlen p - bitlen q + 1)"
    by (simp flip: power_int_diff add: algebra_simps)
  finally show "x < 2 powi (bitlen p - bitlen q + 1)" by (simp add: x)
qed

lemma lead_exp_bounds:
  assumes "0 < x"
  shows "2 powi lead_exp x \<le> x" and "x < 2 powi (lead_exp x + 1)"
proof -
  obtain p q where pq: "quotient_of x = (p, q)" by (cases "quotient_of x")
  show "2 powi lead_exp x \<le> x" and "x < 2 powi (lead_exp x + 1)"
    using quotient_bounds [OF assms pq] by (auto simp: lead_exp_def pq Let_def)
qed

lemma lead_exp_ge:
  assumes "(2::rat) powi k \<le> x"
  shows "k \<le> lead_exp x"
proof -
  have "0 < x" using assms by (rule less_le_trans [rotated]) simp
  with assms have "(2::rat) powi k < 2 powi (lead_exp x + 1)" using lead_exp_bounds(2) by (blast intro: le_less_trans)
  then show ?thesis using powi_less_cancel by force
qed

lemma lead_exp_less:
  assumes "0 < x" and "x < (2::rat) powi k"
  shows "lead_exp x < k"
proof -
  have "(2::rat) powi lead_exp x < 2 powi k" using assms lead_exp_bounds(1) by (blast intro: le_less_trans)
  then show ?thesis by (rule powi_less_cancel)
qed

lemma round_even_error: "\<bar>of_int (round_even x) - x\<bar> \<le> 1 / 2"
proof -
  have "of_int \<lfloor>x\<rfloor> \<le> x" "x < of_int \<lfloor>x\<rfloor> + 1" by linarith+
  then show ?thesis by (auto simp: round_even_def Let_def abs_le_iff)
qed

lemma round_even_of_int [simp]: "round_even (of_int n) = n"
  by (simp add: round_even_def)

lemma round_even_ge: "of_int n \<le> x \<Longrightarrow> n \<le> round_even x"
  using le_floor_iff [of n x] by (auto simp: round_even_def Let_def)

lemma rnd_0 [simp]: "rnd 0 = 0"
  by (simp add: rnd_def)

text \<open>The relative error is at most half a unit in the last of 53 places.\<close>

lemma rnd_error: "\<bar>rnd x - x\<bar> \<le> \<bar>x\<bar> / 2 ^ 53"
proof (cases "x = 0")
  case False
  define u :: rat where "u = 2 powi (lead_exp \<bar>x\<bar> - 52)"
  have u: "0 < u" by (simp add: u_def)
  have "rnd x - x = (of_int (round_even (x / u)) - x / u) * u"
    using False u by (simp add: rnd_def u_def [symmetric] field_simps)
  then have "\<bar>rnd x - x\<bar> \<le> 1 / 2 * u"
    using round_even_error [of "x / u"] u by (simp add: abs_mult mult_right_mono)
  moreover have "u = 2 powi lead_exp \<bar>x\<bar> / 2 ^ 52"
    by (simp add: u_def power_int_diff)
  moreover have "(2::rat) powi lead_exp \<bar>x\<bar> \<le> \<bar>x\<bar>"
    using False lead_exp_bounds(1) [of "\<bar>x\<bar>"] by simp
  ultimately show ?thesis by (simp add: field_simps)
qed simp

lemma rnd_close: "\<bar>rnd x - x\<bar> * 9007199254740992 \<le> \<bar>x\<bar>"
  using rnd_error [of x] by (simp add: field_simps)

text \<open>Halving is exact.\<close>

lemma lead_exp_half:
  assumes "0 < x"
  shows "lead_exp (x / 2) = lead_exp x - 1"
proof (rule antisym)
  have "x / 2 < 2 powi lead_exp x" using lead_exp_bounds(2) [OF assms] by (simp add: power_int_add)
  then have "lead_exp (x / 2) < lead_exp x" using assms by (intro lead_exp_less) auto
  then show "lead_exp (x / 2) \<le> lead_exp x - 1" by simp
  have "2 powi (lead_exp x - 1) \<le> x / 2" using lead_exp_bounds(1) [OF assms] by (simp add: power_int_diff)
  then show "lead_exp x - 1 \<le> lead_exp (x / 2)" by (rule lead_exp_ge)
qed

lemma rnd_half: "rnd (x / 2) = rnd x / 2"
proof (cases "x = 0")
  case False
  then have e: "lead_exp (\<bar>x\<bar> / 2) = lead_exp \<bar>x\<bar> - 1" using lead_exp_half [of "\<bar>x\<bar>"] by simp
  define u :: rat where "u = 2 powi (lead_exp \<bar>x\<bar> - 52)"
  have u: "2 powi (lead_exp (\<bar>x\<bar> / 2) - 52) = u / 2"
    by (simp add: e u_def power_int_diff algebra_simps)
  show ?thesis using False by (simp add: rnd_def Let_def u) (simp add: u_def)
qed simp

text \<open>Integers of at most 53 bits are exact.\<close>

lemma rnd_of_int:
  assumes "\<bar>n\<bar> < 2 ^ 53"
  shows "rnd (of_int n) = of_int n"
proof (cases "n = 0")
  case False
  define k where "k = 52 - lead_exp \<bar>of_int n\<bar>"
  have "(of_int \<bar>n\<bar> :: rat) < of_int (2 ^ 53)" using assms by (rule of_int_lessI)
  then have "(of_int \<bar>n\<bar> :: rat) < 2 powi 53" by simp
  then have "lead_exp \<bar>of_int n\<bar> < 53" using False by (intro lead_exp_less) auto
  then have k: "0 \<le> k" by (simp add: k_def)
  have u: "(2::rat) powi (lead_exp \<bar>of_int n\<bar> - 52) = 1 / 2 ^ nat k"
  proof -
    have "lead_exp \<bar>of_int n\<bar> - 52 = - int (nat k)" using k by (simp add: k_def)
    then show ?thesis by (simp only: power_int_minus power_int_of_nat) (simp add: divide_inverse)
  qed
  have "(of_int n :: rat) * 2 ^ nat k = of_int (n * 2 ^ nat k)" by simp
  then show ?thesis using False
    by (simp only: rnd_def u Let_def) (simp only: divide_divide_eq_right div_by_1 round_even_of_int, simp)
qed simp

lemma js_of_int_exact: "\<bar>n\<bar> < 2 ^ 53 \<Longrightarrow> js_of_int n = of_int n"
  by (simp add: js_of_int_def rnd_of_int)

text \<open>No integer beyond that range is rounded into it.\<close>

lemma rnd_large:
  assumes "2 ^ 53 \<le> x"
  shows "2 ^ 53 \<le> rnd x"
proof -
  have "(2::rat) powi 53 \<le> x" using assms by simp
  then have e: "53 \<le> lead_exp x" by (rule lead_exp_ge)
  have pos: "0 < x" using assms by (rule less_le_trans [rotated]) simp
  define u :: rat where "u = 2 powi (lead_exp x - 52)"
  have u: "0 < u" by (simp add: u_def)
  have "2 ^ 52 * u = 2 powi lead_exp x" by (simp add: u_def power_int_diff)
  also have "\<dots> \<le> x" using pos by (rule lead_exp_bounds)
  finally have "of_int (2 ^ 52) \<le> x / u" using u by (simp add: field_simps)
  then have "2 ^ 52 \<le> round_even (x / u)" by (rule round_even_ge)
  then have "of_int (2 ^ 52) \<le> (of_int (round_even (x / u)) :: rat)" by (rule of_int_leI)
  then have "(2::rat) ^ 52 \<le> of_int (round_even (x / u))" by simp
  then have "2 ^ 52 * u \<le> of_int (round_even (x / u)) * u" using u by simp
  moreover have "(2::rat) powi 53 \<le> 2 powi lead_exp x" using e by (rule power_int_increasing) simp
  ultimately have "2 ^ 53 \<le> of_int (round_even (x / u)) * u"
    using \<open>2 ^ 52 * u = 2 powi lead_exp x\<close> by simp
  then show ?thesis using pos by (simp add: rnd_def u_def Let_def)
qed

text \<open>A comparison with an exact integer is not changed by the rounding of the other side.\<close>

lemma js_of_int_le_iff:
  assumes "0 \<le> n" and "0 \<le> t" and "t < 2 ^ 53"
  shows "js_of_int n \<le> of_int t \<longleftrightarrow> n \<le> t"
proof (cases "n < 2 ^ 53")
  case True
  then show ?thesis using assms by (simp add: js_of_int_exact)
next
  case False
  then have "of_int (2 ^ 53) \<le> (of_int n :: rat)" by (intro of_int_leI) simp
  then have "(2::rat) ^ 53 \<le> of_int n" by simp
  then have "2 ^ 53 \<le> js_of_int n" unfolding js_of_int_def by (rule rnd_large)
  moreover have "(of_int t :: rat) < of_int (2 ^ 53)" using assms(3) by (rule of_int_lessI)
  then have "(of_int t :: rat) < 2 ^ 53" by simp
  ultimately show ?thesis using False assms(3) by auto
qed

end
