(* ===== verification/Vault_Data.thy ===== *)
theory Vault_Data imports Soroban_Errors JS_Number begin

text \<open>
  \<^verbatim>\<open>src/api/soroban-client.ts\<close>, lines 284 to 500: amounts in stroops, the contract's vault as
  the SDK decodes it, the app's vault, its metadata and its events. A decoded ScVal is a
  \<open>native\<close> value; the conversions \<^verbatim>\<open>String\<close>, \<^verbatim>\<open>BigInt\<close> and \<^verbatim>\<open>Boolean\<close> are those of the language.
\<close>

section \<open>Values of the language\<close>

text \<open>
  What \<^verbatim>\<open>scValToNative\<close> can return: an integer (\<^verbatim>\<open>bigint\<close> or \<^verbatim>\<open>number\<close>), a string, a boolean, null or
  undefined, an array, an object with named fields, or another object with its \<^verbatim>\<open>String\<close> image.
\<close>

datatype native =
    NInt int
  | NStr string
  | NBool bool
  | NNull
  | NUndef
  | NVec "native list"
  | NMap "(string \<times> native) list"
  | NObj string

fun nat_string :: "nat \<Rightarrow> string" where
  "nat_string n = (if n < 10 then [char_of (48 + n)] else nat_string (n div 10) @ [char_of (48 + n mod 10)])"

declare nat_string.simps [simp del]

definition int_string :: "int \<Rightarrow> string" where
  "int_string n = (if n < 0 then ''-'' @ nat_string (nat (- n)) else nat_string (nat n))"

fun join_comma :: "string list \<Rightarrow> string" where
  "join_comma [] = []"
| "join_comma [s] = s"
| "join_comma (s # t # ss) = s @ '','' @ join_comma (t # ss)"

fun js_String :: "native \<Rightarrow> string" where
  "js_String (NInt n) = int_string n"
| "js_String (NStr s) = s"
| "js_String (NBool b) = (if b then ''true'' else ''false'')"
| "js_String NNull = ''null''"
| "js_String NUndef = ''undefined''"
| "js_String (NVec vs) = join_comma (map (\<lambda>v. if v = NNull \<or> v = NUndef then [] else js_String v) vs)"
| "js_String (NMap _) = ''[object Object]''"
| "js_String (NObj s) = s"

definition js_Boolean :: "native \<Rightarrow> bool" where
  "js_Boolean v = (case v of NInt n \<Rightarrow> n \<noteq> 0 | NStr s \<Rightarrow> s \<noteq> [] | NBool b \<Rightarrow> b
     | NNull \<Rightarrow> False | NUndef \<Rightarrow> False | _ \<Rightarrow> True)"

text \<open>\<^verbatim>\<open>BigInt(s)\<close>: white space trimmed; empty is zero; decimal digits with an optional sign, or a
  prefixed literal in base 16, 8 or 2 without one; anything else is a \<^verbatim>\<open>SyntaxError\<close>.\<close>

definition trim :: "string \<Rightarrow> string" where
  "trim s = rev (dropWhile is_space (rev (dropWhile is_space s)))"

definition digit_in :: "nat \<Rightarrow> char \<Rightarrow> nat option" where
  "digit_in b c =
     (let n = of_char c :: nat;
          d = (if 48 \<le> n \<and> n \<le> 57 then n - 48
               else if 97 \<le> n \<and> n \<le> 102 then n - 87
               else if 65 \<le> n \<and> n \<le> 70 then n - 55 else b)
      in if d < b then Some d else None)"

definition digits_in :: "nat \<Rightarrow> string \<Rightarrow> int option" where
  "digits_in b s =
     (if s = [] then None
      else foldl (\<lambda>acc c. case (acc, digit_in b c) of (Some n, Some d) \<Rightarrow> Some (int b * n + int d) | _ \<Rightarrow> None)
        (Some 0) s)"

definition string_int :: "string \<Rightarrow> int option" where
  "string_int s =
     (let t = trim s
      in if t = [] then Some 0
         else if hd t = CHR ''-'' then map_option uminus (digits_in 10 (tl t))
         else if hd t = CHR ''+'' then digits_in 10 (tl t)
         else if take 2 (to_lower t) = ''0x'' then digits_in 16 (drop 2 t)
         else if take 2 (to_lower t) = ''0o'' then digits_in 8 (drop 2 t)
         else if take 2 (to_lower t) = ''0b'' then digits_in 2 (drop 2 t)
         else digits_in 10 t)"

definition js_BigInt :: "native \<Rightarrow> thrown + int" where
  "js_BigInt v =
     (let parse = (\<lambda>s. case string_int s of Some n \<Rightarrow> Inr n | None \<Rightarrow> Inl (JsError (''Cannot convert '' @ s @ '' to a BigInt'')))
      in case v of
           NInt n \<Rightarrow> Inr n
         | NBool b \<Rightarrow> Inr (if b then 1 else 0)
         | NNull \<Rightarrow> Inl (JsError ''Cannot convert null to a BigInt'')
         | NUndef \<Rightarrow> Inl (JsError ''Cannot convert undefined to a BigInt'')
         | _ \<Rightarrow> parse (js_String v))"

text \<open>
  \<^verbatim>\<open>Number(s)\<close> and \<^verbatim>\<open>parseFloat(s)\<close>; \<open>None\<close> is a result that is not finite. A decimal literal is digits
  with an optional fraction and an optional exponent; \<open>decimal_prefix\<close> reads the longest one.
\<close>

definition take_exponent :: "string \<Rightarrow> int \<times> string" where
  "take_exponent s =
     (if s \<noteq> [] \<and> to_lower [hd s] = ''e'' then
        let (sign, t) = (case tl s of
            [] \<Rightarrow> (1, [])
          | c # u \<Rightarrow> if c = CHR ''-'' then (-1, u) else if c = CHR ''+'' then (1, u) else (1, c # u));
            ds = takeWhile is_digit t
        in if ds = [] then (0, s) else (sign * int (digits_value ds), dropWhile is_digit t)
      else (0, s))"

definition decimal_prefix :: "string \<Rightarrow> (rat \<times> string) option" where
  "decimal_prefix s =
     (let whole = takeWhile is_digit s; r = dropWhile is_digit s;
          (frac, r2) = (if r \<noteq> [] \<and> hd r = CHR ''.'' then (takeWhile is_digit (tl r), dropWhile is_digit (tl r)) else ([], r))
      in if whole = [] \<and> frac = [] then None
         else let (e, rest) = take_exponent r2
              in Some (of_nat (digits_value (whole @ frac)) * 10 powi (e - int (length frac)), rest))"

definition split_sign :: "string \<Rightarrow> rat \<times> string" where
  "split_sign s = (if s \<noteq> [] \<and> hd s = CHR ''-'' then (-1, tl s) else if s \<noteq> [] \<and> hd s = CHR ''+'' then (1, tl s) else (1, s))"

definition finite_number :: "rat \<Rightarrow> number option" where
  "finite_number x = (if \<bar>rnd x\<bar> < 2 powi 1024 then Some (rnd x) else None)"

definition string_number :: "string \<Rightarrow> number option" where
  "string_number s =
     (let t = trim s
      in if t = [] then Some 0
         else if take 2 (to_lower t) \<in> {''0x'', ''0o'', ''0b''} then map_option js_of_int (string_int t)
         else let (sign, u) = split_sign t
              in case decimal_prefix u of
                   Some (x, rest) \<Rightarrow> if rest = [] then finite_number (sign * x) else None
                 | None \<Rightarrow> None)"

definition parse_float :: "string \<Rightarrow> number option" where
  "parse_float s =
     (let (sign, u) = split_sign (dropWhile is_space s)
      in case decimal_prefix u of Some (x, rest) \<Rightarrow> finite_number (sign * x) | None \<Rightarrow> None)"

text \<open>\<^verbatim>\<open>obj.field\<close>: null and undefined throw, an absent field is undefined.\<close>

definition js_field :: "native \<Rightarrow> string \<Rightarrow> thrown + native" where
  "js_field v f = (case v of
      NNull \<Rightarrow> Inl (JsError (''Cannot read properties of null (reading '' @ f @ '')''))
    | NUndef \<Rightarrow> Inl (JsError (''Cannot read properties of undefined (reading '' @ f @ '')''))
    | NMap fs \<Rightarrow> Inr (case map_of fs f of Some x \<Rightarrow> x | None \<Rightarrow> NUndef)
    | _ \<Rightarrow> Inr NUndef)"

text \<open>Results in sequence.\<close>

definition bind_res :: "'e + 'a \<Rightarrow> ('a \<Rightarrow> 'e + 'b) \<Rightarrow> 'e + 'b" where
  "bind_res r f = (case r of Inl e \<Rightarrow> Inl e | Inr x \<Rightarrow> f x)"

lemma bind_res_simps [simp]: "bind_res (Inl e) f = Inl e" "bind_res (Inr x) f = f x"
  by (simp_all add: bind_res_def)

section \<open>Amounts\<close>

definition STROOPS_PER_XLM :: int where
  "STROOPS_PER_XLM = 10000000"

text \<open>\<^verbatim>\<open>BigInt(Math.round(amount * 1e7))\<close>; \<open>None\<close> is an amount that is not finite, where \<^verbatim>\<open>BigInt\<close> throws.\<close>

definition xlmToStroops :: "number option \<Rightarrow> thrown + int" where
  "xlmToStroops amount = (case amount of
      None \<Rightarrow> Inl (JsError ''The number is not an integer'')
    | Some a \<Rightarrow> Inr (js_round (js_mul a (js_of_int STROOPS_PER_XLM))))"

definition stroopsToXlm :: "int \<Rightarrow> number" where
  "stroopsToXlm stroops = js_div (js_of_int stroops) (js_of_int STROOPS_PER_XLM)"

section \<open>Vaults\<close>

record contract_vault =
  cv_id :: int
  cv_owner :: string
  cv_name :: string
  cv_balance :: int
  cv_unlock :: int
  cv_created :: int
  cv_withdrawn :: bool

datatype vstatus = Locked | Unlocked | Withdrawn | Archived

record vault =
  va_vault_id :: string
  va_owner :: string
  va_name :: string
  va_description :: string
  va_template :: string
  va_balance :: number
  va_target :: "number option"
  va_unlock :: number
  va_created :: number
  va_status :: vstatus

text \<open>The off-chain metadata, local and remote; an absent field and a null one are \<open>None\<close>.\<close>

record vault_meta =
  vm_description :: "string option"
  vm_template :: "string option"
  vm_target :: "number option"
  vm_name :: "string option"
  vm_dest :: "string option"
  vm_dest_label :: "string option"
  vm_memo :: "string option"
  vm_bill :: "string option"

record remote_meta =
  rm_vault_id :: string
  rm_description :: "string option"
  rm_template :: "string option"
  rm_target :: "number option"
  rm_name :: "string option"
  rm_dest :: "string option"
  rm_dest_label :: "string option"
  rm_memo :: "string option"
  rm_bill :: "string option"
  rm_balance :: "number option"
  rm_unlock :: "number option"
  rm_status :: "string option"
  rm_created_at :: "string option"
  rm_updated_at :: "string option"

definition EMPTY_META :: vault_meta where
  "EMPTY_META = \<lparr>vm_description = Some [], vm_template = Some ''custom'', vm_target = None, vm_name = None,
     vm_dest = None, vm_dest_label = None, vm_memo = None, vm_bill = None\<rparr>"

definition decodeVault :: "native \<Rightarrow> thrown + contract_vault" where
  "decodeVault obj =
     bind_res (js_field obj ''vault_id'') (\<lambda>f1. bind_res (js_BigInt f1) (\<lambda>vid.
     bind_res (js_field obj ''owner'') (\<lambda>f2.
     bind_res (js_field obj ''name'') (\<lambda>f3.
     bind_res (js_field obj ''balance'') (\<lambda>f4. bind_res (js_BigInt f4) (\<lambda>bal.
     bind_res (js_field obj ''unlock_timestamp'') (\<lambda>f5. bind_res (js_BigInt f5) (\<lambda>unl.
     bind_res (js_field obj ''created_timestamp'') (\<lambda>f6. bind_res (js_BigInt f6) (\<lambda>cre.
     bind_res (js_field obj ''withdrawn'') (\<lambda>f7.
       Inr \<lparr>cv_id = vid, cv_owner = js_String f2, cv_name = js_String f3, cv_balance = bal,
         cv_unlock = unl, cv_created = cre, cv_withdrawn = js_Boolean f7\<rparr>)))))))))))"

definition statusFor :: "contract_vault \<Rightarrow> int \<Rightarrow> vstatus" where
  "statusFor v nowSec =
     (if cv_withdrawn v then Withdrawn
      else if js_of_int (cv_unlock v) \<le> of_int nowSec then Unlocked else Locked)"

text \<open>\<open>now\<close> is \<^verbatim>\<open>Date.now()\<close>, in milliseconds.\<close>

definition toVault :: "int \<Rightarrow> contract_vault \<Rightarrow> vault_meta \<Rightarrow> vault" where
  "toVault now c off =
     \<lparr>va_vault_id = int_string (cv_id c), va_owner = cv_owner c, va_name = cv_name c,
      va_description = coalesce (vm_description off) [], va_template = coalesce (vm_template off) ''custom'',
      va_balance = stroopsToXlm (cv_balance c), va_target = vm_target off,
      va_unlock = js_of_int (cv_unlock c), va_created = js_of_int (cv_created c),
      va_status = statusFor c (now div 1000)\<rparr>"

section \<open>Events\<close>

datatype event_kind = KCreate | KDeposit | KExtend | KWithdraw

record parsed_event =
  ev_tx_id :: string
  ev_vault_id :: string
  ev_owner :: string
  ev_kind :: event_kind
  ev_amount :: number
  ev_note :: string
  ev_timestamp :: int
  ev_created_at :: string

section \<open>Correctness of the amounts and of the status\<close>

lemma js_of_int_stroops [simp]: "js_of_int STROOPS_PER_XLM = 10000000"
  by (simp add: STROOPS_PER_XLM_def js_of_int_exact)

lemma two_roundings:
  fixes r z n :: rat
  assumes "\<bar>r - z\<bar> * 9007199254740992 \<le> \<bar>z\<bar>" and "\<bar>z - n\<bar> * 8 \<le> 1" and "\<bar>n\<bar> \<le> 1125899906842624"
  shows "\<bar>r - n\<bar> < 1 / 2"
proof -
  have "\<bar>z\<bar> \<le> \<bar>n\<bar> + \<bar>z - n\<bar>" using abs_triangle_ineq [of n "z - n"] by simp
  then have "\<bar>z\<bar> * 8 \<le> 9007199254740993" using assms(2,3) by simp
  then have "\<bar>r - z\<bar> * 72057594037927936 \<le> 9007199254740993" using assms(1) by simp
  then have "\<bar>r - z\<bar> * 4 < 1" by simp
  then have "(\<bar>r - z\<bar> + \<bar>z - n\<bar>) * 2 < 1" using assms(2) by (simp add: algebra_simps)
  then show ?thesis using abs_triangle_ineq [of "r - z" "z - n"] by simp
qed

text \<open>Two roundings, each with a relative error of at most 2^-53, stay within half a stroop.\<close>

lemma stroops_rounding:
  assumes "\<bar>n\<bar> \<le> 2 ^ 50"
  shows "\<bar>js_mul (stroopsToXlm n) 10000000 - of_int n\<bar> < 1 / 2"
proof -
  have small: "\<bar>of_int n :: rat\<bar> \<le> 2 ^ 50" using of_int_leI [OF assms] by simp
  have n: "js_of_int n = of_int n" using assms by (intro js_of_int_exact) (rule le_less_trans, auto)
  define y where "y = rnd (of_int n / 10000000)"
  have "\<bar>y - of_int n / 10000000\<bar> \<le> \<bar>of_int n / 10000000\<bar> / 2 ^ 53"
    unfolding y_def by (rule rnd_error)
  then have y: "\<bar>y * 10000000 - of_int n\<bar> \<le> \<bar>of_int n\<bar> / 2 ^ 53" by linarith
  have "\<bar>rnd (y * 10000000) - y * 10000000\<bar> \<le> \<bar>y * 10000000\<bar> / 2 ^ 53" by (rule rnd_error)
  moreover have "(2 :: rat) ^ 53 = 8 * 2 ^ 50" and "(1 :: rat) \<le> 2 ^ 50" by simp_all
  ultimately have "\<bar>rnd (y * 10000000) - y * 10000000\<bar> \<le> \<bar>y * 10000000\<bar> / 8 / 2 ^ 50"
      and "\<bar>y * 10000000 - of_int n\<bar> \<le> 1 / 8"
    using y small by (simp_all add: field_simps)
  then have "\<bar>rnd (y * 10000000) - of_int n\<bar> < 1 / 2" using small by (intro two_roundings) simp_all
  then show ?thesis by (simp add: js_mul_def stroopsToXlm_def js_div_def n y_def)
qed

lemma stroops_back:
  assumes "\<bar>n\<bar> \<le> 2 ^ 50"
  shows "xlmToStroops (Some (stroopsToXlm n)) = Inr n"
proof -
  have "\<lfloor>js_mul (stroopsToXlm n) 10000000 + 1 / 2\<rfloor> = n"
    using stroops_rounding [OF assms] by (intro floor_unique) linarith+
  then show ?thesis by (simp add: xlmToStroops_def js_round_def)
qed

text \<open>Every on-chain amount of at most 2^50 stroops (112 million XLM) survives the conversion
  to the floating-point XLM amount of the app and back: no stroop is lost.\<close>
lemma stroops_roundtrip:
  assumes "\<bar>n\<bar> \<le> 2 ^ 50"
  shows "xlmToStroops (Some (stroopsToXlm n)) = Inr n"
  using assms by (rule stroops_back)

lemma stroops_roundtrip_witness:
  "xlmToStroops (Some (stroopsToXlm 12345678901234)) = Inr 12345678901234"
  by (rule stroops_roundtrip) simp

text \<open>The status shown for a decoded vault is the contract's own: withdrawn exactly for the
  flag, otherwise unlocked exactly when the clock has reached the unlock timestamp, for every
  unsigned 64-bit timestamp although the comparison is made in floating point.\<close>
lemma statusFor_exact:
  assumes "0 \<le> cv_unlock v" and "0 \<le> now" and "now < 2 ^ 53"
  shows "statusFor v now =
    (if cv_withdrawn v then Withdrawn else if cv_unlock v \<le> now then Unlocked else Locked)"
  using js_of_int_le_iff [OF assms] by (simp add: statusFor_def)

lemma statusFor_exact_witness:
  "statusFor \<lparr>cv_id = 3, cv_owner = ''G'', cv_name = ''car'', cv_balance = 5, cv_unlock = 18446744073709551615,
     cv_created = 0, cv_withdrawn = False\<rparr> 1700000000 = Locked"
  by (subst statusFor_exact) simp_all

end
