(* ===== verification/Soroban_World.thy ===== *)
theory Soroban_World imports Vault_Data Secure_Wipe begin

text \<open>
  The world of \<^verbatim>\<open>src/api/soroban-client.ts\<close>: the memory that holds the signer, the module's
  variables, and the log of every external action in order. What is outside the repository
  (the RPC server, the SDK, the failover list, the storage shim, the backend) is an \<open>env\<close>, a
  record of functions; an answer is a function of the whole history, which ends with the action
  that is answered and has the memory at each action, so nothing is assumed of it: theorems
  hold for any behaviour of the network, a server that has read all of the memory included.
  Then the loops that every call shares: failover across RPC servers and polling.
\<close>

section \<open>Data exchanged with the SDK\<close>

text \<open>A transaction, an ScVal and a contract id are their serialised texts.\<close>

type_synonym xdr = string

text \<open>The type hint of \<^verbatim>\<open>nativeToScVal\<close>; an address is converted by the SDK's \<^verbatim>\<open>Address\<close>.\<close>

datatype sc_type = ScAddress | ScU64 | ScI128 | ScString

record account =
  ac_id :: string
  ac_sequence :: string

record deployment =
  d_contractId :: string
  d_passphrase :: string
  d_network :: string
  d_fallbacks :: "string list option"

text \<open>The data builder of a Soroban transaction: its footprint's keys and the rest of it.\<close>

record soroban_data =
  sd_readOnly :: "xdr list"
  sd_readWrite :: "xdr list"
  sd_resources :: xdr

datatype operation =
    CallOp string string "xdr list"
  | RestoreFootprint
  | ExtendFootprintTtl nat

record tx_request =
  rq_source :: account
  rq_fee :: string
  rq_passphrase :: string
  rq_data :: "soroban_data option"
  rq_op :: operation
  rq_timeout :: nat

record preamble =
  pr_minResourceFee :: int
  pr_data :: soroban_data

text \<open>A simulation's response: an error, or a success with its optional members.\<close>

datatype sim =
    SimError string
  | SimSuccess (sim_data: "soroban_data option") (sim_retval: "xdr option") (sim_preamble: "preamble option")

record send_response =
  sr_status :: string
  sr_errorName :: "string option"
  sr_hash :: string

record get_response =
  g_status :: string
  g_ledger :: "int option"
  g_returnValue :: "xdr option"

datatype receipt_status = RSuccess | RFailed | RPending

record receipt =
  rc_method :: string
  rc_txHash :: string
  rc_ledger :: "int option"
  rc_explorerUrl :: string
  rc_status :: receipt_status
  rc_emittedAt :: int

record event_response =
  er_topic :: "xdr list"
  er_data :: xdr
  er_txHash :: string
  er_closedAt :: string
  er_closed_sec :: int

record events_page =
  ep_events :: "event_response list"
  ep_cursor :: "string option"

record persisted =
  ps_contractId :: string
  ps_fetchedAt :: int
  ps_latestLedger :: nat
  ps_startLedger :: nat
  ps_events :: "parsed_event list"

datatype stored = StMeta vault_meta | StEvents persisted | StOther

record snapshot =
  sn_balance :: "number option"
  sn_unlock :: "number option"
  sn_status :: "string option"

text \<open>The requests to the backend: list the metas of an owner, replace one, patch its snapshot.\<close>

datatype http =
    GetMetas string string bool
  | PutMeta string string string vault_meta
  | PatchSnapshot string string string snapshot

record response =
  rs_ok :: bool
  rs_metas :: "thrown + remote_meta list"

section \<open>World and environment\<close>

text \<open>Where a request for events starts: at a ledger or after a cursor.\<close>

datatype events_start = FromLedger nat | FromCursor string

datatype action =
    AGetAccount string string
  | ASimulate string xdr
  | ASend string xdr
  | AGetTx string string
  | AGetLedger string
  | AGetEvents string string events_start nat
  | ASleep nat
  | ARotate thrown
  | AReceipt receipt
  | ALoadSigner
  | AKeypair nat keypair
  | AGetItem string
  | ASetItem string stored
  | ARemoveItem string
  | AFetch http
  | ALoadVaults string
  | ASaveVaults string "vault list" string

type_synonym entry = "action \<times> heap"
type_synonym history = "entry list"

record world =
  w_heap :: heap
  w_log :: history
  w_eventCache :: "(int \<times> parsed_event list) option"
  w_lastSynced :: "int option"
  w_simBroken :: bool
  w_frozen :: "string list"

type_synonym 'a io = "(world, thrown, 'a) eff"

record env =
  e_url :: "history \<Rightarrow> string"
  e_dep :: "history \<Rightarrow> deployment"
  e_now :: "history \<Rightarrow> int"
  e_transport :: "thrown \<Rightarrow> bool"
  e_getAccount :: "history \<Rightarrow> thrown + account"
  e_simulate :: "history \<Rightarrow> thrown + sim"
  e_send :: "history \<Rightarrow> thrown + send_response"
  e_getTx :: "history \<Rightarrow> thrown + get_response"
  e_getLedger :: "history \<Rightarrow> thrown + nat"
  e_getEvents :: "history \<Rightarrow> thrown + events_page"
  e_contract :: "string \<Rightarrow> thrown + unit"
  e_build :: "tx_request \<Rightarrow> thrown + xdr"
  e_assemble :: "xdr \<Rightarrow> sim \<Rightarrow> thrown + xdr"
  e_isRestore :: "sim \<Rightarrow> bool"
  e_blankData :: soroban_data
  e_scval :: "sc_type \<Rightarrow> native \<Rightarrow> thrown + xdr"
  e_native :: "xdr \<Rightarrow> thrown + native"
  e_loadSigner :: "history \<Rightarrow> thrown + string option"
  e_fromSecret :: "string \<Rightarrow> heap \<Rightarrow> thrown + nat \<times> keypair \<times> (nat \<Rightarrow> byte list option)"
  e_sign :: "xdr \<Rightarrow> byte list \<Rightarrow> byte list \<Rightarrow> thrown + xdr"
  e_explorer :: "string \<Rightarrow> string"
  e_backend :: string
  e_getItem :: "history \<Rightarrow> thrown + stored option"
  e_setItem :: "history \<Rightarrow> thrown + unit"
  e_fetch :: "history \<Rightarrow> thrown + response"
  e_loadVaults :: "history \<Rightarrow> thrown + vault list"
  e_merge :: "vault list \<Rightarrow> vault list \<Rightarrow> vault list"
  e_parseDate :: "string \<Rightarrow> int option"

definition record_action :: "action \<Rightarrow> world \<Rightarrow> world" where
  "record_action a w = w\<lparr>w_log := w_log w @ [(a, w_heap w)]\<rparr>"

text \<open>An action without an answer, and one whose answer is waited for.\<close>

definition act :: "action \<Rightarrow> 'a \<Rightarrow> (world, 'e, 'a) eff" where
  "act a x = (\<lambda>w. (Inr x, record_action a w))"

definition ask :: "action \<Rightarrow> (history \<Rightarrow> thrown + 'a) \<Rightarrow> 'a io" where
  "ask a f = (\<lambda>w. let w' = record_action a w in (f (w_log w'), w'))"

text \<open>\<^verbatim>\<open>try { x = await m } catch (e) { ... }\<close> with the outcome as a value.\<close>

definition attemptM :: "(world, 'e, 'a) eff \<Rightarrow> (world, 'f, 'e + 'a) eff" where
  "attemptM m = (\<lambda>w. case m w of (r, w') \<Rightarrow> (Inr r, w'))"

lemma act_eval [eff_eval]: "act a x w = (Inr x, record_action a w)"
  by (simp add: act_def)

lemma ask_eval [eff_eval]: "ask a f w = (f (w_log (record_action a w)), record_action a w)"
  by (simp add: ask_def Let_def)

lemma attemptM_eval [eff_eval]: "attemptM m w = (Inr (fst (m w)), snd (m w))"
  by (simp add: attemptM_def split: prod.splits)

lemma record_action_simps [simp]:
  "w_log (record_action a w) = w_log w @ [(a, w_heap w)]"
  "w_heap (record_action a w) = w_heap w"
  "w_eventCache (record_action a w) = w_eventCache w"
  "w_lastSynced (record_action a w) = w_lastSynced w"
  "w_simBroken (record_action a w) = w_simBroken w"
  "w_frozen (record_action a w) = w_frozen w"
  by (simp_all add: record_action_def)

section \<open>What a computation adds to the log\<close>

text \<open>The entries between two worlds, and the computations whose every new entry satisfies \<open>P\<close>.\<close>

definition since :: "world \<Rightarrow> world \<Rightarrow> history" where
  "since w w' = drop (length (w_log w)) (w_log w')"

definition appends :: "(entry \<Rightarrow> bool) \<Rightarrow> (world, 'e, 'a) eff \<Rightarrow> bool" where
  "appends P m \<longleftrightarrow> (\<forall>w. \<exists>new. w_log (snd (m w)) = w_log w @ new \<and> (\<forall>x\<in>set new. P x))"

named_theorems appends_intro \<open>rules for the entries that a computation adds\<close>

lemma appendsD:
  assumes "appends P m" and "m w = (r, w')"
  shows "\<exists>new. w_log w' = w_log w @ new \<and> (\<forall>x\<in>set new. P x)"
proof -
  have "w' = snd (m w)" using assms(2) by simp
  then show ?thesis using assms(1) by (auto simp: appends_def)
qed

lemma appends_since: "appends P m \<Longrightarrow> m w = (r, w') \<Longrightarrow> x \<in> set (since w w') \<Longrightarrow> P x"
  by (drule (1) appendsD) (auto simp: since_def)

lemma appends_log: "appends P m \<Longrightarrow> m w = (r, w') \<Longrightarrow> w_log w' = w_log w @ since w w'"
  by (drule (1) appendsD) (auto simp: since_def)

lemma appends_mono: "appends P m \<Longrightarrow> (\<And>x. P x \<Longrightarrow> Q x) \<Longrightarrow> appends Q m"
  by (fastforce simp: appends_def)

lemma appends_nothing: "(\<And>w. w_log (snd (m w)) = w_log w) \<Longrightarrow> appends P m"
  by (simp add: appends_def)

lemma appends_ret [appends_intro]: "appends P (ret x)"
  by (simp add: appends_def ret_def)

lemma appends_throw [appends_intro]: "appends P (throw e)"
  by (simp add: appends_def throw_def)

lemma appends_liftM [appends_intro]: "appends P (liftM r)"
  by (simp add: appends_def liftM_def)

lemma appends_getM [appends_intro]: "appends P (getM g)"
  by (simp add: appends_def getM_def)

lemma appends_act [appends_intro]: "(\<And>h. P (a, h)) \<Longrightarrow> appends P (act a x)"
  by (simp add: appends_def act_def)

lemma appends_ask [appends_intro]: "(\<And>h. P (a, h)) \<Longrightarrow> appends P (ask a f)"
  by (simp add: appends_def ask_def Let_def)

lemma appends_seqM [appends_intro]:
  assumes "appends P m" and "\<And>x. appends P (f x)"
  shows "appends P (seqM m f)"
  unfolding appends_def
proof
  fix w
  obtain r w1 where m: "m w = (r, w1)" by (cases "m w")
  obtain n1 where n1: "w_log w1 = w_log w @ n1" "\<forall>x\<in>set n1. P x" using appendsD [OF assms(1) m] by blast
  show "\<exists>new. w_log (snd (seqM m f w)) = w_log w @ new \<and> (\<forall>x\<in>set new. P x)"
  proof (cases r)
    case (Inr x)
    obtain r2 w2 where f: "f x w1 = (r2, w2)" by (cases "f x w1")
    obtain n2 where "w_log w2 = w_log w1 @ n2" "\<forall>x\<in>set n2. P x" using appendsD [OF assms(2) f] by blast
    with n1 m f Inr show ?thesis by (intro exI [of _ "n1 @ n2"]) (auto simp: seqM_def)
  qed (use n1 m in \<open>auto simp: seqM_def\<close>)
qed

lemma appends_catchM [appends_intro]:
  assumes "appends P m" and "\<And>x. appends P (h x)"
  shows "appends P (catchM m h)"
  unfolding appends_def
proof
  fix w
  obtain r w1 where m: "m w = (r, w1)" by (cases "m w")
  obtain n1 where n1: "w_log w1 = w_log w @ n1" "\<forall>x\<in>set n1. P x" using appendsD [OF assms(1) m] by blast
  show "\<exists>new. w_log (snd (catchM m h w)) = w_log w @ new \<and> (\<forall>x\<in>set new. P x)"
  proof (cases r)
    case (Inl x)
    obtain r2 w2 where f: "h x w1 = (r2, w2)" by (cases "h x w1")
    obtain n2 where "w_log w2 = w_log w1 @ n2" "\<forall>x\<in>set n2. P x" using appendsD [OF assms(2) f] by blast
    with n1 m f Inl show ?thesis by (intro exI [of _ "n1 @ n2"]) (auto simp: catchM_def)
  qed (use n1 m in \<open>auto simp: catchM_def\<close>)
qed

lemma appends_attemptM [appends_intro]: "appends P m \<Longrightarrow> appends P (attemptM m)"
  by (simp add: appends_def attemptM_eval)

lemma appends_finallyM:
  "appends P m \<Longrightarrow> (\<And>w. w_log (g w) = w_log w) \<Longrightarrow> appends P (finallyM m g)"
  by (simp add: appends_def finallyM_eval)

lemma appends_updM: "(\<And>w. w_log (g w) = w_log w) \<Longrightarrow> appends P (updM g)"
  by (simp add: appends_def updM_def)

definition same_state :: "world \<Rightarrow> world \<Rightarrow> bool" where
  "same_state w v \<longleftrightarrow> w_heap v = w_heap w \<and> w_eventCache v = w_eventCache w \<and> w_lastSynced v = w_lastSynced w \<and>
     w_simBroken v = w_simBroken w \<and> w_frozen v = w_frozen w"

lemma same_state_simps [simp]: "same_state w w" "same_state w (record_action a v) \<longleftrightarrow> same_state w v"
  by (simp_all add: same_state_def)

text \<open>Worlds that differ in the log only, for what never touches the memory.\<close>

lemma keeps_act [keeps_intro]: "(\<And>w. P w \<Longrightarrow> P (record_action a w)) \<Longrightarrow> keeps P (act a x)"
  by (simp add: keeps_def act_def)

lemma keeps_ask [keeps_intro]: "(\<And>w. P w \<Longrightarrow> P (record_action a w)) \<Longrightarrow> keeps P (ask a f)"
  by (simp add: keeps_def ask_def Let_def)

lemma keeps_attemptM [keeps_intro]: "keeps P m \<Longrightarrow> keeps P (attemptM m)"
  by (simp add: keeps_def attemptM_eval)

section \<open>Loops with a budget\<close>

text \<open>
  The contract of a loop that may try something a bounded number of times: without budget it
  tries nothing; with budget it makes at most one try and is then either over or the loop with
  the smaller budget. It follows that it never tries more often than its budget.
\<close>

definition tries :: "(action \<Rightarrow> bool) \<Rightarrow> world \<Rightarrow> world \<Rightarrow> nat" where
  "tries P w w' = length (filter (P \<circ> fst) (since w w'))"

definition grows :: "world \<Rightarrow> world \<Rightarrow> bool" where
  "grows w w' \<longleftrightarrow> prefix (w_log w) (w_log w')"

lemma grows_refl [simp]: "grows w w"
  by (simp add: grows_def)

lemma grows_action [simp]: "grows w (record_action a w)"
  by (simp add: grows_def)

lemma grows_trans: "grows u v \<Longrightarrow> grows v w \<Longrightarrow> grows u w"
  by (auto simp: grows_def)

lemma appends_grows: "appends P m \<Longrightarrow> grows w (snd (m w))"
  by (auto simp: appends_def grows_def prefix_def)

lemma since_trans: "grows u v \<Longrightarrow> grows v w \<Longrightarrow> since u w = since u v @ since v w"
  by (auto simp: grows_def since_def prefix_def)

lemma tries_trans: "grows u v \<Longrightarrow> grows v w \<Longrightarrow> tries P u w = tries P u v + tries P v w"
  using since_trans [of u v w] by (simp add: tries_def)

lemma since_refl [simp]: "since w w = []"
  by (simp add: since_def)

lemma since_action [simp]: "since w (record_action a w) = [(a, w_heap w)]"
  by (simp add: since_def)

lemma tries_refl [simp]: "tries P w w = 0"
  by (simp add: tries_def)

lemma tries_action [simp]: "tries P w (record_action a w) = (if P a then 1 else 0)"
  by (simp add: tries_def)

lemma appends_tries_0:
  assumes "appends (\<lambda>x. \<not> P (fst x)) m"
  shows "tries P w (snd (m w)) = 0"
proof -
  have "m w = (fst (m w), snd (m w))" by simp
  from appends_since [OF assms this] show ?thesis by (auto simp: tries_def filter_empty_conv)
qed

locale budgeted =
  fixes loop :: "nat \<Rightarrow> world \<Rightarrow> (thrown + 'a) \<times> world"
    and tried :: "action \<Rightarrow> bool"
  assumes stop: "tries tried w (snd (loop 0 w)) = 0 \<and> grows w (snd (loop 0 w))"
    and once: "\<exists>v. grows w v \<and> tries tried w v \<le> 1 \<and>
      (snd (loop (Suc n) w) = snd (loop n v) \<or> snd (loop (Suc n) w) = v)"
begin

lemma budget: "tries tried w (snd (loop n w)) \<le> n \<and> grows w (snd (loop n w))"
proof (induction n arbitrary: w)
  case 0
  show ?case using stop [of w] by simp
next
  case (Suc n)
  obtain v where v: "grows w v" "tries tried w v \<le> 1"
    and l: "snd (loop (Suc n) w) = snd (loop n v) \<or> snd (loop (Suc n) w) = v"
    using once by blast
  from l show ?case
  proof
    assume eq: "snd (loop (Suc n) w) = snd (loop n v)"
    have "tries tried w (snd (loop n v)) = tries tried w v + tries tried v (snd (loop n v))"
      using v Suc.IH by (blast intro: tries_trans)
    with Suc.IH [of v] v eq show ?case by (auto intro: grows_trans)
  qed (use v in auto)
qed

end

section \<open>The RPC server and its failover\<close>

text \<open>\<^verbatim>\<open>rpcServer()\<close>: a server at the URL that is current at the moment of the call.\<close>

definition rpcServer :: "env \<Rightarrow> (world, 'e, string) eff" where
  "rpcServer E = getM (\<lambda>w. e_url E (w_log w))"

definition getActiveDeployment :: "env \<Rightarrow> (world, 'e, deployment) eff" where
  "getActiveDeployment E = getM (\<lambda>w. e_dep E (w_log w))"

text \<open>
  The loop that every pure read shares: try; stop at an error that is not one of transport or
  at the last URL, otherwise rotate and try again. \<open>wrap\<close> is what the caller throws for the
  error that stops it, \<open>fin\<close> what it throws when the loop runs out.
\<close>

fun failover :: "env \<Rightarrow> (thrown \<Rightarrow> thrown) \<Rightarrow> (thrown option \<Rightarrow> thrown) \<Rightarrow> 'a io \<Rightarrow> nat \<Rightarrow> nat \<Rightarrow>
    nat \<Rightarrow> thrown option \<Rightarrow> 'a io" where
  "failover E wrap fin m urls 0 attempt lastErr = throw (fin lastErr)"
| "failover E wrap fin m urls (Suc k) attempt lastErr =
     catchM m (\<lambda>e. if \<not> e_transport E e \<or> int attempt = int urls - 1 then throw (wrap e)
       else seqM (act (ARotate e) ()) (\<lambda>_. failover E wrap fin m urls k (attempt + 1) (Some e)))"

definition rpc_total :: "deployment \<Rightarrow> nat" where
  "rpc_total dep = 1 + length (coalesce (d_fallbacks dep) [])"

definition with_failover :: "env \<Rightarrow> deployment \<Rightarrow> (thrown \<Rightarrow> thrown) \<Rightarrow> (thrown option \<Rightarrow> thrown) \<Rightarrow> 'a io \<Rightarrow> 'a io" where
  "with_failover E dep wrap fin m = (let urls = rpc_total dep in failover E wrap fin m urls (max 1 urls) 0 None)"

text \<open>\<^verbatim>\<open>lastErr instanceof Error ? lastErr : new Error(String(lastErr))\<close>\<close>

definition as_error :: "thrown option \<Rightarrow> thrown" where
  "as_error l = (case l of None \<Rightarrow> JsError ''undefined'' | Some (JsValue v) \<Rightarrow> JsError v | Some e \<Rightarrow> e)"

definition loadAccount :: "env \<Rightarrow> string \<Rightarrow> account io" where
  "loadAccount E publicKey =
     seqM (getActiveDeployment E) (\<lambda>dep.
       with_failover E dep id as_error
         (seqM (rpcServer E) (\<lambda>server. ask (AGetAccount server publicKey) (e_getAccount E))))"

lemma appends_failover:
  "appends P m \<Longrightarrow> (\<And>e h. P (ARotate e, h)) \<Longrightarrow> appends P (failover E wrap fin m urls k attempt lastErr)"
  by (induction k arbitrary: attempt lastErr) (auto intro!: appends_intro)

lemma appends_with_failover [appends_intro]:
  "appends P m \<Longrightarrow> (\<And>e h. P (ARotate e, h)) \<Longrightarrow> appends P (with_failover E dep wrap fin m)"
  by (simp add: with_failover_def Let_def appends_failover)

lemma keeps_failover:
  "keeps P m \<Longrightarrow> (\<And>e w. P w \<Longrightarrow> P (record_action (ARotate e) w)) \<Longrightarrow>
    keeps P (failover E wrap fin m urls k attempt lastErr)"
  by (induction k arbitrary: attempt lastErr) (auto intro!: keeps_intro)

lemma appends_rpcServer [appends_intro]: "appends P (rpcServer E)"
  by (simp add: rpcServer_def appends_getM)

lemma appends_getActiveDeployment [appends_intro]: "appends P (getActiveDeployment E)"
  by (simp add: getActiveDeployment_def appends_getM)

lemma appends_loadAccount:
  "(\<And>s h. P (AGetAccount s pk, h)) \<Longrightarrow> (\<And>e h. P (ARotate e, h)) \<Longrightarrow> appends P (loadAccount E pk)"
  by (auto simp: loadAccount_def intro!: appends_intro)

lemma keeps_heap_loadAccount: "keeps (\<lambda>w. w_heap w = h) (loadAccount E pk)"
  by (auto simp: loadAccount_def with_failover_def Let_def rpcServer_def getActiveDeployment_def
      intro!: keeps_intro keeps_failover)

text \<open>
  A read under failover, seen from outside: the read is tried until it succeeds, throws an
  error that is not one of transport, or has been tried at every URL; between two tries there
  is one rotation.
\<close>

lemma failover_Inr:
  "failover E wrap fin m urls k attempt lastErr w = (Inr x, w') \<Longrightarrow> \<exists>v. m v = (Inr x, w')"
  by (induction k arbitrary: attempt lastErr w)
    (auto simp: eff_eval split: sum.splits prod.splits if_splits)

text \<open>The error that a failover throws: the wrapped error of its last try.\<close>

lemma failover_Inl:
  assumes "failover E wrap fin m urls k attempt lastErr w = (Inl x, w')" and "attempt + k = urls" and "0 < k"
  shows "\<exists>e v. m v = (Inl e, w') \<and> x = wrap e"
  using assms
proof (induction k arbitrary: attempt lastErr w)
  case (Suc k)
  obtain r v where m: "m w = (r, v)" by (cases "m w")
  show ?case
  proof (cases r)
    case (Inl e)
    show ?thesis
    proof (cases "\<not> e_transport E e \<or> int attempt = int urls - 1")
      case True
      then show ?thesis using Suc.prems m Inl by (auto simp: eff_eval)
    next
      case False
      then have "failover E wrap fin m urls k (attempt + 1) (Some e) (record_action (ARotate e) v) = (Inl x, w')"
        using Suc.prems(1) m Inl by (simp add: eff_eval)
      moreover have "0 < k" using False Suc.prems(2) by (cases k) auto
      ultimately show ?thesis using Suc.IH Suc.prems(2) by auto
    qed
  qed (use Suc.prems m in \<open>simp add: eff_eval\<close>)
qed simp

text \<open>The replies to the actions of one kind among the entries that follow a history.\<close>

fun replies :: "(action \<Rightarrow> bool) \<Rightarrow> (history \<Rightarrow> 'a) \<Rightarrow> history \<Rightarrow> history \<Rightarrow> 'a list" where
  "replies P f hs [] = []"
| "replies P f hs (x # new) = (if P (fst x) then f (hs @ [x]) # replies P f (hs @ [x]) new else replies P f (hs @ [x]) new)"

lemma replies_append: "replies P f hs (xs @ ys) = replies P f hs xs @ replies P f (hs @ xs) ys"
  by (induction xs arbitrary: hs) auto

lemma replies_None: "\<forall>x\<in>set new. \<not> P (fst x) \<Longrightarrow> replies P f hs new = []"
  by (induction new arbitrary: hs) auto

definition rotations :: "history \<Rightarrow> nat" where
  "rotations hs = length (filter (\<lambda>x. \<exists>e. fst x = ARotate e) hs)"

lemma rotations_simps [simp]:
  "rotations [] = 0" "rotations (x # hs) = (if \<exists>e. fst x = ARotate e then 1 else 0) + rotations hs"
  "rotations (hs @ hs') = rotations hs + rotations hs'"
  by (simp_all add: rotations_def)

text \<open>
  What failover over \<open>k\<close> URLs is to do with the replies: rotate past errors of transport only,
  return the first success, and throw the last error, which is not one of transport unless
  every URL was tried.
\<close>

definition failover_result :: "env \<Rightarrow> (thrown \<Rightarrow> thrown) \<Rightarrow> nat \<Rightarrow> thrown + 'a \<Rightarrow> (thrown + 'a) list \<Rightarrow> nat \<Rightarrow> bool" where
  "failover_result E wrap k r as n \<longleftrightarrow>
     (\<exists>early. (\<forall>x\<in>set early. \<exists>e. x = Inl e \<and> e_transport E e) \<and> length early = n \<and> n < k \<and>
       ((\<exists>x. as = early @ [Inr x] \<and> r = Inr x) \<or>
        (\<exists>e. as = early @ [Inl e] \<and> r = Inl (wrap e) \<and> (\<not> e_transport E e \<or> length as = k))))"

lemma failover_result_later:
  assumes "failover_result E wrap k r as n" and "e_transport E e"
  shows "failover_result E wrap (Suc k) r (Inl e # as) (Suc n)"
proof -
  obtain early where early: "\<forall>x\<in>set early. \<exists>e. x = Inl e \<and> e_transport E e" "length early = n" "n < k"
    and c: "(\<exists>x. as = early @ [Inr x] \<and> r = Inr x) \<or>
        (\<exists>e. as = early @ [Inl e] \<and> r = Inl (wrap e) \<and> (\<not> e_transport E e \<or> length as = k))"
    using assms(1) by (auto simp: failover_result_def)
  then show ?thesis using assms(2) unfolding failover_result_def
    by (intro exI [of _ "Inl e # early"]) auto
qed

lemma failover_replies:
  assumes m: "\<And>v. \<exists>a. P a \<and> (\<forall>e. a \<noteq> ARotate e) \<and> m v = (f (w_log v @ [(a, w_heap v)]), record_action a v)"
    and rot: "\<And>e. \<not> P (ARotate e)"
  shows "failover E wrap fin m urls k attempt lastErr w = (r, w') \<Longrightarrow> attempt + k = urls \<Longrightarrow> 0 < k \<Longrightarrow>
    \<exists>new. w_log w' = w_log w @ new \<and> failover_result E wrap k r (replies P f (w_log w) new) (rotations new)"
proof (induction k arbitrary: attempt lastErr w)
  case (Suc k)
  obtain a where a: "P a" "\<forall>e. a \<noteq> ARotate e" "m w = (f (w_log w @ [(a, w_heap w)]), record_action a w)"
    using m by blast
  let ?x = "(a, w_heap w)"
  let ?y = "f (w_log w @ [?x])"
  show ?case
  proof (cases ?y)
    case (Inr z)
    then have "r = Inr z" "w_log w' = w_log w @ [?x]" using Suc.prems(1) a by (auto simp: eff_eval)
    then show ?thesis using a Inr by (intro exI [of _ "[?x]"]) (simp add: failover_result_def)
  next
    case (Inl e)
    show ?thesis
    proof (cases "\<not> e_transport E e \<or> int attempt = int urls - 1")
      case True
      then have "r = Inl (wrap e)" "w_log w' = w_log w @ [?x]" using Suc.prems(1) a Inl by (auto simp: eff_eval)
      then show ?thesis using a Inl True Suc.prems(2)
        by (intro exI [of _ "[?x]"]) (auto simp: failover_result_def)
    next
      case False
      let ?v = "record_action (ARotate e) (record_action a w)"
      have "failover E wrap fin m urls k (attempt + 1) (Some e) ?v = (r, w')"
        using False Suc.prems(1) a Inl by (simp add: eff_eval)
      moreover have "0 < k" using False Suc.prems(2) by (cases k) auto
      ultimately obtain new where new: "w_log w' = w_log ?v @ new"
        "failover_result E wrap k r (replies P f (w_log ?v) new) (rotations new)"
        using Suc.IH Suc.prems(2) by (metis add_Suc_right add_Suc_shift Suc_eq_plus1)
      then show ?thesis using failover_result_later [OF new(2)] False a rot Inl
        by (intro exI [of _ "[?x, (ARotate e, w_heap w)] @ new"]) (simp add: replies_append)
    qed
  qed
qed simp

lemma with_failover_replies:
  assumes "\<And>v. \<exists>a. P a \<and> (\<forall>e. a \<noteq> ARotate e) \<and> m v = (f (w_log v @ [(a, w_heap v)]), record_action a v)"
    and "\<And>e. \<not> P (ARotate e)" and "with_failover E dep wrap fin m w = (r, w')"
  shows "\<exists>new. w_log w' = w_log w @ new \<and>
    failover_result E wrap (rpc_total dep) r (replies P f (w_log w) new) (rotations new)"
proof -
  have "failover E wrap fin m (rpc_total dep) (rpc_total dep) 0 None w = (r, w')"
    using assms(3) by (simp add: with_failover_def rpc_total_def Let_def max_def)
  from failover_replies [OF assms(1,2) this] show ?thesis by (simp add: rpc_total_def)
qed

end
