(* ===== verification/Soroban_Invoke.thy ===== *)
theory Soroban_Invoke imports Soroban_World begin

text \<open>
  \<^verbatim>\<open>src/api/soroban-client.ts\<close>, the write pipeline \<^verbatim>\<open>invokeContract\<close> (build, simulate,
  assemble, sign, send, poll), the read pipeline \<^verbatim>\<open>invokeRead\<close> and \<^verbatim>\<open>recheckTransaction\<close>, with
  the safety of the signer, of sending, of the receipts and of the errors.
\<close>

section \<open>Definitions\<close>

definition BASE_FEE :: string where
  "BASE_FEE = ''10000''"

definition POLL_INTERVAL_MS :: nat where
  "POLL_INTERVAL_MS = 1500"

definition POLL_ATTEMPTS :: nat where
  "POLL_ATTEMPTS = 30"

definition READ_SIM_SOURCE :: "string \<Rightarrow> string" where
  "READ_SIM_SOURCE network =
     (if network = ''testnet'' then ''GAEPPLTQ4OIBG4J6DSI33FDYBB7YCKWOT36DNVLNOV65PIVSBAVSGXLS''
      else ''GA5XIGA5C7QTPTWXQHY6MCJRMTRZDOSHR6EFIBNDQTCQHG262N7CBT4P'')"

text \<open>\<^verbatim>\<open>emitReceipt({ ... emittedAt: Date.now() })\<close>\<close>

definition emitReceipt :: "env \<Rightarrow> string \<Rightarrow> string \<Rightarrow> int option \<Rightarrow> receipt_status \<Rightarrow> receipt io" where
  "emitReceipt E m hash ledger st = (\<lambda>w.
     let rc = \<lparr>rc_method = m, rc_txHash = hash, rc_ledger = ledger, rc_explorerUrl = e_explorer E hash,
        rc_status = st, rc_emittedAt = e_now E (w_log w)\<rparr>
     in (Inr rc, record_action (AReceipt rc) w))"

text \<open>The server of a call: captured once (\<open>Some\<close>) or resolved at each use (\<open>None\<close>).\<close>

definition server_of :: "env \<Rightarrow> string option \<Rightarrow> string io" where
  "server_of E srv = (case srv of Some s \<Rightarrow> ret s | None \<Rightarrow> rpcServer E)"

fun poll :: "env \<Rightarrow> string option \<Rightarrow> string \<Rightarrow> string \<Rightarrow> nat \<Rightarrow> (xdr option \<times> receipt) io" where
  "poll E srv m hash 0 =
     seqM (emitReceipt E m hash None RPending) (\<lambda>_. throw (Soroban (pollTimeoutError m hash)))"
| "poll E srv m hash (Suc k) =
     seqM (act (ASleep POLL_INTERVAL_MS) ()) (\<lambda>_.
     seqM (server_of E srv) (\<lambda>s.
     seqM (attemptM (ask (AGetTx s hash) (e_getTx E))) (\<lambda>r.
       case r of
         Inl e \<Rightarrow> poll E srv m hash k
       | Inr got \<Rightarrow>
           if g_status got = ''NOT_FOUND'' then poll E srv m hash k
           else if g_status got = ''SUCCESS'' then
             seqM (emitReceipt E m hash (g_ledger got) RSuccess) (\<lambda>rc. ret (g_returnValue got, rc))
           else if g_status got = ''FAILED'' then
             seqM (emitReceipt E m hash None RFailed) (\<lambda>_. throw (Soroban (onChainError m hash)))
           else poll E srv m hash k)))"

text \<open>Phase 1: the source account, the contract, the envelope.\<close>

definition build_call :: "env \<Rightarrow> string \<Rightarrow> string \<Rightarrow> xdr list \<Rightarrow> xdr io" where
  "build_call E ownerPublicKey m params =
     seqM (loadAccount E ownerPublicKey) (\<lambda>source.
     seqM (getActiveDeployment E) (\<lambda>dep.
     seqM (liftM (e_contract E (d_contractId dep))) (\<lambda>_.
     liftM (e_build E \<lparr>rq_source = source, rq_fee = BASE_FEE, rq_passphrase = d_passphrase dep, rq_data = None,
       rq_op = CallOp (d_contractId dep) m params, rq_timeout = 60\<rparr>))))"

text \<open>\<^verbatim>\<open>Keypair.fromSecret(seed)\<close>: a fresh keypair in memory.\<close>

definition fromSecret :: "env \<Rightarrow> string \<Rightarrow> nat io" where
  "fromSecret E seed = (\<lambda>w. case e_fromSecret E seed (w_heap w) of
      Inl e \<Rightarrow> (Inl e, w)
    | Inr (i, k, bufs) \<Rightarrow>
        let w' = w\<lparr>w_heap := (w_heap w)\<lparr>h_bufs := bufs, h_kps := (h_kps (w_heap w))(i := Some k)\<rparr>\<rparr>
        in (Inr i, record_action (AKeypair i k) w'))"

definition view_bytes :: "heap \<Rightarrow> view option \<Rightarrow> byte list" where
  "view_bytes h v = (case v of None \<Rightarrow> [] | Some v \<Rightarrow>
     (case h_bufs h (v_buf v) of None \<Rightarrow> [] | Some bs \<Rightarrow> take (v_len v) (drop (v_off v) bs)))"

text \<open>\<^verbatim>\<open>tx.sign(signer)\<close>: reads the secret fields of the keypair as they are now.\<close>

definition sign_tx :: "env \<Rightarrow> xdr \<Rightarrow> nat \<Rightarrow> xdr io" where
  "sign_tx E tx i = (\<lambda>w. case h_kps (w_heap w) i of
      None \<Rightarrow> (Inl (JsError ''no keypair''), w)
    | Some k \<Rightarrow> (e_sign E tx (view_bytes (w_heap w) (kp_secretSeed k)) (view_bytes (w_heap w) (kp_secretKey k)), w))"

definition wipe_signer :: "nat \<Rightarrow> world \<Rightarrow> world" where
  "wipe_signer i w = w\<lparr>w_heap := effect_of (wipeKeypair (Some i)) (w_heap w)\<rparr>"

definition is_wallet_not_connected :: "thrown \<Rightarrow> bool" where
  "is_wallet_not_connected e = (case e of Soroban s \<Rightarrow> se_class s = WalletNotConnected | _ \<Rightarrow> False)"

text \<open>Phase 4: resolve the signer, sign, wipe on both exits, categorise the errors.\<close>

definition sign_phase :: "env \<Rightarrow> string \<Rightarrow> xdr \<Rightarrow> xdr io" where
  "sign_phase E m assembled =
     catchM
       (seqM (ask ALoadSigner (e_loadSigner E)) (\<lambda>kp.
         case kp of
           None \<Rightarrow> throw (Soroban (walletNotConnectedError m))
         | Some secretSeed \<Rightarrow>
             seqM (fromSecret E secretSeed) (\<lambda>signer.
               finallyM (sign_tx E assembled signer) (wipe_signer signer))))
       (\<lambda>e. if is_wallet_not_connected e then throw e else throw (Soroban (signError m e)))"

text \<open>Phase 5: send, and what the response means.\<close>

definition send_phase :: "env \<Rightarrow> string \<Rightarrow> string \<Rightarrow> xdr \<Rightarrow> string io" where
  "send_phase E server m envelope =
     seqM (catchM (ask (ASend server envelope) (e_send E)) (\<lambda>e. throw (Soroban (networkError m PSend e)))) (\<lambda>sendRes.
       if sr_status sendRes = ''ERROR'' \<or> sr_status sendRes = ''DUPLICATE'' then
         (let detail = (if sr_status sendRes = ''ERROR'' \<and> truthy (sr_errorName sendRes)
                        then the (sr_errorName sendRes) else sr_status sendRes)
          in throw (Soroban (sendError m detail (Some (sr_hash sendRes)))))
       else ret (sr_hash sendRes))"

text \<open>Phases 1 to 4: everything before the network is asked to change anything.\<close>

definition prepare :: "env \<Rightarrow> string \<Rightarrow> string \<Rightarrow> string \<Rightarrow> xdr list \<Rightarrow> xdr io" where
  "prepare E server ownerPublicKey m params =
     seqM (catchM (build_call E ownerPublicKey m params) (\<lambda>e. throw (Soroban (networkError m PBuild e)))) (\<lambda>tx.
     seqM (catchM (ask (ASimulate server tx) (e_simulate E)) (\<lambda>e. throw (Soroban (networkError m PSimulate e)))) (\<lambda>sim.
       case sim of
         SimError err \<Rightarrow> throw (Soroban (simulationError m err))
       | SimSuccess _ _ _ \<Rightarrow>
           seqM (catchM (liftM (e_assemble E tx sim))
             (\<lambda>e. throw (Soroban (simulationError m (''Could not assemble simulated transaction: '' @ err_text e))))) (\<lambda>assembled.
           sign_phase E m assembled)))"

definition invokeContract :: "env \<Rightarrow> string \<Rightarrow> string \<Rightarrow> xdr list \<Rightarrow> (xdr option \<times> receipt) io" where
  "invokeContract E ownerPublicKey m params =
     seqM (rpcServer E) (\<lambda>server.
     seqM (prepare E server ownerPublicKey m params) (\<lambda>envelope.
     seqM (send_phase E server m envelope) (\<lambda>txHash.
     poll E (Some server) m txHash POLL_ATTEMPTS)))"

definition invokeRead :: "env \<Rightarrow> string \<Rightarrow> xdr list \<Rightarrow> xdr io" where
  "invokeRead E m params =
     seqM (getActiveDeployment E) (\<lambda>dep.
     seqM (catchM (loadAccount E (READ_SIM_SOURCE (d_network dep))) (\<lambda>e. throw (Soroban (networkError m PBuild e)))) (\<lambda>source.
     seqM (liftM (e_contract E (d_contractId dep))) (\<lambda>_.
     seqM (catchM (liftM (e_build E \<lparr>rq_source = source, rq_fee = BASE_FEE, rq_passphrase = d_passphrase dep,
         rq_data = None, rq_op = CallOp (d_contractId dep) m params, rq_timeout = 60\<rparr>))
       (\<lambda>e. throw (Soroban (networkError m PBuild e)))) (\<lambda>tx.
     seqM (with_failover E dep (\<lambda>e. Soroban (networkError m PSimulate e))
         (\<lambda>l. Soroban (networkError m PSimulate (coalesce l (JsValue ''undefined''))))
         (seqM (rpcServer E) (\<lambda>server. ask (ASimulate server tx) (e_simulate E)))) (\<lambda>sim.
       case sim of
         SimError err \<Rightarrow> throw (Soroban (simulationError m err))
       | SimSuccess _ result _ \<Rightarrow>
           (case result of
              None \<Rightarrow> throw (Soroban (simulationError m ''Empty simulation result''))
            | Some retval \<Rightarrow> ret retval))))))"

definition recheckTransaction :: "env \<Rightarrow> string \<Rightarrow> string \<Rightarrow> (receipt_status \<times> int option) io" where
  "recheckTransaction E m txHash =
     seqM (rpcServer E) (\<lambda>server.
     seqM (catchM (ask (AGetTx server txHash) (e_getTx E)) (\<lambda>e. throw (Soroban (networkError m PPoll e)))) (\<lambda>got.
       if g_status got = ''SUCCESS'' then
         seqM (emitReceipt E m txHash (g_ledger got) RSuccess) (\<lambda>_. ret (RSuccess, g_ledger got))
       else if g_status got = ''FAILED'' then
         seqM (emitReceipt E m txHash None RFailed) (\<lambda>_. ret (RFailed, None))
       else ret (RPending, None)))"

section \<open>What each phase does to the log and to the memory\<close>

lemma seqM_cases:
  assumes "seqM m f w = (r, w')"
  obtains (throws) e where "m w = (Inl e, w')" and "r = Inl e"
    | (goes_on) x v where "m w = (Inr x, v)" and "f x v = (r, w')"
  using assms by (cases "m w"; cases "fst (m w)") (auto simp: seqM_def)

lemma catchM_cases:
  assumes "catchM m h w = (r, w')"
  obtains (returns) x where "m w = (Inr x, w')" and "r = Inr x"
    | (catches) e v where "m w = (Inl e, v)" and "h e v = (r, w')"
  using assms by (cases "m w"; cases "fst (m w)") (auto simp: catchM_def)

lemma emitReceipt_log:
  "emitReceipt E m hash l st w = (r, w') \<Longrightarrow>
    \<exists>rc. r = Inr rc \<and> w_log w' = w_log w @ [(AReceipt rc, w_heap w)] \<and> w_heap w' = w_heap w \<and>
      rc_status rc = st \<and> rc_method rc = m \<and> rc_txHash rc = hash \<and> rc_ledger rc = l"
  by (auto simp: emitReceipt_def Let_def)

lemma appends_emitReceipt [appends_intro]: "(\<And>rc h. P (AReceipt rc, h)) \<Longrightarrow> appends P (emitReceipt E m hash l st)"
  by (simp add: appends_def emitReceipt_def Let_def)

lemma keeps_emitReceipt: "keeps (\<lambda>w. w_heap w = h) (emitReceipt E m hash l st)"
  by (simp add: keeps_def emitReceipt_def Let_def)

lemma appends_server_of [appends_intro]: "appends P (server_of E srv)"
  by (auto simp: server_of_def intro: appends_intro split: option.splits)

lemma server_of_eval: "server_of E srv w = (Inr (case srv of Some s \<Rightarrow> s | None \<Rightarrow> e_url E (w_log w)), w)"
  by (simp add: server_of_def rpcServer_def eff_eval split: option.splits)

lemma appends_build_call:
  "(\<And>s h. P (AGetAccount s pk, h)) \<Longrightarrow> (\<And>e h. P (ARotate e, h)) \<Longrightarrow> appends P (build_call E pk m params)"
  by (auto simp: build_call_def intro!: appends_intro appends_loadAccount)

lemma keeps_heap_build_call: "keeps (\<lambda>w. w_heap w = h) (build_call E pk m params)"
  by (auto simp: build_call_def getActiveDeployment_def intro!: keeps_intro keeps_heap_loadAccount)

definition wiped :: "keypair \<Rightarrow> heap \<Rightarrow> bool" where
  "wiped k h \<longleftrightarrow> (\<forall>l\<in>secret_region k. byte_at h l = None \<or> byte_at h l = Some 0)"

lemma wiped_wipe_signer:
  assumes "h_kps (w_heap w) i = Some k"
  shows "wiped k (w_heap (wipe_signer i w))"
  by (auto simp: wiped_def wipe_signer_def effect_of_def byte_at_wipeKeypair [OF assms])

lemma sign_tx_world: "snd (sign_tx E tx i w) = w"
  by (simp add: sign_tx_def split: option.splits)

text \<open>The sign phase once the key is made: the signature is made, then the key is wiped.\<close>

lemma sign_phase_signed:
  assumes "sign_phase E m tx w = (r, w')"
    and "e_loadSigner E (w_log (record_action ALoadSigner w)) = Inr (Some seed)"
    and "e_fromSecret E seed (w_heap (record_action ALoadSigner w)) = Inr (i, k, bufs)"
  defines "w2 \<equiv> record_action (AKeypair i k) ((record_action ALoadSigner w)\<lparr>w_heap :=
    (w_heap (record_action ALoadSigner w))\<lparr>h_bufs := bufs, h_kps := (h_kps (w_heap (record_action ALoadSigner w)))(i := Some k)\<rparr>\<rparr>)"
  shows "w' = wipe_signer i w2 \<and>
    (\<forall>tx'. r = Inr tx' \<longrightarrow> e_sign E tx (view_bytes (w_heap w2) (kp_secretSeed k)) (view_bytes (w_heap w2) (kp_secretKey k)) = Inr tx')"
proof -
  let ?h = "\<lambda>e. if is_wallet_not_connected e then throw e else throw (Soroban (signError m e)) :: (world, thrown, xdr) eff"
  let ?s = "e_sign E tx (view_bytes (w_heap w2) (kp_secretSeed k)) (view_bytes (w_heap w2) (kp_secretKey k))"
  have "h_kps (w_heap w2) i = Some k" by (simp add: w2_def)
  then have "finallyM (sign_tx E tx i) (wipe_signer i) w2 = (?s, wipe_signer i w2)"
    by (simp add: finallyM_eval sign_tx_def)
  moreover have "fromSecret E seed (record_action ALoadSigner w) = (Inr i, w2)"
    using assms(3) by (simp add: fromSecret_def Let_def w2_def)
  moreover have "ask ALoadSigner (e_loadSigner E) w = (Inr (Some seed), record_action ALoadSigner w)"
    using assms(2) by (simp add: ask_eval)
  ultimately have "(case (?s, wipe_signer i w2) of (Inl e, v) \<Rightarrow> ?h e v | (Inr x, v) \<Rightarrow> (Inr x, v)) = (r, w')"
    using assms(1) by (simp only: sign_phase_def catchM_eval seqM_eval prod.case sum.case option.case)
  then show ?thesis by (auto simp: throw_eval split: sum.splits if_splits)
qed

text \<open>The sign phase, case by case.\<close>

lemma sign_phase_cases:
  assumes "sign_phase E m tx w = (r, w')"
  defines "w1 \<equiv> record_action ALoadSigner w"
  obtains (no_signer) e where "r = Inl e" and "w' = w1"
    | (signer) seed i k bufs w2 where "e_loadSigner E (w_log w1) = Inr (Some seed)"
      and "e_fromSecret E seed (w_heap w1) = Inr (i, k, bufs)"
      and "w2 = record_action (AKeypair i k)
        (w1\<lparr>w_heap := (w_heap w1)\<lparr>h_bufs := bufs, h_kps := (h_kps (w_heap w1))(i := Some k)\<rparr>\<rparr>)"
      and "w' = wipe_signer i w2"
      and "\<And>tx'. r = Inr tx' \<Longrightarrow> e_sign E tx (view_bytes (w_heap w2) (kp_secretSeed k)) (view_bytes (w_heap w2) (kp_secretKey k)) = Inr tx'"
proof -
  let ?h = "\<lambda>e. if is_wallet_not_connected e then throw e else throw (Soroban (signError m e)) :: (world, thrown, xdr) eff"
  have h: "\<exists>e'. ?h e v = (Inl e', v)" for e v by (simp add: throw_eval)
  show ?thesis
  proof (cases "e_loadSigner E (w_log w1)")
    case (Inl e)
    then have "?h e w1 = (r, w')" using assms(1)
      by (simp add: sign_phase_def catchM_eval seqM_eval ask_eval w1_def)
    then show ?thesis using no_signer h [of e w1] by auto
  next
    case (Inr kp)
    note kp = Inr
    show ?thesis
    proof (cases kp)
      case None
      then have "?h (Soroban (walletNotConnectedError m)) w1 = (r, w')" using assms(1) kp
        by (simp add: sign_phase_def catchM_eval seqM_eval ask_eval throw_eval w1_def)
      then show ?thesis using no_signer h [of _ w1] by (metis prod.inject)
    next
      case (Some seed)
      show ?thesis
      proof (cases "e_fromSecret E seed (w_heap w1)")
        case (Inl e)
        then have "?h e w1 = (r, w')" using assms(1) kp Some
          by (simp add: sign_phase_def catchM_eval seqM_eval ask_eval fromSecret_def w1_def)
        then show ?thesis using no_signer h [of e w1] by auto
      next
        case (Inr q)
        obtain i k bufs where q: "q = (i, k, bufs)" by (cases q)
        show ?thesis
          using signer [OF kp [unfolded Some] Inr [unfolded q] refl] sign_phase_signed [OF assms(1)] kp Some Inr q
          unfolding w1_def by blast
      qed
    qed
  qed
qed

text \<open>The entries that reading makes: no key, no envelope, no receipt.\<close>

fun reading :: "action \<Rightarrow> bool" where
  "reading (AGetAccount _ _) = True"
| "reading (ASimulate _ _) = True"
| "reading (ARotate _) = True"
| "reading _ = False"

fun at_server :: "string \<Rightarrow> action \<Rightarrow> bool" where
  "at_server s (ASimulate s' _) = (s' = s)"
| "at_server s (ASend s' _) = (s' = s)"
| "at_server s (AGetTx s' _) = (s' = s)"
| "at_server s _ = True"

definition calm :: "string \<Rightarrow> entry \<Rightarrow> bool" where
  "calm s x \<longleftrightarrow> reading (fst x) \<and> at_server s (fst x)"

lemma calm_simps [simp]:
  "calm s (AGetAccount a b, h)" "calm s (ARotate e, h)" "calm s (ASimulate s' t, h) \<longleftrightarrow> s' = s"
  by (auto simp: calm_def)

text \<open>\<open>prepare\<close> past the built transaction, by what the simulation and the assembly answer.\<close>

lemma prepare_run:
  fixes server :: string
  assumes build: "build_call E pk m params w = (Inr tx, v)"
  defines "u \<equiv> record_action (ASimulate server tx) v"
  shows "e_simulate E (w_log u) = Inl e \<Longrightarrow> prepare E server pk m params w = (Inl (Soroban (networkError m PSimulate e)), u)"
    and "e_simulate E (w_log u) = Inr (SimError err) \<Longrightarrow>
      prepare E server pk m params w = (Inl (Soroban (simulationError m err)), u)"
    and "e_simulate E (w_log u) = Inr (SimSuccess d rv p) \<Longrightarrow> e_assemble E tx (SimSuccess d rv p) = Inl e \<Longrightarrow>
      prepare E server pk m params w =
        (Inl (Soroban (simulationError m (''Could not assemble simulated transaction: '' @ err_text e))), u)"
    and "e_simulate E (w_log u) = Inr (SimSuccess d rv p) \<Longrightarrow> e_assemble E tx (SimSuccess d rv p) = Inr a \<Longrightarrow>
      prepare E server pk m params w = sign_phase E m a u"
proof -
  have asked: "ask (ASimulate server tx) (e_simulate E) v = (e_simulate E (w_log u), u)" by (simp add: ask_def u_def Let_def)
  note run = prepare_def seqM_eval [of "catchM (build_call E pk m params) _"] build prod.case sum.case catchM_eval
    seqM_eval [of "catchM (ask (ASimulate server tx) (e_simulate E)) _"] asked sim.case throw_eval
    seqM_eval [of "catchM (liftM _) _"] liftM_eval
  show "prepare E server pk m params w = (Inl (Soroban (networkError m PSimulate e)), u)" if "e_simulate E (w_log u) = Inl e"
    by (simp only: run that)
  show "prepare E server pk m params w = (Inl (Soroban (simulationError m err)), u)" if "e_simulate E (w_log u) = Inr (SimError err)"
    by (simp only: run that)
  show "prepare E server pk m params w =
      (Inl (Soroban (simulationError m (''Could not assemble simulated transaction: '' @ err_text e))), u)"
    if "e_simulate E (w_log u) = Inr (SimSuccess d rv p)" "e_assemble E tx (SimSuccess d rv p) = Inl e"
    by (simp only: run that)
  show "prepare E server pk m params w = sign_phase E m a u"
    if "e_simulate E (w_log u) = Inr (SimSuccess d rv p)" "e_assemble E tx (SimSuccess d rv p) = Inr a"
    by (simp only: run that)
qed

text \<open>\<open>prepare\<close> stops early with a categorised error, or hands the assembled call to the sign phase.\<close>

lemma prepare_cases:
  assumes "prepare E server pk m params w = (r, w')"
  obtains (early) s where "r = Inl (Soroban s)" and "se_method s = m" and "se_class s \<in> {Network, Simulation}"
      and "se_retryable s = (se_class s = Network)" and "se_phase s \<in> {PBuild, PSimulate}"
      and "\<exists>new. w_log w' = w_log w @ new \<and> (\<forall>x\<in>set new. calm server x)" and "w_heap w' = w_heap w"
    | (signs) tx a b c assembled new v where "e_simulate E (w_log v) = Inr (SimSuccess a b c)"
      and "e_assemble E tx (SimSuccess a b c) = Inr assembled"
      and "w_log v = w_log w @ new @ [(ASimulate server tx, w_heap w)]" and "\<forall>x\<in>set new. calm server x"
      and "w_heap v = w_heap w" and "sign_phase E m assembled v = (r, w')"
proof -
  obtain q v where b: "build_call E pk m params w = (q, v)" by (cases "build_call E pk m params w")
  obtain new where new: "w_log v = w_log w @ new" "\<forall>x\<in>set new. calm server x"
    using appendsD [OF appends_build_call [where P = "calm server"] b] by auto
  have h: "w_heap v = w_heap w" using keeps_result [OF keeps_heap_build_call refl b] .
  show thesis
  proof (cases q)
    case (Inl e)
    then have "r = Inl (Soroban (networkError m PBuild e))" "w' = v"
      using assms b by (simp_all add: prepare_def seqM_eval catchM_eval throw_eval)
    then show thesis using early new h by (auto simp: networkError_def)
  next
    case (Inr tx)
    let ?u = "record_action (ASimulate server tx) v"
    have u: "w_log ?u = w_log w @ new @ [(ASimulate server tx, w_heap w)]" "w_heap ?u = w_heap w" by (simp_all add: new h)
    have calm: "\<exists>new. w_log ?u = w_log w @ new \<and> (\<forall>x\<in>set new. calm server x)"
      using u new by (intro exI [of _ "new @ [(ASimulate server tx, w_heap w)]"]) auto
    note run = prepare_run [OF b [unfolded Inr], of server]
    consider (fails) e where "e_simulate E (w_log ?u) = Inl e" | (error) err where "e_simulate E (w_log ?u) = Inr (SimError err)"
      | (success) d rv p where "e_simulate E (w_log ?u) = Inr (SimSuccess d rv p)" by (metis sum.exhaust sim.exhaust)
    then show thesis
    proof cases
      case (success d rv p)
      then show thesis
        using run(3,4) [OF success] signs [OF success _ u(1) new(2) u(2)] assms early calm u(2)
        by (cases "e_assemble E tx (SimSuccess d rv p)") (auto simp: simulationError_def simp del: record_action_simps)
    qed (use run(1,2) assms early calm u(2) in \<open>auto simp: networkError_def simulationError_def simp del: record_action_simps\<close>)
  qed
qed

text \<open>The whole of \<open>prepare\<close>: what it logs, and that every key it made is wiped when it ends.\<close>

definition no_send :: "entry \<Rightarrow> bool" where
  "no_send x \<longleftrightarrow> (case fst x of ASend _ _ \<Rightarrow> False | AGetTx _ _ \<Rightarrow> False | AReceipt _ \<Rightarrow> False | _ \<Rightarrow> True)"

lemma calm_no_send: "calm s x \<Longrightarrow> no_send x"
  by (cases "fst x") (auto simp: calm_def no_send_def)

lemma calm_no_key: "calm s x \<Longrightarrow> fst x \<noteq> AKeypair i k"
  by (auto simp: calm_def)

lemma prepare_log:
  assumes "prepare E server pk m params w = (r, w')"
  shows "\<exists>new. w_log w' = w_log w @ new \<and> (\<forall>x\<in>set new. no_send x \<and> at_server server (fst x)) \<and>
    (\<forall>i k h. (AKeypair i k, h) \<in> set new \<longrightarrow> wiped k (w_heap w'))"
  using assms
proof (cases rule: prepare_cases)
  case (early s)
  then show ?thesis using calm_no_send calm_no_key by (fastforce simp: calm_def)
next
  case (signs tx a b c assembled new v)
  have n: "\<forall>x\<in>set (new @ [(ASimulate server tx, w_heap w)]). no_send x \<and> at_server server (fst x) \<and> (\<forall>i k. fst x \<noteq> AKeypair i k)"
    using signs(4) calm_no_send calm_no_key by (fastforce simp: calm_def no_send_def)
  from signs(6) show ?thesis
  proof (cases rule: sign_phase_cases)
    case (no_signer e)
    show ?thesis
      by (rule exI [of _ "(new @ [(ASimulate server tx, w_heap w)]) @ [(ALoadSigner, w_heap v)]"])
        (use n no_signer signs(3) in \<open>auto simp: no_send_def\<close>)
  next
    case (signer seed i k bufs w2)
    have "wiped k (w_heap w')" unfolding signer(4) by (rule wiped_wipe_signer) (simp add: signer(3))
    moreover have "\<exists>h. w_log w' = (w_log w @ new @ [(ASimulate server tx, w_heap w)]) @ [(ALoadSigner, w_heap v), (AKeypair i k, h)]"
      using signs(3) by (simp add: signer(3,4) wipe_signer_def)
    then obtain h where "w_log w' = (w_log w @ new @ [(ASimulate server tx, w_heap w)]) @ [(ALoadSigner, w_heap v), (AKeypair i k, h)]"
      by blast
    ultimately show ?thesis using n
      by (intro exI [of _ "(new @ [(ASimulate server tx, w_heap w)]) @ [(ALoadSigner, w_heap v), (AKeypair i k, h)]"])
        (auto simp: no_send_def)
  qed
qed

section \<open>Polling\<close>

fun receipts :: "history \<Rightarrow> receipt list" where
  "receipts [] = []"
| "receipts (x # hs) = (case fst x of AReceipt rc \<Rightarrow> rc # receipts hs | _ \<Rightarrow> receipts hs)"

lemma receipts_append [simp]: "receipts (xs @ ys) = receipts xs @ receipts ys"
  by (induction xs) (auto split: action.splits)

text \<open>The answers to the polls among the entries that follow a history.\<close>

fun answers :: "env \<Rightarrow> history \<Rightarrow> history \<Rightarrow> (thrown + get_response) list" where
  "answers E hs [] = []"
| "answers E hs (x # new) =
     (case fst x of AGetTx _ _ \<Rightarrow> e_getTx E (hs @ [x]) # answers E (hs @ [x]) new | _ \<Rightarrow> answers E (hs @ [x]) new)"

lemma answers_append: "answers E hs (xs @ ys) = answers E hs xs @ answers E (hs @ xs) ys"
  by (induction xs arbitrary: hs) (auto split: action.splits)

definition decisive :: "thrown + get_response \<Rightarrow> bool" where
  "decisive a \<longleftrightarrow> (case a of Inl _ \<Rightarrow> False | Inr g \<Rightarrow> g_status g = ''SUCCESS'' \<or> g_status g = ''FAILED'')"

text \<open>
  What polling is to do with the answers \<open>as\<close> of at most \<open>n\<close> polls: return the first decisive
  one, or give up after \<open>n\<close>; one receipt with the matching status in each case.
\<close>

definition poll_result :: "string \<Rightarrow> string \<Rightarrow> nat \<Rightarrow> thrown + xdr option \<times> receipt \<Rightarrow>
    (thrown + get_response) list \<Rightarrow> receipt list \<Rightarrow> bool" where
  "poll_result m hash n r as rcs \<longleftrightarrow>
     (\<exists>rc. rcs = [rc] \<and> rc_method rc = m \<and> rc_txHash rc = hash \<and>
       ((\<exists>early g. as = early @ [Inr g] \<and> length as \<le> n \<and> (\<forall>x\<in>set early. \<not> decisive x) \<and>
           g_status g = ''SUCCESS'' \<and> rc_status rc = RSuccess \<and> rc_ledger rc = g_ledger g \<and>
           r = Inr (g_returnValue g, rc)) \<or>
        (\<exists>early g. as = early @ [Inr g] \<and> length as \<le> n \<and> (\<forall>x\<in>set early. \<not> decisive x) \<and>
           g_status g = ''FAILED'' \<and> rc_status rc = RFailed \<and> r = Inl (Soroban (onChainError m hash))) \<or>
        (length as = n \<and> (\<forall>x\<in>set as. \<not> decisive x) \<and> rc_status rc = RPending \<and>
           r = Inl (Soroban (pollTimeoutError m hash)))))"

lemma poll_result_later:
  assumes "poll_result m hash n r as rcs" and "\<not> decisive a"
  shows "poll_result m hash (Suc n) r (a # as) rcs"
proof -
  obtain rc where rc: "rcs = [rc]" "rc_method rc = m" "rc_txHash rc = hash" and
    c: "(\<exists>early g. as = early @ [Inr g] \<and> length as \<le> n \<and> (\<forall>x\<in>set early. \<not> decisive x) \<and>
           g_status g = ''SUCCESS'' \<and> rc_status rc = RSuccess \<and> rc_ledger rc = g_ledger g \<and>
           r = Inr (g_returnValue g, rc)) \<or>
        (\<exists>early g. as = early @ [Inr g] \<and> length as \<le> n \<and> (\<forall>x\<in>set early. \<not> decisive x) \<and>
           g_status g = ''FAILED'' \<and> rc_status rc = RFailed \<and> r = Inl (Soroban (onChainError m hash))) \<or>
        (length as = n \<and> (\<forall>x\<in>set as. \<not> decisive x) \<and> rc_status rc = RPending \<and>
           r = Inl (Soroban (pollTimeoutError m hash)))" (is "?S \<or> ?F \<or> ?T")
    using assms(1) by (auto simp: poll_result_def)
  from c show ?thesis
  proof (elim disjE)
    assume ?S
    then obtain early g where "as = early @ [Inr g] \<and> length as \<le> n \<and> (\<forall>x\<in>set early. \<not> decisive x) \<and>
        g_status g = ''SUCCESS'' \<and> rc_status rc = RSuccess \<and> rc_ledger rc = g_ledger g \<and> r = Inr (g_returnValue g, rc)"
      by blast
    with rc assms(2) show ?thesis unfolding poll_result_def
      by (intro exI [of _ rc] conjI disjI1 exI [of _ "a # early"] exI [of _ g]) auto
  next
    assume ?F
    then obtain early g where "as = early @ [Inr g] \<and> length as \<le> n \<and> (\<forall>x\<in>set early. \<not> decisive x) \<and>
        g_status g = ''FAILED'' \<and> rc_status rc = RFailed \<and> r = Inl (Soroban (onChainError m hash))"
      by blast
    with rc assms(2) show ?thesis unfolding poll_result_def
      by (intro exI [of _ rc] conjI disjI2 disjI1 exI [of _ "a # early"] exI [of _ g]) auto
  next
    assume ?T
    with rc assms(2) show ?thesis unfolding poll_result_def
      by (intro exI [of _ rc] conjI disjI2) auto
  qed
qed

definition polling :: "string option \<Rightarrow> string \<Rightarrow> entry \<Rightarrow> bool" where
  "polling srv hash x \<longleftrightarrow> (case fst x of ASleep d \<Rightarrow> d = POLL_INTERVAL_MS
     | AGetTx s h \<Rightarrow> h = hash \<and> (case srv of Some s' \<Rightarrow> s = s' | None \<Rightarrow> True) | AReceipt _ \<Rightarrow> True | _ \<Rightarrow> False)"

lemma appends_server_then:
  assumes "\<And>s. (case srv of Some s' \<Rightarrow> s = s' | None \<Rightarrow> True) \<Longrightarrow> appends P (f s)"
  shows "appends P (seqM (server_of E srv) f)"
proof (cases srv)
  case None
  then show ?thesis using assms by (auto intro!: appends_intro)
next
  case (Some s)
  then have "seqM (server_of E srv) f = f s" by (simp add: server_of_def seqM_def ret_def fun_eq_iff)
  then show ?thesis using assms [of s] Some by simp
qed

lemma appends_poll: "appends (\<lambda>x. polling srv hash x) (poll E srv m hash n)"
proof (induction n)
  case 0
  show ?case by (auto intro!: appends_intro simp: polling_def)
next
  case (Suc n)
  show ?case unfolding poll.simps
    by (intro appends_seqM appends_server_then appends_act)
      (use Suc in \<open>auto simp: polling_def intro!: appends_intro split: sum.splits option.splits\<close>)
qed

lemma keeps_heap_poll: "keeps (\<lambda>w. w_heap w = h) (poll E srv m hash n)"
  by (induction n) (auto intro!: keeps_intro keeps_emitReceipt simp: server_of_def rpcServer_def split: sum.splits option.splits)

text \<open>One round of polling: the world when the answer is there, and what it leads to.\<close>

definition polled :: "env \<Rightarrow> string option \<Rightarrow> string \<Rightarrow> world \<Rightarrow> world" where
  "polled E srv hash w = (let w1 = record_action (ASleep POLL_INTERVAL_MS) w
     in record_action (AGetTx (case srv of Some s \<Rightarrow> s | None \<Rightarrow> e_url E (w_log w1)) hash) w1)"

lemma poll_step:
  fixes hash :: string
  defines "answer \<equiv> \<lambda>E srv w. e_getTx E (w_log (polled E srv hash w))"
  shows "\<not> decisive (answer E srv w) \<Longrightarrow> poll E srv m hash (Suc n) w = poll E srv m hash n (polled E srv hash w)"
    and "answer E srv w = Inr g \<Longrightarrow> g_status g = ''SUCCESS'' \<Longrightarrow>
      poll E srv m hash (Suc n) w = seqM (emitReceipt E m hash (g_ledger g) RSuccess) (\<lambda>rc. ret (g_returnValue g, rc)) (polled E srv hash w)"
    and "answer E srv w = Inr g \<Longrightarrow> g_status g = ''FAILED'' \<Longrightarrow>
      poll E srv m hash (Suc n) w = seqM (emitReceipt E m hash None RFailed) (\<lambda>_. throw (Soroban (onChainError m hash))) (polled E srv hash w)"
  by (auto simp: answer_def polled_def Let_def seqM_eval act_eval attemptM_eval ask_eval server_of_eval decisive_def split: sum.splits)

text \<open>A decisive answer ends the polling with its receipt.\<close>

lemma poll_answered:
  assumes "decisive (e_getTx E (w_log (polled E srv hash w)))" and "poll E srv m hash (Suc n) w = (r, w')"
  shows "\<exists>rc. w_log w' = w_log (polled E srv hash w) @ [(AReceipt rc, w_heap w)] \<and>
    poll_result m hash (Suc n) r [e_getTx E (w_log (polled E srv hash w))] [rc]"
proof -
  have h: "w_heap (polled E srv hash w) = w_heap w" by (simp add: polled_def Let_def)
  obtain got where got: "e_getTx E (w_log (polled E srv hash w)) = Inr got" "g_status got = ''SUCCESS'' \<or> g_status got = ''FAILED''"
    using assms(1) by (auto simp: decisive_def split: sum.splits)
  from got(2) show ?thesis
  proof
    assume "g_status got = ''SUCCESS''"
    then show ?thesis using poll_step(2) [OF got(1)] got(1) assms(2) h
      by (auto simp: seqM_eval ret_eval emitReceipt_def Let_def poll_result_def simp del: poll.simps)
  next
    assume "g_status got = ''FAILED''"
    then show ?thesis using poll_step(3) [OF got(1)] got(1) assms(2) h
      by (auto simp: seqM_eval throw_eval emitReceipt_def Let_def poll_result_def simp del: poll.simps)
  qed
qed

lemma poll_decided:
  "poll E srv m hash n w = (r, w') \<Longrightarrow>
    \<exists>new. w_log w' = w_log w @ new \<and> poll_result m hash n r (answers E (w_log w) new) (receipts new)"
proof (induction n arbitrary: w)
  case 0
  define rc where "rc = \<lparr>rc_method = m, rc_txHash = hash, rc_ledger = None, rc_explorerUrl = e_explorer E hash,
    rc_status = RPending, rc_emittedAt = e_now E (w_log w)\<rparr>"
  have "w' = record_action (AReceipt rc) w" "r = Inl (Soroban (pollTimeoutError m hash))"
    using 0 by (auto simp: eff_eval emitReceipt_def Let_def rc_def)
  then show ?case
    by (intro exI [of _ "[(AReceipt rc, w_heap w)]"]) (simp add: poll_result_def rc_def)
next
  case (Suc n)
  let ?w2 = "polled E srv hash w"
  obtain new0 where w2: "w_log ?w2 = w_log w @ new0" and n0: "answers E (w_log w) new0 = [e_getTx E (w_log ?w2)]" "receipts new0 = []"
    by (simp add: polled_def Let_def)
  show ?case
  proof (cases "decisive (e_getTx E (w_log ?w2))")
    case True
    then obtain rc where "w_log w' = w_log ?w2 @ [(AReceipt rc, w_heap w)]" "poll_result m hash (Suc n) r [e_getTx E (w_log ?w2)] [rc]"
      using poll_answered [OF _ Suc.prems] by blast
    then show ?thesis using w2 n0 by (intro exI [of _ "new0 @ [(AReceipt rc, w_heap w)]"]) (simp add: answers_append)
  next
    case False
    then have "poll E srv m hash n ?w2 = (r, w')" using poll_step(1) Suc.prems by metis
    then obtain new where "w_log w' = w_log ?w2 @ new" "poll_result m hash n r (answers E (w_log ?w2) new) (receipts new)"
      using Suc.IH by blast
    then show ?thesis using False w2 n0
      by (intro exI [of _ "new0 @ new"]) (simp add: answers_append poll_result_later)
  qed
qed

lemma poll_next:
  fixes w :: world and s hash :: string
  defines "w2 \<equiv> record_action (AGetTx s hash) (record_action (ASleep 1500) w)"
  assumes "0 < n" and "\<not> decisive (e_getTx E (w_log w2))"
  shows "poll E (Some s) m hash n w = poll E (Some s) m hash (n - 1) w2"
  using assms(2,3) poll_step(1) [of E "Some s" hash w m "n - 1"]
  by (simp add: w2_def polled_def Let_def POLL_INTERVAL_MS_def del: poll.simps)

lemma poll_success:
  fixes w :: world and s hash :: string
  defines "w2 \<equiv> record_action (AGetTx s hash) (record_action (ASleep 1500) w)"
  assumes "0 < n" and "e_getTx E (w_log w2) = Inr g" and "g_status g = ''SUCCESS''"
  shows "poll E (Some s) m hash n w =
    seqM (emitReceipt E m hash (g_ledger g) RSuccess) (\<lambda>rc. ret (g_returnValue g, rc)) w2"
  using assms(2-) poll_step(2) [of E "Some s" hash w g m "n - 1"]
  by (simp add: w2_def polled_def Let_def POLL_INTERVAL_MS_def del: poll.simps)

text \<open>Polling is a loop with a budget: it never asks more often than it may.\<close>

definition is_getTx :: "action \<Rightarrow> bool" where
  "is_getTx a \<longleftrightarrow> (case a of AGetTx _ _ \<Rightarrow> True | _ \<Rightarrow> False)"

lemma snd_emitReceipt_throw: "\<exists>rc. snd (seqM (emitReceipt E m hash l st) f w) = snd (f rc (record_action (AReceipt rc) w))"
  by (auto simp: seqM_eval emitReceipt_def Let_def)

lemma poll_once:
  "\<exists>v. grows w v \<and> tries is_getTx w v \<le> 1 \<and>
    (snd (poll E srv m hash (Suc n) w) = snd (poll E srv m hash n v) \<or> snd (poll E srv m hash (Suc n) w) = v)"
proof -
  define s where "s = (case srv of Some s \<Rightarrow> s | None \<Rightarrow> e_url E (w_log (record_action (ASleep POLL_INTERVAL_MS) w)))"
  define w2 where "w2 = record_action (AGetTx s hash) (record_action (ASleep POLL_INTERVAL_MS) w)"
  have t: "tries is_getTx w w2 = 1" "grows w w2"
    by (simp_all add: w2_def tries_def since_def is_getTx_def grows_def)
  have t': "tries is_getTx w (record_action (AReceipt rc) w2) = 1" "grows w (record_action (AReceipt rc) w2)" for rc
    using t tries_trans [of w w2 "record_action (AReceipt rc) w2" is_getTx] grows_trans [of w w2]
    by (simp_all add: is_getTx_def)
  have "snd (poll E srv m hash (Suc n) w) = snd (poll E srv m hash n w2) \<or>
      (\<exists>rc. snd (poll E srv m hash (Suc n) w) = record_action (AReceipt rc) w2)"
    by (auto simp: seqM_eval act_eval attemptM_eval ask_eval server_of_eval s_def [symmetric] w2_def [symmetric]
        throw_eval ret_eval emitReceipt_def Let_def split: sum.splits)
  then show ?thesis using t t' by (metis order_refl)
qed

interpretation poll_budget: budgeted "\<lambda>n. poll E srv m hash n" is_getTx for E srv m hash
  by unfold_locales (simp add: seqM_eval emitReceipt_def Let_def throw_eval is_getTx_def, rule poll_once)

section \<open>The pipeline as a whole\<close>

fun sends :: "history \<Rightarrow> (string \<times> xdr) list" where
  "sends [] = []"
| "sends (x # hs) = (case fst x of ASend s t \<Rightarrow> (s, t) # sends hs | _ \<Rightarrow> sends hs)"

lemma sends_append [simp]: "sends (xs @ ys) = sends xs @ sends ys"
  by (induction xs) (auto split: action.splits)

lemma no_send_lists:
  assumes "\<forall>x\<in>set new. no_send x"
  shows "sends new = []" and "receipts new = []" and "answers E hs new = []"
proof -
  show "sends new = []" and "receipts new = []"
    using assms by (induction new) (auto simp: no_send_def split: action.splits)
  show "answers E hs new = []"
    using assms by (induction new arbitrary: hs) (auto simp: no_send_def split: action.splits)
qed

lemma polling_sends: "\<forall>x\<in>set new. polling srv hash x \<Longrightarrow> sends new = []"
  by (induction new) (auto simp: polling_def split: action.splits)

lemma send_phase_cases:
  assumes "send_phase E server m t w = (r, w')"
  obtains (fails) s where "r = Inl (Soroban s)" and "w' = record_action (ASend server t) w"
      and "(\<exists>e. s = networkError m PSend e) \<or> (\<exists>detail hash. s = sendError m detail (Some hash))"
    | (accepted) resp where "r = Inr (sr_hash resp)" and "w' = record_action (ASend server t) w"
      and "e_send E (w_log w') = Inr resp" and "sr_status resp \<notin> {''ERROR'', ''DUPLICATE''}"
  using assms
  by (auto simp: send_phase_def seqM_eval catchM_eval ask_eval throw_eval ret_eval Let_def split: sum.splits if_splits)

text \<open>A run of the pipeline: stopped before sending, stopped at sending, or sent and polled.\<close>

lemma invokeContract_cases:
  assumes "invokeContract E pk m params w = (r, w')"
  defines "server \<equiv> e_url E (w_log w)"
  obtains (unsent) e where "prepare E server pk m params w = (Inl e, w')" and "r = Inl e"
    | (rejected) t v s where "prepare E server pk m params w = (Inr t, v)" and "w' = record_action (ASend server t) v"
      and "r = Inl (Soroban s)" and "(\<exists>e. s = networkError m PSend e) \<or> (\<exists>detail hash. s = sendError m detail (Some hash))"
    | (sent) t v resp where "prepare E server pk m params w = (Inr t, v)"
      and "e_send E (w_log (record_action (ASend server t) v)) = Inr resp"
      and "poll E (Some server) m (sr_hash resp) POLL_ATTEMPTS (record_action (ASend server t) v) = (r, w')"
proof -
  have "seqM (prepare E server pk m params) (\<lambda>envelope. seqM (send_phase E server m envelope) (\<lambda>txHash.
      poll E (Some server) m txHash POLL_ATTEMPTS)) w = (r, w')"
    using assms(1) by (simp add: invokeContract_def rpcServer_def seqM_eval [of "getM _"] getM_eval server_def)
  then show ?thesis
  proof (cases rule: seqM_cases)
    case (throws e)
    then show ?thesis using unsent by blast
  next
    case (goes_on t v)
    note prep = goes_on(1)
    from goes_on(2) show ?thesis
    proof (cases rule: seqM_cases)
      case (throws e)
      from throws(1) show ?thesis
      proof (cases rule: send_phase_cases)
        case (fails s)
        then show ?thesis using rejected [OF prep] throws(2) by blast
      qed simp
    next
      case (goes_on hash v2)
      from goes_on(1) show ?thesis
      proof (cases rule: send_phase_cases)
        case (accepted resp)
        then show ?thesis using sent [OF prep] goes_on(2) by simp
      qed simp
    qed
  qed
qed

lemma since_new: "w_log w' = w_log w @ new \<Longrightarrow> since w w' = new"
  by (simp add: since_def)

lemma polled_log:
  assumes "poll E (Some server) m hash n w = (r, w')"
  shows "\<exists>new. w_log w' = w_log w @ new \<and> (\<forall>x\<in>set new. polling (Some server) hash x) \<and> w_heap w' = w_heap w \<and>
    poll_result m hash n r (answers E (w_log w) new) (receipts new)"
proof -
  obtain new where new: "w_log w' = w_log w @ new" "poll_result m hash n r (answers E (w_log w) new) (receipts new)"
    using poll_decided [OF assms] by blast
  moreover have "\<forall>x\<in>set new. polling (Some server) hash x"
    using appendsD [OF appends_poll assms] new(1) by auto
  moreover have "w_heap w' = w_heap w" using keeps_result [OF keeps_heap_poll refl assms] .
  ultimately show ?thesis by blast
qed

subsection \<open>An example environment\<close>

text \<open>
  Two RPC servers, the first of which answers no \<^verbatim>\<open>getAccount\<close>; everything else succeeds at any
  server, the transaction on the second poll. The secret key is the bytes 7, 7.
\<close>

definition demo_kp :: keypair where
  "demo_kp = \<lparr>kp_secretSeed = Some \<lparr>v_buf = 0, v_off = 0, v_len = 1\<rparr>,
     kp_secretKey = Some \<lparr>v_buf = 0, v_off = 0, v_len = 2\<rparr>, kp_frozen = False\<rparr>"

definition demo_world :: world where
  "demo_world = \<lparr>w_heap = \<lparr>h_bufs = Map.empty, h_was = Map.empty, h_kps = Map.empty, h_timers = [], h_now = 0,
     h_has_timeout = True\<rparr>, w_log = [], w_eventCache = None, w_lastSynced = None, w_simBroken = False, w_frozen = []\<rparr>"

definition demo_env :: env where
  "demo_env = \<lparr>
     e_url = (\<lambda>hs. if list_ex (\<lambda>x. case fst x of ARotate _ \<Rightarrow> True | _ \<Rightarrow> False) hs then ''r2'' else ''r1''),
     e_dep = (\<lambda>_. \<lparr>d_contractId = ''C'', d_passphrase = ''p'', d_network = ''testnet'', d_fallbacks = Some [''r2'']\<rparr>),
     e_now = (\<lambda>hs. 1000 * int (length hs)),
     e_transport = (\<lambda>e. e = JsError ''offline''),
     e_getAccount = (\<lambda>hs. case fst (last hs) of AGetAccount s _ \<Rightarrow>
         if s = ''r1'' then Inl (JsError ''offline'') else Inr \<lparr>ac_id = ''G'', ac_sequence = ''1''\<rparr>
       | _ \<Rightarrow> Inl (JsError ''no'')),
     e_simulate = (\<lambda>_. Inr (SimSuccess (Some \<lparr>sd_readOnly = [], sd_readWrite = [''k''], sd_resources = ''res''\<rparr>) (Some ''rv'') None)),
     e_send = (\<lambda>_. Inr \<lparr>sr_status = ''PENDING'', sr_errorName = None, sr_hash = ''h1''\<rparr>),
     e_getTx = (\<lambda>hs. if length (filter (\<lambda>x. case fst x of AGetTx _ _ \<Rightarrow> True | _ \<Rightarrow> False) hs) < 2
       then Inr \<lparr>g_status = ''NOT_FOUND'', g_ledger = None, g_returnValue = None\<rparr>
       else Inr \<lparr>g_status = ''SUCCESS'', g_ledger = Some 9, g_returnValue = Some ''rv''\<rparr>),
     e_getLedger = (\<lambda>_. Inr 20000),
     e_getEvents = (\<lambda>_. Inr \<lparr>ep_events = [], ep_cursor = None\<rparr>),
     e_contract = (\<lambda>_. Inr ()),
     e_build = (\<lambda>rq. Inr (''tx '' @ rq_fee rq)),
     e_assemble = (\<lambda>t s. Inr (t @ '' assembled'')),
     e_isRestore = (\<lambda>s. case s of SimError _ \<Rightarrow> False | SimSuccess d _ p \<Rightarrow> d \<noteq> None \<and> p \<noteq> None),
     e_blankData = \<lparr>sd_readOnly = [], sd_readWrite = [], sd_resources = []\<rparr>,
     e_scval = (\<lambda>_ _. Inr ''sv''),
     e_native = (\<lambda>_. Inr (NInt 4)),
     e_loadSigner = (\<lambda>_. Inr (Some ''SSEED'')),
     e_fromSecret = (\<lambda>_ h. Inr (0, demo_kp, (h_bufs h)(0 := Some [7, 7]))),
     e_sign = (\<lambda>t _ sk. if sk = [7, 7] then Inr (t @ '' signed'') else Inl (JsError ''bad key'')),
     e_explorer = (\<lambda>h. ''https://explorer/'' @ h),
     e_backend = ''https://b'',
     e_getItem = (\<lambda>_. Inr None),
     e_setItem = (\<lambda>_. Inr ()),
     e_fetch = (\<lambda>_. Inl (JsError ''offline'')),
     e_loadVaults = (\<lambda>_. Inr []),
     e_merge = (\<lambda>_ vs. vs),
     e_parseDate = (\<lambda>_. None)\<rparr>"

definition demo_run :: "(thrown + xdr option \<times> receipt) \<times> world" where
  "demo_run = invokeContract demo_env ''G'' ''deposit'' [''a''] demo_world"

lemmas demo_unfold = demo_run_def invokeContract_def prepare_def send_phase_def sign_phase_def sign_tx_def fromSecret_def wipe_signer_def
  POLL_ATTEMPTS_def BASE_FEE_def build_call_def loadAccount_def with_failover_def rpc_total_def Let_def getActiveDeployment_def rpcServer_def eff_eval demo_env_def demo_world_def
   view_bytes_def demo_kp_def server_of_def emitReceipt_def poll_next poll_success decisive_def

lemma demo_run_log: "map fst (since demo_world (snd demo_run)) =
  [AGetAccount ''r1'' ''G'', ARotate (JsError ''offline''), AGetAccount ''r2'' ''G'', ASimulate ''r1'' ''tx 10000'', ALoadSigner,
   AKeypair 0 demo_kp, ASend ''r1'' ''tx 10000 assembled signed'', ASleep 1500, AGetTx ''r1'' ''h1'', ASleep 1500, AGetTx ''r1'' ''h1'',
   AReceipt \<lparr>rc_method = ''deposit'', rc_txHash = ''h1'', rc_ledger = Some 9, rc_explorerUrl = ''https://explorer/h1'',
     rc_status = RSuccess, rc_emittedAt = 11000\<rparr>]"
  by (simp add: demo_unfold since_def)

lemma demo_run_key: "\<exists>h. (AKeypair 0 demo_kp, h) \<in> set (since demo_world (snd demo_run)) \<and> byte_at h (0, 0) = Some 7"
  by (simp add: demo_unfold since_def byte_at_def)

section \<open>Safety of the pipeline\<close>




text \<open>The three shapes of a run, with their logs.\<close>

lemma invokeContract_shape:
  assumes "invokeContract E pk m params w = (r, w')"
  defines "server \<equiv> e_url E (w_log w)"
  obtains (unsent) e where "prepare E server pk m params w = (Inl e, w')" and "r = Inl e"
      and "\<forall>x\<in>set (since w w'). no_send x \<and> at_server server (fst x)"
    | (rejected) t v new s where "prepare E server pk m params w = (Inr t, v)" and "w_log v = w_log w @ new"
      and "\<forall>x\<in>set new. no_send x \<and> at_server server (fst x)"
      and "since w w' = new @ [(ASend server t, w_heap v)]" and "r = Inl (Soroban s)"
      and "(\<exists>e. s = networkError m PSend e) \<or> (\<exists>detail hash. s = sendError m detail (Some hash))"
    | (sent) t v new new2 resp where "prepare E server pk m params w = (Inr t, v)" and "w_log v = w_log w @ new"
      and "\<forall>x\<in>set new. no_send x \<and> at_server server (fst x)"
      and "since w w' = new @ (ASend server t, w_heap v) # new2"
      and "e_send E (w_log w @ new @ [(ASend server t, w_heap v)]) = Inr resp"
      and "\<forall>x\<in>set new2. polling (Some server) (sr_hash resp) x"
      and "poll_result m (sr_hash resp) 30 r (answers E (w_log w) (since w w')) (receipts (since w w'))"
  using assms(1)
proof (cases rule: invokeContract_cases)
  case (unsent e)
  obtain new where "w_log w' = w_log w @ new" "\<forall>x\<in>set new. no_send x \<and> at_server server (fst x)"
    using prepare_log [OF unsent(1)] by (auto simp: server_def)
  then show ?thesis using that(1) [folded server_def, OF unsent [folded server_def]] by (simp add: since_new)
next
  case (rejected t v s)
  obtain new where new: "w_log v = w_log w @ new" "\<forall>x\<in>set new. no_send x \<and> at_server server (fst x)"
    using prepare_log [OF rejected(1)] by (auto simp: server_def)
  moreover have "since w w' = new @ [(ASend server t, w_heap v)]"
    by (rule since_new) (simp add: rejected(2) new(1) server_def)
  ultimately show ?thesis using that(2) [OF rejected(1) [folded server_def]] rejected(3,4) by blast
next
  case (sent t v resp)
  obtain new where new: "w_log v = w_log w @ new" "\<forall>x\<in>set new. no_send x \<and> at_server server (fst x)"
    using prepare_log [OF sent(1)] by (auto simp: server_def)
  obtain new2 where new2: "w_log w' = w_log v @ (ASend server t, w_heap v) # new2"
    "\<forall>x\<in>set new2. polling (Some server) (sr_hash resp) x"
    "poll_result m (sr_hash resp) 30 r (answers E (w_log v @ [(ASend server t, w_heap v)]) new2) (receipts new2)"
    using polled_log [OF sent(3)] by (auto simp: server_def POLL_ATTEMPTS_def)
  have s: "since w w' = (new @ [(ASend server t, w_heap v)]) @ new2"
    by (rule since_new) (simp add: new new2)
  have "\<forall>x\<in>set new. no_send x" using new(2) by blast
  then have "answers E (w_log w) (since w w') = answers E (w_log v @ [(ASend server t, w_heap v)]) new2"
      and "receipts (since w w') = receipts new2"
    by (simp_all add: s answers_append no_send_lists new(1))
  moreover have "e_send E (w_log w @ new @ [(ASend server t, w_heap v)]) = Inr resp"
    using sent(2) new(1) by (simp add: server_def)
  ultimately show ?thesis
    using that(3) [OF sent(1) [folded server_def] new, of new2 resp] new2 s by simp
qed

lemma polling_at_server: "polling (Some server) hash x \<Longrightarrow> at_server server (fst x)"
  by (cases "fst x") (auto simp: polling_def)

text \<open>C4: nothing is sent twice, and nothing unprepared. A run sends at most one envelope, and it is
  the signature of the assembly of a transaction that a simulation earlier in the same run
  answered with success.\<close>
theorem sends_once_what_was_simulated:
  assumes "invokeContract E pk m params w = (r, w')"
  shows "sends (since w w') = [] \<or>
    (\<exists>t new tx h a b c assembled sk pub. sends (since w w') = [(e_url E (w_log w), t)] \<and>
      prefix (new @ [(ASimulate (e_url E (w_log w)) tx, h)]) (since w w') \<and>
      e_simulate E (w_log w @ new @ [(ASimulate (e_url E (w_log w)) tx, h)]) = Inr (SimSuccess a b c) \<and>
      e_assemble E tx (SimSuccess a b c) = Inr assembled \<and> e_sign E assembled pub sk = Inr t)"
proof -
  let ?s = "e_url E (w_log w)"
  have signed: "\<exists>pre tx h a b c assembled sk pub. prefix (pre @ [(ASimulate ?s tx, h)]) new \<and>
      e_simulate E (w_log w @ pre @ [(ASimulate ?s tx, h)]) = Inr (SimSuccess a b c) \<and>
      e_assemble E tx (SimSuccess a b c) = Inr assembled \<and> e_sign E assembled pub sk = Inr t"
    if p: "prepare E ?s pk m params w = (Inr t, v)" and new: "w_log v = w_log w @ new" for t v new
    using p
  proof (cases rule: prepare_cases)
    case (signs tx a b c assembled pre v0)
    from signs(6) show ?thesis
    proof (cases rule: sign_phase_cases)
      case (signer seed i k bufs w2)
      have "prefix (w_log v0) (w_log v)" by (simp add: signer(3,4) wipe_signer_def)
      then have "prefix (pre @ [(ASimulate ?s tx, w_heap w)]) new" using signs(3) new by simp
      moreover have "e_simulate E (w_log w @ pre @ [(ASimulate ?s tx, w_heap w)]) = Inr (SimSuccess a b c)"
        using signs(1,3) by simp
      ultimately show ?thesis using signs(2) signer(5) [OF refl] by blast
    qed simp
  qed simp
  show ?thesis using assms
  proof (cases rule: invokeContract_shape)
    case (unsent e)
    then have "\<forall>x\<in>set (since w w'). no_send x" by blast
    then show ?thesis by (simp add: no_send_lists)
  next
    case (rejected t v new s)
    have "sends (since w w') = [(?s, t)]" using rejected(3,4) by (simp add: no_send_lists)
    moreover have "prefix new (since w w')" using rejected(4) by simp
    ultimately show ?thesis using signed [OF rejected(1,2)] by (blast intro: prefix_order.trans)
  next
    case (sent t v new new2 resp)
    have "sends (since w w') = [(?s, t)]" using sent(3,4,6) by (simp add: no_send_lists polling_sends)
    moreover have "prefix new (since w w')" using sent(4) by simp
    ultimately show ?thesis using signed [OF sent(1,2)] by (blast intro: prefix_order.trans)
  qed
qed

theorem sends_once_what_was_simulated_witness:
  "sends (since demo_world (snd demo_run)) = [(''r1'', ''tx 10000 assembled signed'')]"
proof -
  have run: "invokeContract demo_env ''G'' ''deposit'' [''a''] demo_world = (fst demo_run, snd demo_run)"
    by (simp add: demo_run_def)
  have "(''r1'', ''tx 10000 assembled signed'') \<in> set (sends (since demo_world (snd demo_run)))"
    by (simp add: demo_unfold since_def)
  then show ?thesis using sends_once_what_was_simulated [OF run] by auto
qed



lemma sign_phase_error:
  assumes "sign_phase E m tx w = (Inl e, w')"
  shows "\<exists>s. e = Soroban s \<and> (se_class s = WalletNotConnected \<or>
    se_class s = Sign \<and> se_phase s = PSign \<and> se_method s = m \<and> \<not> se_retryable s)"
  using assms unfolding sign_phase_def
proof (cases rule: catchM_cases)
  case (catches e' v)
  then show ?thesis
    by (auto simp: throw_eval is_wallet_not_connected_def signError_def split: if_splits thrown.splits)
qed simp



text \<open>C14: polling against any server, captured or resolved anew: it returns the first decisive answer
  among at most \<open>n\<close> polls and throws the timeout only when all \<open>n\<close> answers were indecisive; each
  poll comes after a pause and nothing else happens.\<close>
theorem poll_first_decision:
  assumes "poll E srv m hash n w = (r, w')"
  shows "poll_result m hash n r (answers E (w_log w) (since w w')) (receipts (since w w')) \<and>
    (\<forall>x\<in>set (since w w'). polling srv hash x) \<and> w_heap w' = w_heap w \<and> tries is_getTx w w' \<le> n"
proof -
  obtain new where new: "w_log w' = w_log w @ new" "poll_result m hash n r (answers E (w_log w) new) (receipts new)"
    using poll_decided [OF assms] by blast
  then show ?thesis
    using appends_since [OF appends_poll assms] keeps_result [OF keeps_heap_poll refl assms] since_new
      poll_budget.budget [of w E srv m hash n] assms by auto
qed

theorem poll_first_decision_witness:
  "\<exists>rc. rc_status rc = RSuccess \<and> fst (poll demo_env None ''deposit'' ''h1'' 2 demo_world) = Inr (Some ''rv'', rc)"
proof -
  let ?p = "poll demo_env None ''deposit'' ''h1'' 2 demo_world"
  have "?p = (fst ?p, snd ?p)" by simp
  from poll_first_decision [OF this]
  have "poll_result ''deposit'' ''h1'' 2 (fst ?p) (answers demo_env (w_log demo_world) (since demo_world (snd ?p)))
    (receipts (since demo_world (snd ?p)))" by blast
  moreover have "\<exists>x. fst ?p = Inr (Some ''rv'', x)"
    by (simp add: demo_unfold numeral_2_eq_2 seqM_eval act_eval attemptM_eval ask_eval)
  ultimately show ?thesis by (auto simp: poll_result_def)
qed

text \<open>A captured server is never exchanged. Every simulation, sending and polling of a run goes to
  the URL that was current when the run started, even when loading the account found that server
  unreachable and rotated to another one.\<close>
lemma rotation_not_honoured:
  assumes "invokeContract E pk m params w = (r, w')" and "x \<in> set (since w w')"
  shows "at_server (e_url E (w_log w)) (fst x)"
  using assms(1)
proof (cases rule: invokeContract_shape)
  case (unsent e)
  then show ?thesis using assms(2) by blast
next
  case (rejected t v new s)
  then show ?thesis using assms(2) by auto
next
  case (sent t v new new2 resp)
  have "\<forall>x\<in>set new2. at_server (e_url E (w_log w)) (fst x)" using sent(6) polling_at_server by blast
  then show ?thesis using assms(2) sent(3,4) by auto
qed

lemma rotation_not_honoured_witness:
  "\<exists>h0 h1. [(AGetAccount ''r2'' ''G'', h0), (ASimulate ''r1'' ''tx 10000'', h1)] = take 2 (drop 2 (since demo_world (snd demo_run))) \<and>
    e_url demo_env (take 4 (w_log (snd demo_run))) = ''r2'' \<and> at_server ''r1'' (ASimulate ''r1'' ''tx 10000'')"
proof -
  have run: "invokeContract demo_env ''G'' ''deposit'' [''a''] demo_world = (fst demo_run, snd demo_run)"
    by (simp add: demo_run_def)
  obtain h0 h1 where h: "[(AGetAccount ''r2'' ''G'', h0), (ASimulate ''r1'' ''tx 10000'', h1)] = take 2 (drop 2 (since demo_world (snd demo_run)))"
    by (simp add: demo_unfold since_def)
  moreover have "e_url demo_env (take 4 (w_log (snd demo_run))) = ''r2''"
    by (simp add: demo_unfold)
  moreover have "(ASimulate ''r1'' ''tx 10000'', h1) \<in> set (since demo_world (snd demo_run))"
    using h by (metis in_set_dropD in_set_takeD list.set_intros(1,2))
  from rotation_not_honoured [OF run this] have "at_server ''r1'' (ASimulate ''r1'' ''tx 10000'')"
    by (simp add: demo_env_def demo_world_def)
  ultimately show ?thesis by blast
qed

section \<open>Reads\<close>

definition is_getAccount :: "action \<Rightarrow> bool" where
  "is_getAccount a \<longleftrightarrow> (case a of AGetAccount _ _ \<Rightarrow> True | _ \<Rightarrow> False)"

definition is_simulate :: "action \<Rightarrow> bool" where
  "is_simulate a \<longleftrightarrow> (case a of ASimulate _ _ \<Rightarrow> True | _ \<Rightarrow> False)"

text \<open>C15: loading an account tries the RPC servers as it promises. At most one try per configured URL,
  one rotation between two tries; past an error of transport it goes on, the first success is
  returned, and the error thrown is that of the last try, which is not one of transport unless
  every URL has been tried.\<close>
theorem loadAccount_failover:
  assumes "loadAccount E pk w = (r, w')"
  shows "failover_result E id (rpc_total (e_dep E (w_log w))) r
    (replies is_getAccount (e_getAccount E) (w_log w) (since w w')) (rotations (since w w'))"
proof -
  let ?m = "seqM (rpcServer E) (\<lambda>server. ask (AGetAccount server pk) (e_getAccount E))"
  have "with_failover E (e_dep E (w_log w)) id as_error ?m w = (r, w')"
    using assms by (simp add: loadAccount_def getActiveDeployment_def seqM_eval [of "getM _"] getM_eval)
  moreover have "\<exists>a. is_getAccount a \<and> (\<forall>e. a \<noteq> ARotate e) \<and>
      ?m v = (e_getAccount E (w_log v @ [(a, w_heap v)]), record_action a v)" for v
    by (intro exI [of _ "AGetAccount (e_url E (w_log v)) pk"])
      (simp add: rpcServer_def seqM_eval getM_eval ask_eval is_getAccount_def)
  moreover have "\<not> is_getAccount (ARotate e)" for e by (simp add: is_getAccount_def)
  ultimately obtain new where "w_log w' = w_log w @ new" "failover_result E id (rpc_total (e_dep E (w_log w))) r
      (replies is_getAccount (e_getAccount E) (w_log w) new) (rotations new)"
    using with_failover_replies by metis
  then show ?thesis by (simp add: since_new)
qed

theorem loadAccount_failover_witness:
  "fst (loadAccount demo_env ''G'' demo_world) = Inr \<lparr>ac_id = ''G'', ac_sequence = ''1''\<rparr> \<and>
    rotations (since demo_world (snd (loadAccount demo_env ''G'' demo_world))) < 2"
proof -
  let ?l = "loadAccount demo_env ''G'' demo_world"
  have "?l = (fst ?l, snd ?l)" by simp
  from loadAccount_failover [OF this]
  have "rotations (since demo_world (snd ?l)) < rpc_total (e_dep demo_env (w_log demo_world))"
    by (auto simp: failover_result_def)
  then show ?thesis by (simp add: demo_unfold)
qed

lemma appends_invokeRead: "appends (\<lambda>x. reading (fst x)) (invokeRead E m params)"
  by (auto simp: invokeRead_def intro!: appends_intro appends_loadAccount split: sim.splits option.splits)

lemma keeps_invokeRead:
  "(\<And>a w. P w \<Longrightarrow> P (record_action a w)) \<Longrightarrow> keeps P (invokeRead E m params)"
  by (auto simp: invokeRead_def loadAccount_def with_failover_def Let_def rpcServer_def getActiveDeployment_def
      intro!: keeps_intro keeps_failover split: sim.splits option.splits)

lemma invokeRead_errors:
  assumes "invokeRead E m params w = (Inl e, w')"
  shows "(\<exists>s. e = Soroban s \<and> se_method s = m \<and> se_class s \<in> {Network, Simulation}) \<or>
    e_contract E (d_contractId (e_dep E (w_log w))) = Inl e"
proof -
  let ?dep = "e_dep E (w_log w)"
  have wrapped: "\<exists>s. e = Soroban s \<and> se_method s = m \<and> se_class s \<in> {Network, Simulation}"
    if "with_failover E ?dep (\<lambda>e. Soroban (networkError m PSimulate e)) fin q v = (Inl e, v')" for fin v v' and q :: "sim io"
  proof -
    have "failover E (\<lambda>e. Soroban (networkError m PSimulate e)) fin q (rpc_total ?dep) (rpc_total ?dep) 0 None v = (Inl e, v')"
      using that by (simp add: with_failover_def rpc_total_def Let_def max_def)
    from failover_Inl [OF this] show ?thesis by (auto simp: rpc_total_def networkError_def)
  qed
  have fields: "se_method (networkError m p e) = m" "se_class (networkError m p e) = Network"
    "se_method (simulationError m t) = m" "se_class (simulationError m t) = Simulation" for p e t
    by (simp_all add: networkError_def simulationError_def)
  show ?thesis
    using assms unfolding invokeRead_def
    by (auto simp: getActiveDeployment_def throw_eval liftM_eval getM_eval ret_eval fields
        elim!: seqM_cases catchM_cases split: sim.splits option.splits) (drule wrapped, simp)
qed

text \<open>A read is only a read. \<^verbatim>\<open>invokeRead\<close> loads one account and simulates, possibly at several
  servers; it sends nothing, touches no key and no module state, emits no receipt, and throws a
  network or simulation error that carries the method (or what the SDK throws for a malformed
  contract id, which the code does not wrap).\<close>
lemma invokeRead_only_reads:
  assumes "invokeRead E m params w = (r, w')"
  shows "(\<forall>x\<in>set (since w w'). reading (fst x)) \<and> same_state w w' \<and>
    (\<forall>e. r = Inl e \<longrightarrow> (\<exists>s. e = Soroban s \<and> se_method s = m \<and> se_class s \<in> {Network, Simulation}) \<or>
      e_contract E (d_contractId (e_dep E (w_log w))) = Inl e)"
proof -
  have "keeps (same_state w) (invokeRead E m params)" by (rule keeps_invokeRead) simp
  then have "same_state w w'" using keeps_result [where P = "same_state w" and w = w and m = "invokeRead E m params"] assms by simp
  moreover have "\<forall>x\<in>set (since w w'). reading (fst x)" using appends_since [OF appends_invokeRead assms] by blast
  ultimately show ?thesis using invokeRead_errors assms by blast
qed

lemma invokeRead_only_reads_witness:
  "fst (invokeRead demo_env ''get_vault'' [''3''] demo_world) = Inr ''rv'' \<and>
    w_heap (snd (invokeRead demo_env ''get_vault'' [''3''] demo_world)) = w_heap demo_world"
proof -
  let ?r = "invokeRead demo_env ''get_vault'' [''3''] demo_world"
  have "?r = (fst ?r, snd ?r)" by simp
  from invokeRead_only_reads [OF this] have "w_heap (snd ?r) = w_heap demo_world" by (simp add: same_state_def)
  moreover have "fst ?r = Inr ''rv''" by (simp add: invokeRead_def demo_unfold)
  ultimately show ?thesis by blast
qed

text \<open>Rechecking a transaction makes one query; the status returned is the server's (anything not
  final counts as pending), a receipt is emitted exactly for a final status and agrees with it,
  and only a failing query throws, as a retryable network error of the poll phase.\<close>
lemma recheck_reports:
  assumes "recheckTransaction E m hash w = (r, w')"
  defines "w1 \<equiv> record_action (AGetTx (e_url E (w_log w)) hash) w"
  shows "case e_getTx E (w_log w1) of
      Inl e \<Rightarrow> r = Inl (Soroban (networkError m PPoll e)) \<and> w' = w1
    | Inr g \<Rightarrow>
        if g_status g \<in> {''SUCCESS'', ''FAILED''} then
          (\<exists>rc. w' = record_action (AReceipt rc) w1 \<and> rc_txHash rc = hash \<and> rc_method rc = m \<and>
            rc_status rc = (if g_status g = ''SUCCESS'' then RSuccess else RFailed) \<and>
            r = Inr (rc_status rc, rc_ledger rc) \<and> (g_status g = ''SUCCESS'' \<longrightarrow> rc_ledger rc = g_ledger g))
        else r = Inr (RPending, None) \<and> w' = w1"
  using assms(1)
  by (auto simp: recheckTransaction_def rpcServer_def seqM_eval catchM_eval ask_eval getM_eval throw_eval ret_eval
      emitReceipt_def Let_def w1_def split: sum.splits if_splits)

lemma recheck_reports_witness:
  "\<exists>w'. recheckTransaction (demo_env\<lparr>e_getTx := \<lambda>_. Inr \<lparr>g_status = ''FAILED'', g_ledger = Some 3, g_returnValue = None\<rparr>\<rparr>)
    ''withdraw'' ''h1'' demo_world = (Inr (RFailed, None), w') \<and> receipts (since demo_world w') \<noteq> []"
proof -
  let ?E = "demo_env\<lparr>e_getTx := \<lambda>_. Inr \<lparr>g_status = ''FAILED'', g_ledger = Some 3, g_returnValue = None\<rparr>\<rparr>"
  let ?r = "recheckTransaction ?E ''withdraw'' ''h1'' demo_world"
  have run: "?r = (fst ?r, snd ?r)" by simp
  have "fst ?r = Inr (RFailed, None)"
    by (simp add: recheckTransaction_def demo_unfold)
  moreover have "receipts (since demo_world (snd ?r)) \<noteq> []"
    using recheck_reports [OF run] by (auto simp: since_def demo_env_def)
  ultimately show ?thesis by (metis prod.collapse)
qed

section \<open>A transaction that was not queued\<close>

lemma answers_undecided:
  assumes "\<And>hs s h. \<not> decisive (e_getTx E (hs @ [(AGetTx s hash, h)]))" and "\<forall>x\<in>set new. polling srv hash x"
  shows "\<forall>a\<in>set (answers E hs new). \<not> decisive a"
  proof (use assms(2) in \<open>induction new arbitrary: hs\<close>)
  case (Cons x new)
  then have "\<forall>a\<in>set (answers E (hs @ [x]) new). \<not> decisive a" "polling srv hash x" by auto
  then show ?case using assms(1) [of hs _ "snd x"] by (cases x) (auto simp: polling_def split: action.splits)
qed simp

lemma undecided_gives_up:
  assumes "poll_result m hash n r as rcs" and "\<forall>a\<in>set as. \<not> decisive a"
  shows "r = Inl (Soroban (pollTimeoutError m hash)) \<and> length as = n \<and> map rc_status rcs = [RPending]"
proof -
  have "\<not> (\<exists>early g. as = early @ [Inr g] \<and> (g_status g = ''SUCCESS'' \<or> g_status g = ''FAILED''))"
    using assms(2) by (auto simp: decisive_def)
  then show ?thesis using assms(1) unfolding poll_result_def by fastforce
qed

text \<open>The server asks to try again later, so it knows no transaction of that hash; the client polls for it
  all the same, as often as it may, and reports it as pending.\<close>

lemma unqueued_polled:
  fixes E :: env and w :: world
  defines "server \<equiv> e_url E (w_log w)"
  assumes prep: "prepare E server pk m params w = (Inr t, v)"
    and resp: "e_send E (w_log (record_action (ASend server t) v)) = Inr resp" "sr_status resp = ''TRY_AGAIN_LATER''"
    and none: "\<And>hs s h. \<not> decisive (e_getTx E (hs @ [(AGetTx s (sr_hash resp), h)]))"
    and run: "invokeContract E pk m params w = (r, w')"
  shows "r = Inl (Soroban (pollTimeoutError m (sr_hash resp))) \<and>
    (\<exists>new. w_log w' = w_log (record_action (ASend server t) v) @ new \<and>
      length (answers E (w_log (record_action (ASend server t) v)) new) = POLL_ATTEMPTS \<and> map rc_status (receipts new) = [RPending])"
proof -
  let ?v = "record_action (ASend server t) v"
  have "send_phase E server m t v = (Inr (sr_hash resp), ?v)"
    using resp by (simp add: send_phase_def seqM_eval catchM_eval ask_eval ret_eval)
  then have "poll E (Some server) m (sr_hash resp) POLL_ATTEMPTS ?v = (r, w')"
    using run prep by (simp add: invokeContract_def rpcServer_def server_def seqM_eval getM_eval)
  from polled_log [OF this] obtain new where new: "w_log w' = w_log ?v @ new" "\<forall>x\<in>set new. polling (Some server) (sr_hash resp) x"
    "poll_result m (sr_hash resp) POLL_ATTEMPTS r (answers E (w_log ?v) new) (receipts new)" by blast
  have "\<forall>a\<in>set (answers E (w_log ?v) new). \<not> decisive a" by (rule answers_undecided [OF none new(2)])
  from undecided_gives_up [OF new(3) this] new(1) show ?thesis by (intro conjI exI [of _ new]) simp_all
qed

end
