(* ===== verification/JS_Date.thy ===== *)
theory JS_Date imports Vault_Data begin

text \<open>
  The parts of the language's \<^verbatim>\<open>Date\<close> that the vault client uses, from the standard's own
  definitions: days and years, the date part of \<^verbatim>\<open>toISOString\<close>, and \<^verbatim>\<open>Date.parse\<close> on the
  standard's interchange format. Other strings are left to the engine by the standard, and
  to a parameter here.
\<close>

section \<open>Days, years and months\<close>

definition day_from_year :: "int \<Rightarrow> int" where
  "day_from_year y = 365 * (y - 1970) + (y - 1969) div 4 - (y - 1901) div 100 + (y - 1601) div 400"

definition leap :: "int \<Rightarrow> bool" where
  "leap y \<longleftrightarrow> (y mod 4 = 0 \<and> y mod 100 \<noteq> 0) \<or> y mod 400 = 0"

definition year_length :: "int \<Rightarrow> int" where
  "year_length y = (if leap y then 366 else 365)"

lemma div_step:
  fixes y n :: int
  assumes "0 < n"
  shows "(y + 1) div n = y div n + (if (y + 1) mod n = 0 then 1 else 0)"
proof -
  have y: "y = n * (y div n) + y mod n" by simp
  have r: "0 \<le> y mod n" "y mod n < n" using assms by simp_all
  show ?thesis
  proof (cases "y mod n + 1 < n")
    case True
    have e: "y + 1 = n * (y div n) + (y mod n + 1)" using y by linarith
    have "(y + 1) div n = y div n" "(y + 1) mod n = y mod n + 1"
      using int_div_pos_eq [OF e] int_mod_pos_eq [OF e] r True by simp_all
    then show ?thesis using r by simp
  next
    case False
    have "y mod n = n - 1" using r False by linarith
    then have "y + 1 = n * (y div n) + n" using y by linarith
    then have e: "y + 1 = n * (y div n + 1) + 0" by (simp only: distrib_left mult_1_right add_0_right)
    have "(y + 1) div n = y div n + 1" "(y + 1) mod n = 0"
      using int_div_pos_eq [OF e] int_mod_pos_eq [OF e] assms by simp_all
    then show ?thesis by simp
  qed
qed

lemma mod_shift:
  fixes y c n :: int
  assumes "n dvd c"
  shows "(y - c) mod n = 0 \<longleftrightarrow> y mod n = 0"
  using assms dvd_add_left_iff [of n c "y - c"] by (simp add: mod_eq_0_iff_dvd)

lemma year_sum:
  fixes y a b c p q r :: int
  shows "365 * (y - 1969) + (a + p) - (b + q) + (c + r) = 365 * (y - 1970) + a - b + c + (365 + p - q + r)"
  by (simp add: algebra_simps)

lemma day_from_year_Suc: "day_from_year (y + 1) = day_from_year y + year_length y"
proof -
  have a: "(y - 1968) mod 4 = 0 \<longleftrightarrow> y mod 4 = 0" by (rule mod_shift) simp
  have b: "(y - 1900) mod 100 = 0 \<longleftrightarrow> y mod 100 = 0" by (rule mod_shift) simp
  have c: "(y - 1600) mod 400 = 0 \<longleftrightarrow> y mod 400 = 0" by (rule mod_shift) simp
  have "y mod 400 mod 100 = y mod 100" "y mod 100 mod 4 = y mod 4"
    by (simp_all add: mod_mod_cancel)
  then have d: "y mod 400 = 0 \<Longrightarrow> y mod 100 = 0" "y mod 100 = 0 \<Longrightarrow> y mod 4 = 0"
    by auto
  have four: "(y - 1968) div 4 = (y - 1969) div 4 + (if y mod 4 = 0 then 1 else 0)"
    using div_step [of 4 "y - 1969"] a by simp
  have hundred: "(y - 1900) div 100 = (y - 1901) div 100 + (if y mod 100 = 0 then 1 else 0)"
    using div_step [of 100 "y - 1901"] b by simp
  have fourhundred: "(y - 1600) div 400 = (y - 1601) div 400 + (if y mod 400 = 0 then 1 else 0)"
    using div_step [of 400 "y - 1601"] c by simp
  have l: "year_length y = 365 + (if y mod 4 = 0 then 1 else 0) - (if y mod 100 = 0 then 1 else 0) + (if y mod 400 = 0 then 1 else 0)"
    using d by (cases "y mod 400 = 0"; cases "y mod 100 = 0"; cases "y mod 4 = 0") (simp_all only: year_length_def leap_def if_True if_False simp_thms, simp_all)
  have n: "y + 1 - 1969 = y - 1968" "y + 1 - 1901 = y - 1900" "y + 1 - 1601 = y - 1600" "y + 1 - 1970 = y - 1969"
    by linarith+
  show ?thesis unfolding day_from_year_def n four hundred fourhundred l by (rule year_sum)
qed

lemma year_length_bounds: "365 \<le> year_length y" "year_length y \<le> 366"
  by (simp_all add: year_length_def)

text \<open>The year of a day: the search from a lower estimate.\<close>

function year_search :: "int \<Rightarrow> int \<Rightarrow> int" where
  "year_search y d = (if d < day_from_year (y + 1) then y else year_search (y + 1) d)"
  by pat_completeness auto
termination
proof (relation "measure (\<lambda>(y, d). nat (d + 1 - day_from_year y))")
  fix y d
  assume "\<not> d < day_from_year (y + 1)"
  moreover have "day_from_year y < day_from_year (y + 1)"
    using day_from_year_Suc [of y] year_length_bounds(1) [of y] by linarith
  ultimately show "((y + 1, d), (y, d)) \<in> measure (\<lambda>(y, d). nat (d + 1 - day_from_year y))"
    by simp
qed simp

declare year_search.simps [simp del]

definition year_of_day :: "int \<Rightarrow> int" where
  "year_of_day d = year_search (1970 + (if 0 \<le> d then d div 366 else d div 365)) d"

lemma year_search_spec:
  "day_from_year y \<le> d \<Longrightarrow> day_from_year (year_search y d) \<le> d \<and> d < day_from_year (year_search y d + 1)"
proof (induction y d rule: year_search.induct)
  case (1 y d)
  then show ?case by (subst (1 2) year_search.simps) simp
qed

lemma day_from_year_pos: "day_from_year (1970 + int n) \<le> 366 * int n"
proof (induction n)
  case 0
  show ?case by (simp add: day_from_year_def)
next
  case (Suc n)
  have "day_from_year (1970 + int (Suc n)) = day_from_year (1970 + int n) + year_length (1970 + int n)"
    using day_from_year_Suc [of "1970 + int n"] by (simp add: algebra_simps)
  then show ?case using Suc year_length_bounds(2) [of "1970 + int n"] by simp
qed

lemma day_from_year_neg: "day_from_year (1970 - int n) \<le> - 365 * int n"
proof (induction n)
  case 0
  show ?case by (simp add: day_from_year_def)
next
  case (Suc n)
  have "day_from_year (1970 - int n) = day_from_year (1970 - int (Suc n)) + year_length (1970 - int (Suc n))"
    using day_from_year_Suc [of "1970 - int (Suc n)"] by (simp add: algebra_simps)
  then show ?case using Suc year_length_bounds(1) [of "1970 - int (Suc n)"] by simp
qed

lemma year_of_day_spec: "day_from_year (year_of_day d) \<le> d \<and> d < day_from_year (year_of_day d + 1)"
  unfolding year_of_day_def
proof (rule year_search_spec)
  show "day_from_year (1970 + (if 0 \<le> d then d div 366 else d div 365)) \<le> d"
  proof (cases "0 \<le> d")
    case True
    have "366 * (d div 366) \<le> d" by (simp add: algebra_simps minus_mod_eq_mult_div [symmetric])
    then show ?thesis using True day_from_year_pos [of "nat (d div 366)"] by (simp add: pos_imp_zdiv_nonneg_iff)
  next
    case False
    have "365 * (d div 365) \<le> d" by (simp add: algebra_simps minus_mod_eq_mult_div [symmetric])
    moreover have "d div 365 < 0" using False by (simp add: pos_imp_zdiv_neg_iff)
    ultimately show ?thesis using False day_from_year_neg [of "nat (- (d div 365))"] by simp
  qed
qed

text \<open>The days before each month of a year, and the month that a day of the year lies in.\<close>

definition month_starts :: "int \<Rightarrow> int list" where
  "month_starts y = (let l = year_length y - 365
     in [0, 31, 59 + l, 90 + l, 120 + l, 151 + l, 181 + l, 212 + l, 243 + l, 273 + l, 304 + l, 334 + l])"

definition month_of :: "int \<Rightarrow> int \<Rightarrow> nat" where
  "month_of y k = length (takeWhile (\<lambda>s. s \<le> k) (month_starts y))"

text \<open>Year, month and day of the month of a day number, and back.\<close>

definition civil :: "int \<Rightarrow> int \<times> nat \<times> nat" where
  "civil d = (let y = year_of_day d; k = d - day_from_year y; m = month_of y k
     in (y, m, nat (k - month_starts y ! (m - 1) + 1)))"

definition make_day :: "int \<Rightarrow> nat \<Rightarrow> nat \<Rightarrow> int" where
  "make_day y m d = day_from_year y + month_starts y ! (m - 1) + int d - 1"

definition days_in_month :: "int \<Rightarrow> nat \<Rightarrow> int" where
  "days_in_month y m = (if m = 12 then year_length y else month_starts y ! m) - month_starts y ! (m - 1)"

lemma month_of_spec:
  assumes "0 \<le> k" and "k < year_length y"
  shows "1 \<le> month_of y k \<and> month_of y k \<le> 12 \<and> month_starts y ! (month_of y k - 1) \<le> k \<and>
    k < month_starts y ! (month_of y k - 1) + days_in_month y (month_of y k)"
proof -
  have "year_length y = 365 \<or> year_length y = 366" by (simp add: year_length_def)
  then show ?thesis
  proof
    assume [simp]: "year_length y = 365"
    show ?thesis using assms by (simp add: month_of_def month_starts_def days_in_month_def Let_def)
  next
    assume [simp]: "year_length y = 366"
    show ?thesis using assms by (simp add: month_of_def month_starts_def days_in_month_def Let_def)
  qed
qed

lemma civil_spec:
  assumes "civil d = (y, m, dd)"
  shows "make_day y m dd = d" and "1 \<le> m" and "m \<le> 12" and "1 \<le> dd" and "int dd \<le> days_in_month y m"
    and "y = year_of_day d"
proof -
  define k where "k = d - day_from_year (year_of_day d)"
  have y: "y = year_of_day d" and m: "m = month_of y k" and dd: "dd = nat (k - month_starts y ! (m - 1) + 1)"
    using assms by (auto simp: civil_def Let_def k_def)
  have "0 \<le> k" "k < year_length y"
    using year_of_day_spec [of d] day_from_year_Suc [of y] by (auto simp: k_def y)
  note s = month_of_spec [OF this, folded m]
  show "1 \<le> m" "m \<le> 12" "y = year_of_day d" using s y by auto
  show "1 \<le> dd" "int dd \<le> days_in_month y m" "make_day y m dd = d"
    using s by (auto simp: dd make_day_def k_def y)
qed

lemma month_cases: "1 \<le> m \<Longrightarrow> m \<le> 12 \<Longrightarrow> m \<in> {1, 2, 3, 4, 5, 6, 7, 8, 9, 10, 11, 12 :: nat}"
  by (simp, presburger)

lemma days_in_month_le:
  assumes "1 \<le> m" and "m \<le> 12"
  shows "days_in_month y m \<le> 31"
  using month_cases [OF assms] year_length_bounds [of y]
  by (elim insertE emptyE) (simp_all add: days_in_month_def month_starts_def Let_def)

section \<open>The date part of toISOString\<close>

definition digit_char :: "nat \<Rightarrow> char" where
  "digit_char n = char_of (48 + n mod 10)"

definition pad2 :: "nat \<Rightarrow> string" where
  "pad2 n = [digit_char (n div 10), digit_char n]"

definition pad4 :: "nat \<Rightarrow> string" where
  "pad4 n = pad2 (n div 100) @ pad2 n"

definition pad6 :: "nat \<Rightarrow> string" where
  "pad6 n = pad2 (n div 10000) @ pad4 n"

text \<open>\<^verbatim>\<open>new Date(x).toISOString().slice(0, 10)\<close>; an invalid date throws.\<close>

definition iso_date10 :: "number option \<Rightarrow> thrown + string" where
  "iso_date10 x = (case x of
      None \<Rightarrow> Inl (JsError ''Invalid time value'')
    | Some x \<Rightarrow>
        if \<bar>x\<bar> > 8640000000000000 then Inl (JsError ''Invalid time value'')
        else
          let t = (if 0 \<le> x then \<lfloor>x\<rfloor> else - \<lfloor>- x\<rfloor>);
              (y, m, d) = civil (t div 86400000);
              ys = (if 0 \<le> y \<and> y \<le> 9999 then pad4 (nat y)
                    else (if y < 0 then ''-'' else ''+'') @ pad6 (nat \<bar>y\<bar>))
          in Inr (take 10 (ys @ ''-'' @ pad2 m @ ''-'' @ pad2 d)))"

section \<open>Date.parse\<close>

definition take_num :: "nat \<Rightarrow> string \<Rightarrow> (nat \<times> string) option" where
  "take_num n s = (if length (take n s) = n \<and> list_all is_digit (take n s)
     then Some (digits_value (take n s), drop n s) else None)"

definition take_char :: "char \<Rightarrow> string \<Rightarrow> string option" where
  "take_char c s = (case s of [] \<Rightarrow> None | x # t \<Rightarrow> if x = c then Some t else None)"

text \<open>\<open>HH:mm\<close> in minutes.\<close>

definition take_hm :: "string \<Rightarrow> (nat \<times> nat \<times> string) option" where
  "take_hm s = Option.bind (take_num 2 s) (\<lambda>(h, s1). Option.bind (take_char (CHR '':'') s1) (\<lambda>s2.
     Option.bind (take_num 2 s2) (\<lambda>(m, s3). Some (h, m, s3))))"

text \<open>Seconds and milliseconds, both optional.\<close>

definition take_sec :: "string \<Rightarrow> (nat \<times> nat \<times> string) option" where
  "take_sec s = (case take_char (CHR '':'') s of
      None \<Rightarrow> Some (0, 0, s)
    | Some s1 \<Rightarrow> Option.bind (take_num 2 s1) (\<lambda>(sec, s2).
        case take_char (CHR ''.'') s2 of
          None \<Rightarrow> Some (sec, 0, s2)
        | Some s3 \<Rightarrow> Option.bind (take_num 3 s3) (\<lambda>(ms, s4). Some (sec, ms, s4))))"

text \<open>The zone, in minutes east; \<open>None\<close> for anything but \<open>Z\<close> and a signed offset to the end.\<close>

definition take_zone :: "string \<Rightarrow> int option" where
  "take_zone s =
     (if s = ''Z'' then Some 0
      else case s of
        [] \<Rightarrow> None
      | c # t \<Rightarrow> Option.bind (take_hm t) (\<lambda>(h, m, rest).
          if rest \<noteq> [] \<or> h > 23 \<or> m > 59 then None
          else if c = CHR ''+'' then Some (int (60 * h + m))
          else if c = CHR ''-'' then Some (- int (60 * h + m)) else None))"

definition take_date :: "string \<Rightarrow> (nat \<times> nat \<times> nat \<times> string) option" where
  "take_date s = Option.bind (take_num 4 s) (\<lambda>(y, s1). Option.bind (take_char (CHR ''-'') s1) (\<lambda>s2.
     Option.bind (take_num 2 s2) (\<lambda>(m, s3). Option.bind (take_char (CHR ''-'') s3) (\<lambda>s4.
     Option.bind (take_num 2 s4) (\<lambda>(d, s5). Some (y, m, d, s5))))))"

text \<open>Milliseconds of a string in the interchange format; \<open>None\<close> for another format or a day
  beyond its month.\<close>

definition parse_iso :: "string \<Rightarrow> int option" where
  "parse_iso s = Option.bind (take_date s) (\<lambda>(y, m, d, s1).
     if m < 1 \<or> 12 < m \<or> d < 1 \<or> days_in_month (int y) m < int d then None
     else if s1 = [] then Some (make_day (int y) m d * 86400000)
     else Option.bind (take_char (CHR ''T'') s1) (\<lambda>s2. Option.bind (take_hm s2) (\<lambda>(hh, mm, s3).
       Option.bind (take_sec s3) (\<lambda>(sec, ms, s4). Option.bind (take_zone s4) (\<lambda>off.
         if hh > 23 \<or> mm > 59 \<or> sec > 59 then None
         else Some (make_day (int y) m d * 86400000 + int (hh * 3600000 + mm * 60000 + sec * 1000 + ms) - off * 60000))))))"

text \<open>\<open>None\<close> is not a number. \<open>engine\<close> is the engine's own answer outside the format.\<close>

definition date_parse :: "(string \<Rightarrow> int option) \<Rightarrow> string \<Rightarrow> int option" where
  "date_parse engine s = (case parse_iso s of Some ms \<Rightarrow> Some ms | None \<Rightarrow> engine s)"

section \<open>Dates printed and parsed\<close>

lemma of_char_digit: "(of_char (digit_char n) :: nat) = 48 + n mod 10"
  by (simp add: digit_char_def)

lemma is_digit_digit [simp]: "is_digit (digit_char n)"
  by (auto simp: is_digit_def of_char_digit)

lemma digits_value_Cons_aux:
  "foldl (\<lambda>n c. 10 * n + (of_char c - 48)) a (s @ [digit_char k]) =
    10 * foldl (\<lambda>n c. 10 * n + (of_char c - 48)) a s + k mod 10"
  by (simp add: of_char_digit)

lemma digits_pad2: "n < 100 \<Longrightarrow> digits_value (pad2 n) = n"
  by (simp add: digits_value_def pad2_def of_char_digit)

lemma digits_pad4:
  assumes "n < 10000"
  shows "digits_value (pad4 n) = n"
proof -
  have "digits_value (pad4 n) = 1000 * (n div 1000 mod 10) + 100 * (n div 100 mod 10) + 10 * (n div 10 mod 10) + n mod 10"
    by (simp add: digits_value_def pad4_def pad2_def of_char_digit div_mult2_eq [symmetric])
  also have "\<dots> = n"
  proof -
    have "n div 1000 < 10" using assms by auto
    then have "n div 1000 mod 10 = n div 1000" by simp
    moreover have "n div 100 = 10 * (n div 1000) + n div 100 mod 10"
      using div_mult2_eq [of n 100 10] by simp
    moreover have "n div 10 = 10 * (n div 100) + n div 10 mod 10"
      using div_mult2_eq [of n 10 10] by simp
    moreover have "n = 10 * (n div 10) + n mod 10" by simp
    ultimately show ?thesis by linarith
  qed
  finally show ?thesis .
qed

lemma pad_digits [simp]: "list_all is_digit (pad2 n)" "list_all is_digit (pad4 n)"
  "length (pad2 n) = 2" "length (pad4 n) = 4"
  by (simp_all add: pad2_def pad4_def)

lemma take_num_pad2: "n < 100 \<Longrightarrow> take_num 2 (pad2 n @ s) = Some (n, s)"
  by (simp add: take_num_def digits_pad2)

lemma take_num_pad4: "n < 10000 \<Longrightarrow> take_num 4 (pad4 n @ s) = Some (n, s)"
  by (simp add: take_num_def digits_pad4)

lemma take_char_same [simp]: "take_char c (c # s) = Some s"
  by (simp add: take_char_def)

lemma take_date_pads:
  "y < 10000 \<Longrightarrow> m < 100 \<Longrightarrow> d < 100 \<Longrightarrow>
    take_date (pad4 y @ CHR ''-'' # pad2 m @ CHR ''-'' # pad2 d @ s) = Some (y, m, d, s)"
  by (simp add: take_date_def take_num_pad2 take_num_pad4)

lemma parse_midnight:
  assumes "y < 10000" and "1 \<le> m" and "m \<le> 12" and "1 \<le> d" and "int d \<le> days_in_month (int y) m"
  shows "parse_iso (pad4 y @ CHR ''-'' # pad2 m @ CHR ''-'' # pad2 d @ ''T00:00:00Z'') = Some (make_day (int y) m d * 86400000)"
proof -
  have "d < 100" "m < 100" using assms days_in_month_le [of m "int y"] by auto
  then have "take_date (pad4 y @ CHR ''-'' # pad2 m @ CHR ''-'' # pad2 d @ ''T00:00:00Z'') = Some (y, m, d, ''T00:00:00Z'')"
    using assms(1) by (intro take_date_pads)
  then show ?thesis using assms
    by (simp add: parse_iso_def take_hm_def take_sec_def take_num_def take_char_def take_zone_def is_digit_def digits_value_def numeral_2_eq_2)
qed

end
