(* ===== verification/Vault_Meta.thy ===== *)
theory Vault_Meta imports Soroban_Invoke JS_Date begin

text \<open>
  \<^verbatim>\<open>src/api/soroban-client.ts\<close>, lines 345 to 932 and 2563 to 2622: the off-chain metadata in two
  tiers (device storage and backend), the snapshots written to the backend and their freeze, the
  hydration of a device, the overlay of vaults that the chain no longer shows, and the
  reconstructed history rows. A call that is not awaited (\<^verbatim>\<open>void f()\<close>) here issues one request and
  ignores the answer, so it is the call itself with its result dropped.
\<close>

section \<open>The two tiers\<close>

definition META_PREFIX :: string where
  "META_PREFIX = ''xlm_vault_soroban_meta:''"

definition metaKey :: "string \<Rightarrow> string \<Rightarrow> string" where
  "metaKey owner vaultId = META_PREFIX @ owner @ '':'' @ vaultId"

definition as_meta :: "stored \<Rightarrow> vault_meta" where
  "as_meta s = (case s of StMeta m \<Rightarrow> m
     | _ \<Rightarrow> \<lparr>vm_description = None, vm_template = None, vm_target = None, vm_name = None, vm_dest = None,
          vm_dest_label = None, vm_memo = None, vm_bill = None\<rparr>)"

definition loadMeta :: "env \<Rightarrow> string \<Rightarrow> string \<Rightarrow> vault_meta io" where
  "loadMeta E owner vaultId =
     seqM (ask (AGetItem (metaKey owner vaultId)) (e_getItem E)) (\<lambda>m.
       ret (case m of None \<Rightarrow> EMPTY_META | Some s \<Rightarrow> as_meta s))"

definition saveMetaLocal :: "env \<Rightarrow> string \<Rightarrow> string \<Rightarrow> vault_meta \<Rightarrow> unit io" where
  "saveMetaLocal E owner vaultId meta = ask (ASetItem (metaKey owner vaultId) (StMeta meta)) (e_setItem E)"

definition mirrorMetaToBackend :: "env \<Rightarrow> string \<Rightarrow> string \<Rightarrow> vault_meta \<Rightarrow> unit io" where
  "mirrorMetaToBackend E owner vaultId meta =
     (if e_backend E = [] then ret ()
      else seqM (getActiveDeployment E) (\<lambda>dep.
        catchM (seqM (ask (AFetch (PutMeta owner vaultId (d_contractId dep) meta)) (e_fetch E)) (\<lambda>_. ret ()))
          (\<lambda>_. ret ())))"

definition saveMeta :: "env \<Rightarrow> string \<Rightarrow> string \<Rightarrow> vault_meta \<Rightarrow> unit io" where
  "saveMeta E owner vaultId meta =
     seqM (saveMetaLocal E owner vaultId meta) (\<lambda>_. mirrorMetaToBackend E owner vaultId meta)"

text \<open>\<^verbatim>\<open>fetch\<close> of the metas of an owner: \<open>None\<close> for a response that is not ok.\<close>

definition get_metas :: "env \<Rightarrow> string \<Rightarrow> bool \<Rightarrow> remote_meta list option io" where
  "get_metas E owner active_only =
     seqM (getActiveDeployment E) (\<lambda>dep.
     seqM (ask (AFetch (GetMetas owner (d_contractId dep) active_only)) (e_fetch E)) (\<lambda>res.
       if \<not> rs_ok res then ret None
       else seqM (liftM (rs_metas res)) (\<lambda>ms. ret (Some ms))))"

section \<open>Snapshots\<close>

definition frozenKey :: "string \<Rightarrow> string \<Rightarrow> string" where
  "frozenKey owner vaultId = owner @ ''::'' @ vaultId"

definition patch_snapshot :: "env \<Rightarrow> string \<Rightarrow> string \<Rightarrow> snapshot \<Rightarrow> bool io" where
  "patch_snapshot E owner vaultId snap =
     seqM (getActiveDeployment E) (\<lambda>dep.
     catchM (seqM (ask (AFetch (PatchSnapshot owner vaultId (d_contractId dep) snap)) (e_fetch E)) (\<lambda>res. ret (rs_ok res)))
       (\<lambda>_. ret False))"

definition pushSnapshotToBackend :: "env \<Rightarrow> string \<Rightarrow> string \<Rightarrow> snapshot \<Rightarrow> unit io" where
  "pushSnapshotToBackend E owner vaultId snap =
     (if e_backend E = [] then ret ()
      else seqM (getM (\<lambda>w. w_frozen w)) (\<lambda>frozen.
        if sn_status snap = Some ''withdrawn'' \<and> frozenKey owner vaultId \<in> set frozen then ret ()
        else seqM (if sn_status snap = Some ''withdrawn''
                   then updM (\<lambda>w. w\<lparr>w_frozen := w_frozen w @ [frozenKey owner vaultId]\<rparr>) else ret ()) (\<lambda>_.
          seqM (patch_snapshot E owner vaultId snap) (\<lambda>_. ret ()))))"

definition dismissVaultMeta :: "env \<Rightarrow> string \<Rightarrow> string \<Rightarrow> bool io" where
  "dismissVaultMeta E owner vaultId =
     (if e_backend E = [] then ret False
      else patch_snapshot E owner vaultId \<lparr>sn_balance = Some 0, sn_unlock = None, sn_status = Some ''withdrawn''\<rparr>)"

section \<open>Hydration\<close>

definition meta_of_remote :: "remote_meta \<Rightarrow> vault_meta" where
  "meta_of_remote r = \<lparr>vm_description = rm_description r, vm_template = rm_template r, vm_target = rm_target r,
     vm_name = rm_name r, vm_dest = rm_dest r, vm_dest_label = rm_dest_label r, vm_memo = rm_memo r, vm_bill = rm_bill r\<rparr>"

definition isMissing :: "stored option \<Rightarrow> bool" where
  "isMissing local = (case local of None \<Rightarrow> True | Some s \<Rightarrow>
     vm_description (as_meta s) = Some [] \<and> vm_template (as_meta s) = Some ''custom'' \<and> vm_target (as_meta s) = None)"

text \<open>
  The tasks of \<^verbatim>\<open>Promise.all\<close> under the schedule in which storage answers in the order asked: every
  task first asks for its local row; then each continues with its write; then the writes are
  answered and counted. A rejected read or write ends the function at that point with the count so far.
\<close>

fun read_rows :: "env \<Rightarrow> string \<Rightarrow> remote_meta list \<Rightarrow> (remote_meta \<times> (thrown + stored option)) list io" where
  "read_rows E owner [] = ret []"
| "read_rows E owner (r # rs) =
     seqM (attemptM (ask (AGetItem (metaKey owner (rm_vault_id r))) (e_getItem E))) (\<lambda>local.
     seqM (read_rows E owner rs) (\<lambda>rest. ret ((r, local) # rest)))"

fun write_rows :: "env \<Rightarrow> string \<Rightarrow> bool \<Rightarrow> (remote_meta \<times> (thrown + stored option)) list \<Rightarrow> (thrown + unit) list io" where
  "write_rows E owner force [] = ret []"
| "write_rows E owner force ((r, local) # rows) =
     (case local of
        Inl e \<Rightarrow> seqM (write_rows E owner force rows) (\<lambda>rest. ret (Inl e # rest))
      | Inr l \<Rightarrow>
          if force \<or> isMissing l then
            seqM (attemptM (saveMetaLocal E owner (rm_vault_id r) (meta_of_remote r))) (\<lambda>res.
            seqM (write_rows E owner force rows) (\<lambda>rest. ret (res # rest)))
          else write_rows E owner force rows)"

definition count_until_rejected :: "(remote_meta \<times> (thrown + stored option)) list \<Rightarrow> (thrown + unit) list \<Rightarrow> nat" where
  "count_until_rejected rows results =
     (if \<exists>row\<in>set rows. \<exists>e. snd row = Inl e then 0 else length (takeWhile (\<lambda>r. r = Inr ()) results))"

definition hydrateMetaImpl :: "env \<Rightarrow> string \<Rightarrow> bool \<Rightarrow> nat io" where
  "hydrateMetaImpl E owner force =
     (if e_backend E = [] then ret 0
      else catchM
        (seqM (get_metas E owner True) (\<lambda>res.
          case res of
            None \<Rightarrow> ret 0
          | Some remotes \<Rightarrow>
              seqM (read_rows E owner remotes) (\<lambda>rows.
              seqM (write_rows E owner force rows) (\<lambda>results. ret (count_until_rejected rows results)))))
        (\<lambda>_. ret 0))"

definition forceSyncMetaFromBackend :: "env \<Rightarrow> string \<Rightarrow> nat io" where
  "forceSyncMetaFromBackend E owner = hydrateMetaImpl E owner True"

section \<open>Vaults that only the backend knows\<close>

definition parseIsoToUnix :: "env \<Rightarrow> string option \<Rightarrow> number" where
  "parseIsoToUnix E stamp =
     (if \<not> truthy stamp then 0
      else case date_parse (e_parseDate E) (the stamp) of None \<Rightarrow> 0 | Some ms \<Rightarrow> of_int (ms div 1000))"

definition nonblank :: "string option \<Rightarrow> bool" where
  "nonblank s = truthy (map_option trim s)"

definition overlay_row :: "env \<Rightarrow> string \<Rightarrow> int \<Rightarrow> remote_meta \<Rightarrow> vault" where
  "overlay_row E owner nowSec r =
     (let createdTs = parseIsoToUnix E (coalesce_opt (rm_created_at r) (rm_updated_at r));
          status0 = (if rm_status r = Some ''withdrawn'' then Withdrawn
                     else if rm_status r = Some ''live'' \<and> coalesce (rm_unlock r) 0 > 0 then
                       (if of_int nowSec \<ge> coalesce (rm_unlock r) 0 then Unlocked else Locked)
                     else Archived);
          live = (rm_status r = Some ''live'')
      in \<lparr>va_vault_id = rm_vault_id r, va_owner = owner,
          va_name = (if nonblank (rm_name r) then the (rm_name r) else ''Vault #'' @ rm_vault_id r),
          va_description = coalesce (rm_description r) [], va_template = coalesce (rm_template r) ''custom'',
          va_balance = (if live then 0 else coalesce (rm_balance r) 0), va_target = rm_target r,
          va_unlock = coalesce (rm_unlock r) 0, va_created = createdTs,
          va_status = (if live then Withdrawn else status0)\<rparr>)"

fun buildArchivedOverlayFromMetas :: "env \<Rightarrow> string \<Rightarrow> remote_meta list \<Rightarrow> string list \<Rightarrow> vault list io" where
  "buildArchivedOverlayFromMetas E owner [] liveIds = ret []"
| "buildArchivedOverlayFromMetas E owner (r # rs) liveIds =
     (if rm_vault_id r \<in> set liveIds then buildArchivedOverlayFromMetas E owner rs liveIds
      else seqM (getM (\<lambda>w. e_now E (w_log w) div 1000)) (\<lambda>nowSec.
        seqM (if rm_status r = Some ''live'' then dismissVaultMeta E owner (rm_vault_id r) else ret False) (\<lambda>_.
        seqM (buildArchivedOverlayFromMetas E owner rs liveIds) (\<lambda>out. ret (overlay_row E owner nowSec r # out)))))"

definition middle_dot :: string where
  "middle_dot = [CHR 0xC2, CHR 0xB7]"

definition synth_create :: "env \<Rightarrow> string \<Rightarrow> remote_meta \<Rightarrow> parsed_event" where
  "synth_create E owner r =
     \<lparr>ev_tx_id = ''meta:'' @ rm_vault_id r, ev_vault_id = rm_vault_id r, ev_owner = owner, ev_kind = KCreate,
      ev_amount = 0,
      ev_note = (if nonblank (rm_name r) then the (rm_name r) @ '' '' @ middle_dot @ '' reconstructed from backend metadata''
        else ''Reconstructed from backend metadata (on-chain event archived)''),
      ev_timestamp = \<lfloor>parseIsoToUnix E (coalesce_opt (rm_created_at r) (rm_updated_at r))\<rfloor>,
      ev_created_at = coalesce (coalesce_opt (rm_created_at r) (rm_updated_at r)) ''1970-01-01T00:00:00.000Z''\<rparr>"

definition fetchArchivedCreateEvents :: "env \<Rightarrow> string \<Rightarrow> parsed_event list \<Rightarrow> parsed_event list io" where
  "fetchArchivedCreateEvents E owner liveEvents =
     (if e_backend E = [] then ret []
      else
        let liveCreatedIds = map ev_vault_id (filter (\<lambda>e. ev_kind e = KCreate) liveEvents)
        in catchM
          (seqM (get_metas E owner False) (\<lambda>res. case res of
             None \<Rightarrow> ret []
           | Some remotes \<Rightarrow> ret (map (synth_create E owner) (filter (\<lambda>r. rm_vault_id r \<notin> set liveCreatedIds) remotes))))
          (\<lambda>_. ret []))"

section \<open>The metadata of one vault\<close>

definition or_string :: "string option \<Rightarrow> string option \<Rightarrow> string option" where
  "or_string a b = (if truthy a then a else b)"

definition merge_meta :: "vault_meta \<Rightarrow> remote_meta \<Rightarrow> vault_meta" where
  "merge_meta local hit = \<lparr>vm_description = or_string (vm_description local) (rm_description hit),
     vm_template = or_string (vm_template local) (rm_template hit),
     vm_target = coalesce_opt (vm_target local) (rm_target hit),
     vm_name = coalesce_opt (vm_name local) (rm_name hit),
     vm_dest = rm_dest hit, vm_dest_label = rm_dest_label hit, vm_memo = rm_memo hit, vm_bill = rm_bill hit\<rparr>"

text \<open>\<open>None\<close> is \<^verbatim>\<open>undefined\<close>, the result when anything throws.\<close>

definition getVaultMeta :: "env \<Rightarrow> string \<Rightarrow> string \<Rightarrow> vault_meta option io" where
  "getVaultMeta E owner vaultId =
     catchM
       (seqM (loadMeta E owner vaultId) (\<lambda>local.
         if truthy (vm_dest local) then ret (Some local)
         else if e_backend E = [] then ret (Some local)
         else seqM (get_metas E owner False) (\<lambda>res.
           case res of
             None \<Rightarrow> ret (Some local)
           | Some rows \<Rightarrow>
               (case find (\<lambda>r. rm_vault_id r = vaultId) rows of
                  None \<Rightarrow> ret (Some local)
                | Some hit \<Rightarrow>
                    (let hydrated = merge_meta local hit
                     in seqM (saveMetaLocal E owner vaultId hydrated) (\<lambda>_. ret (Some hydrated)))))))
       (\<lambda>_. ret None)"

section \<open>What they do\<close>

text \<open>The requests among the entries of a log.\<close>

fun fetched :: "history \<Rightarrow> http list" where
  "fetched [] = []"
| "fetched (x # hs) = (case fst x of AFetch q \<Rightarrow> q # fetched hs | _ \<Rightarrow> fetched hs)"

lemma fetched_append [simp]: "fetched (xs @ ys) = fetched xs @ fetched ys"
  by (induction xs) (auto split: action.splits)

lemma patch_snapshot_run:
  "\<exists>b. patch_snapshot E owner vaultId snap w =
    (Inr b, record_action (AFetch (PatchSnapshot owner vaultId (d_contractId (e_dep E (w_log w))) snap)) w)"
  by (auto simp: patch_snapshot_def getActiveDeployment_def seqM_eval catchM_eval ask_eval getM_eval ret_eval split: sum.splits)

lemma dismissVaultMeta_run:
  "e_backend E \<noteq> [] \<Longrightarrow> \<exists>b. dismissVaultMeta E owner vaultId w =
    (Inr b, record_action (AFetch (PatchSnapshot owner vaultId (d_contractId (e_dep E (w_log w)))
      \<lparr>sn_balance = Some 0, sn_unlock = None, sn_status = Some ''withdrawn''\<rparr>)) w)"
  by (simp add: dismissVaultMeta_def patch_snapshot_run)

definition dismissal :: "string \<Rightarrow> remote_meta \<Rightarrow> http \<Rightarrow> bool" where
  "dismissal owner r q \<longleftrightarrow> (\<exists>cid. q = PatchSnapshot owner (rm_vault_id r) cid
     \<lparr>sn_balance = Some 0, sn_unlock = None, sn_status = Some ''withdrawn''\<rparr>)"

lemma overlay_status: "va_status (overlay_row E owner t r) = Withdrawn \<or> va_status (overlay_row E owner t r) = Archived"
  by (simp add: overlay_row_def Let_def)

lemma overlay_run:
  assumes "e_backend E \<noteq> []"
  shows "\<exists>out w'. buildArchivedOverlayFromMetas E owner rs liveIds w = (Inr out, w') \<and>
    list_all2 (\<lambda>r v. \<exists>t. v = overlay_row E owner t r) (filter (\<lambda>r. rm_vault_id r \<notin> set liveIds) rs) out \<and>
    (\<exists>new. w_log w' = w_log w @ new \<and> list_all2 (dismissal owner)
      (filter (\<lambda>r. rm_vault_id r \<notin> set liveIds \<and> rm_status r = Some ''live'') rs) (fetched new)) \<and>
    same_state w w'"
proof (induction rs arbitrary: w)
  case Nil
  show ?case by (simp add: ret_eval)
next
  case (Cons r rs)
  show ?case
  proof (cases "rm_vault_id r \<in> set liveIds")
    case True
    then show ?thesis using Cons.IH [of w] by simp
  next
    case out: False
    show ?thesis
    proof (cases "rm_status r = Some ''live''")
      case True
      obtain b cid where d: "dismissVaultMeta E owner (rm_vault_id r) w = (Inr b, record_action (AFetch (PatchSnapshot owner (rm_vault_id r) cid
          \<lparr>sn_balance = Some 0, sn_unlock = None, sn_status = Some ''withdrawn''\<rparr>)) w)" (is "_ = (_, record_action (AFetch ?q) w)")
        using dismissVaultMeta_run [OF assms] by blast
      obtain res w' new where ih: "buildArchivedOverlayFromMetas E owner rs liveIds (record_action (AFetch ?q) w) = (Inr res, w')"
        "list_all2 (\<lambda>r v. \<exists>t. v = overlay_row E owner t r) (filter (\<lambda>r. rm_vault_id r \<notin> set liveIds) rs) res"
        "w_log w' = w_log (record_action (AFetch ?q) w) @ new"
        "list_all2 (dismissal owner) (filter (\<lambda>r. rm_vault_id r \<notin> set liveIds \<and> rm_status r = Some ''live'') rs) (fetched new)"
        "same_state (record_action (AFetch ?q) w) w'"
        using Cons.IH by blast
      have "dismissal owner r ?q" by (auto simp: dismissal_def)
      then show ?thesis using out True d ih
        by (intro exI [of _ "overlay_row E owner (e_now E (w_log w) div 1000) r # res"] exI [of _ w'])
          (auto simp: seqM_eval getM_eval ret_eval same_state_def intro!: exI [of _ "(AFetch ?q, w_heap w) # new"])
    next
      case False
      obtain res w' new where ih: "buildArchivedOverlayFromMetas E owner rs liveIds w = (Inr res, w')"
        "list_all2 (\<lambda>r v. \<exists>t. v = overlay_row E owner t r) (filter (\<lambda>r. rm_vault_id r \<notin> set liveIds) rs) res"
        "w_log w' = w_log w @ new"
        "list_all2 (dismissal owner) (filter (\<lambda>r. rm_vault_id r \<notin> set liveIds \<and> rm_status r = Some ''live'') rs) (fetched new)"
        "same_state w w'"
        using Cons.IH by blast
      then show ?thesis using out False
        by (intro exI [of _ "overlay_row E owner (e_now E (w_log w) div 1000) r # res"] exI [of _ w'])
          (auto simp: seqM_eval getM_eval ret_eval)
    qed
  qed
qed

text \<open>The overlay never shows a vault as locked or unlocked, and it writes. For every meta whose vault
  is not in the live read there is exactly one row, in order, and its status is withdrawn or
  archived; every such meta that says \<^verbatim>\<open>live\<close> is shown as withdrawn with balance 0, and for exactly
  these one request goes to the backend that sets the stored status to withdrawn and the stored
  balance to 0.\<close>
lemma overlay_dismisses_live:
  assumes "e_backend E \<noteq> []" and "buildArchivedOverlayFromMetas E owner rs liveIds w = (r, w')"
  defines "missing \<equiv> filter (\<lambda>m. rm_vault_id m \<notin> set liveIds) rs"
  shows "\<exists>out. r = Inr out \<and> map va_vault_id out = map rm_vault_id missing \<and>
    list_all2 (\<lambda>m v. (va_status v = Withdrawn \<or> va_status v = Archived) \<and>
      (rm_status m = Some ''live'' \<longrightarrow> va_status v = Withdrawn \<and> va_balance v = 0)) missing out \<and>
    list_all2 (dismissal owner) (filter (\<lambda>m. rm_status m = Some ''live'') missing) (fetched (since w w'))"
proof -
  obtain out new where o: "r = Inr out" "list_all2 (\<lambda>r v. \<exists>t. v = overlay_row E owner t r) missing out"
    "w_log w' = w_log w @ new"
    "list_all2 (dismissal owner) (filter (\<lambda>r. rm_vault_id r \<notin> set liveIds \<and> rm_status r = Some ''live'') rs) (fetched new)"
    using overlay_run [OF assms(1), of owner rs liveIds w] assms(2) by (auto simp: missing_def)
  have "map va_vault_id out = map rm_vault_id missing"
    using o(2) by (induction) (auto simp: overlay_row_def Let_def)
  moreover have "list_all2 (\<lambda>m v. (va_status v = Withdrawn \<or> va_status v = Archived) \<and>
      (rm_status m = Some ''live'' \<longrightarrow> va_status v = Withdrawn \<and> va_balance v = 0)) missing out"
    using o(2) by (rule list_all2_mono) (auto simp: overlay_row_def Let_def split: if_splits)
  moreover have "filter (\<lambda>m. rm_status m = Some ''live'') missing =
      filter (\<lambda>r. rm_vault_id r \<notin> set liveIds \<and> rm_status r = Some ''live'') rs"
    by (simp add: missing_def conj_commute)
  ultimately show ?thesis using o by (simp add: since_def)
qed

definition demo_remote :: "string \<Rightarrow> string \<Rightarrow> remote_meta" where
  "demo_remote i st = \<lparr>rm_vault_id = i, rm_description = None, rm_template = None, rm_target = None, rm_name = Some ''car'',
     rm_dest = None, rm_dest_label = None, rm_memo = None, rm_bill = None, rm_balance = Some 25, rm_unlock = Some 1900000000,
     rm_status = Some st, rm_created_at = None, rm_updated_at = None\<rparr>"

lemma overlay_dismisses_live_witness:
  "\<exists>v w'. buildArchivedOverlayFromMetas demo_env ''G'' [demo_remote ''7'' ''live''] [] demo_world = (Inr [v], w') \<and>
    va_status v = Withdrawn \<and> va_balance v = 0 \<and>
    (\<exists>q. fetched (since demo_world w') = [q] \<and> dismissal ''G'' (demo_remote ''7'' ''live'') q)"
proof -
  let ?b = "buildArchivedOverlayFromMetas demo_env ''G'' [demo_remote ''7'' ''live''] [] demo_world"
  have "e_backend demo_env \<noteq> []" by (simp add: demo_env_def)
  from overlay_dismisses_live [OF this surjective_pairing [of ?b]] obtain out where
    "fst ?b = Inr out" "map va_vault_id out = [''7'']"
    "list_all2 (\<lambda>m v. (va_status v = Withdrawn \<or> va_status v = Archived) \<and>
      (rm_status m = Some ''live'' \<longrightarrow> va_status v = Withdrawn \<and> va_balance v = 0)) [demo_remote ''7'' ''live''] out"
    "list_all2 (dismissal ''G'') [demo_remote ''7'' ''live''] (fetched (since demo_world (snd ?b)))"
    by (auto simp: demo_remote_def simp del: buildArchivedOverlayFromMetas.simps)
  then show ?thesis
    by (intro exI [of _ "hd out"] exI [of _ "snd ?b"])
      (auto simp: list_all2_Cons1 demo_remote_def prod_eq_iff simp del: buildArchivedOverlayFromMetas.simps)
qed

section \<open>The freeze of withdrawn snapshots\<close>

definition withdrawn_patch :: "string \<Rightarrow> http \<Rightarrow> bool" where
  "withdrawn_patch key q \<longleftrightarrow> (case q of PatchSnapshot owner i cid snap \<Rightarrow>
     frozenKey owner i = key \<and> sn_status snap = Some ''withdrawn'' | _ \<Rightarrow> False)"

text \<open>One push: nothing for a frozen vault, otherwise one request, and a withdrawn one freezes.\<close>

lemma pushSnapshot_run:
  assumes "e_backend E \<noteq> []"
  defines "wd snap \<equiv> sn_status snap = Some ''withdrawn''"
  shows "\<exists>w'. pushSnapshotToBackend E owner i snap w = (Inr (), w') \<and>
    (if wd snap \<and> frozenKey owner i \<in> set (w_frozen w) then w' = w
     else w_frozen w' = w_frozen w @ (if wd snap then [frozenKey owner i] else []) \<and>
       (\<exists>cid. w_log w' = w_log w @ [(AFetch (PatchSnapshot owner i cid snap), w_heap w)]))"
proof -
  let ?w1 = "if wd snap then w\<lparr>w_frozen := w_frozen w @ [frozenKey owner i]\<rparr> else w"
  obtain b where "patch_snapshot E owner i snap ?w1 =
      (Inr b, record_action (AFetch (PatchSnapshot owner i (d_contractId (e_dep E (w_log ?w1))) snap)) ?w1)"
    using patch_snapshot_run by blast
  then show ?thesis using assms(1)
    by (auto simp: pushSnapshotToBackend_def seqM_eval getM_eval updM_eval ret_eval wd_def)
qed

fun push_all :: "env \<Rightarrow> (string \<times> string \<times> snapshot) list \<Rightarrow> unit io" where
  "push_all E [] = ret ()"
| "push_all E ((owner, i, snap) # ps) = seqM (pushSnapshotToBackend E owner i snap) (\<lambda>_. push_all E ps)"

lemma push_all_run:
  assumes "e_backend E \<noteq> []"
  shows "\<exists>w' new. push_all E ps w = (Inr (), w') \<and> w_log w' = w_log w @ new \<and>
    length (filter (withdrawn_patch key) (fetched new)) =
      (if key \<notin> set (w_frozen w) \<and> (\<exists>(owner, i, snap)\<in>set ps. frozenKey owner i = key \<and> sn_status snap = Some ''withdrawn'') then 1 else 0)"
proof (induction ps arbitrary: w)
  case Nil
  show ?case by (auto simp: ret_eval)
next
  case (Cons p ps)
  obtain owner i snap where p: "p = (owner, i, snap)" by (cases p)
  obtain w1 where w1: "pushSnapshotToBackend E owner i snap w = (Inr (), w1)"
    "if sn_status snap = Some ''withdrawn'' \<and> frozenKey owner i \<in> set (w_frozen w) then w1 = w
     else w_frozen w1 = w_frozen w @ (if sn_status snap = Some ''withdrawn'' then [frozenKey owner i] else []) \<and>
       (\<exists>cid. w_log w1 = w_log w @ [(AFetch (PatchSnapshot owner i cid snap), w_heap w)])"
    using pushSnapshot_run [OF assms] by blast
  obtain w' new where ih: "push_all E ps w1 = (Inr (), w')" "w_log w' = w_log w1 @ new"
    "length (filter (withdrawn_patch key) (fetched new)) =
      (if key \<notin> set (w_frozen w1) \<and> (\<exists>(owner, i, snap)\<in>set ps. frozenKey owner i = key \<and> sn_status snap = Some ''withdrawn'') then 1 else 0)"
    using Cons.IH by blast
  show ?case
  proof (cases "sn_status snap = Some ''withdrawn'' \<and> frozenKey owner i \<in> set (w_frozen w)")
    case True
    then have "w1 = w" using w1(2) by simp
    then show ?thesis using w1(1) ih True by (auto simp: p seqM_eval)
  next
    case False
    then obtain cid where f: "w_frozen w1 = w_frozen w @ (if sn_status snap = Some ''withdrawn'' then [frozenKey owner i] else [])"
      "w_log w1 = w_log w @ [(AFetch (PatchSnapshot owner i cid snap), w_heap w)]"
      using w1(2) by (auto split: if_splits)
    let ?new = "(AFetch (PatchSnapshot owner i cid snap), w_heap w) # new"
    have "push_all E (p # ps) w = (Inr (), w')" "w_log w' = w_log w @ ?new"
      using w1(1) ih f by (simp_all add: p seqM_eval)
    moreover have "length (filter (withdrawn_patch key) (fetched ?new)) =
        (if key \<notin> set (w_frozen w) \<and> (\<exists>(owner, i, snap)\<in>set (p # ps). frozenKey owner i = key \<and> sn_status snap = Some ''withdrawn'') then 1 else 0)"
      using ih(3) f(1) False by (auto simp: p withdrawn_patch_def split: if_splits)
    ultimately show ?thesis by (intro exI [of _ w'] exI [of _ ?new]) auto
  qed
qed

text \<open>The freeze. Over any sequence of snapshot pushes, whatever the backend answers, at most one
  withdrawn snapshot of a vault is sent per session: exactly one if the sequence contains one and
  the vault was not frozen before, none otherwise. (So a withdrawn snapshot whose request failed
  is not repeated.)\<close>
lemma withdrawn_snapshot_once:
  assumes "e_backend E \<noteq> []" and "push_all E ps w = (r, w')"
  shows "r = Inr () \<and> length (filter (withdrawn_patch key) (fetched (since w w'))) =
    (if key \<notin> set (w_frozen w) \<and> (\<exists>(owner, i, snap)\<in>set ps. frozenKey owner i = key \<and> sn_status snap = Some ''withdrawn'') then 1 else 0)"
proof -
  obtain new where "r = Inr ()" and new: "w_log w' = w_log w @ new"
    "length (filter (withdrawn_patch key) (fetched new)) =
      (if key \<notin> set (w_frozen w) \<and> (\<exists>(owner, i, snap)\<in>set ps. frozenKey owner i = key \<and> sn_status snap = Some ''withdrawn'') then 1 else 0)"
    using push_all_run [OF assms(1), of ps w key] assms(2) by (elim exE conjE) (simp only: prod.inject)
  moreover have "since w w' = new" using new(1) by (simp add: since_def)
  ultimately show ?thesis by simp
qed

lemma withdrawn_snapshot_once_witness:
  "\<exists>w'. push_all demo_env (replicate 3 (''G'', ''7'', \<lparr>sn_balance = Some 0, sn_unlock = Some 5, sn_status = Some ''withdrawn''\<rparr>)) demo_world = (Inr (), w') \<and>
    length (filter (withdrawn_patch ''G::7'') (fetched (since demo_world w'))) = 1"
proof -
  let ?p = "push_all demo_env (replicate 3 (''G'', ''7'', \<lparr>sn_balance = Some 0, sn_unlock = Some 5, sn_status = Some ''withdrawn''\<rparr>)) demo_world"
  have "e_backend demo_env \<noteq> []" by (simp add: demo_env_def)
  from withdrawn_snapshot_once [OF this surjective_pairing [of ?p], of "''G::7''"]
  have "fst ?p = Inr ()" "length (filter (withdrawn_patch ''G::7'') (fetched (since demo_world (snd ?p)))) = 1"
    by (simp_all add: demo_world_def frozenKey_def numeral_3_eq_3 del: push_all.simps)
  then show ?thesis by (metis prod.collapse)
qed

section \<open>Hydration protects what the device has\<close>

text \<open>Each row comes with what storage answered for it.\<close>

definition answered_rows :: "env \<Rightarrow> string \<Rightarrow> (remote_meta \<times> (thrown + stored option)) list \<Rightarrow> history \<Rightarrow> bool" where
  "answered_rows E owner rows hist \<longleftrightarrow> (\<forall>(m, l)\<in>set rows. \<exists>hs h.
     prefix (hs @ [(AGetItem (metaKey owner (rm_vault_id m)), h)]) hist \<and>
     e_getItem E (hs @ [(AGetItem (metaKey owner (rm_vault_id m)), h)]) = l)"

lemma read_rows_run:
  "\<exists>rows w' new. read_rows E owner rs w = (Inr rows, w') \<and> map fst rows = rs \<and> w_log w' = w_log w @ new \<and>
    same_state w w' \<and> (\<forall>x\<in>set new. \<exists>k. fst x = AGetItem k) \<and> answered_rows E owner rows (w_log w')"
proof (induction rs arbitrary: w)
  case Nil
  show ?case by (auto simp: ret_eval answered_rows_def)
next
  case (Cons r rs)
  let ?a = "AGetItem (metaKey owner (rm_vault_id r))"
  let ?w1 = "record_action ?a w"
  obtain rows w' new where ih: "read_rows E owner rs ?w1 = (Inr rows, w')" "map fst rows = rs" "w_log w' = w_log ?w1 @ new"
    "same_state ?w1 w'" "\<forall>x\<in>set new. \<exists>k. fst x = AGetItem k" "answered_rows E owner rows (w_log w')"
    using Cons.IH by blast
  let ?l = "e_getItem E (w_log w @ [(?a, w_heap w)])"
  have "read_rows E owner (r # rs) w = (Inr ((r, ?l) # rows), w')"
    using ih(1) by (simp add: seqM_eval attemptM_eval ask_eval ret_eval)
  moreover have "\<exists>hs h. prefix (hs @ [(?a, h)]) (w_log w') \<and> e_getItem E (hs @ [(?a, h)]) = ?l"
    using ih(3) by (intro exI [of _ "w_log w"] exI [of _ "w_heap w"]) simp
  then have "answered_rows E owner ((r, ?l) # rows) (w_log w')"
    using ih(6) by (simp add: answered_rows_def)
  moreover have "map fst ((r, ?l) # rows) = r # rs" using ih(2) by simp
  moreover have "w_log w' = w_log w @ ((?a, w_heap w) # new)" using ih(3) by simp
  moreover have "\<forall>x\<in>set ((?a, w_heap w) # new). \<exists>k. fst x = AGetItem k" using ih(5) by simp
  moreover have "same_state w w'" using ih(4) by (simp add: same_state_def)
  ultimately show ?case
    by (intro exI [of _ "(r, ?l) # rows"] exI [of _ w'] exI [of _ "(?a, w_heap w) # new"] conjI)
qed

definition row_write :: "string \<Rightarrow> bool \<Rightarrow> (remote_meta \<times> (thrown + stored option)) list \<Rightarrow> entry \<Rightarrow> bool" where
  "row_write owner force rows x \<longleftrightarrow> (\<exists>m l. (m, Inr l) \<in> set rows \<and> (force \<or> isMissing l) \<and>
     fst x = ASetItem (metaKey owner (rm_vault_id m)) (StMeta (meta_of_remote m)))"

lemma row_write_Cons: "row_write owner force rows x \<Longrightarrow> row_write owner force (row # rows) x"
  by (auto simp: row_write_def)

lemma write_rows_run:
  "\<exists>results w' new. write_rows E owner force rows w = (Inr results, w') \<and> w_log w' = w_log w @ new \<and> same_state w w' \<and>
    (\<forall>x\<in>set new. row_write owner force rows x) \<and> length (filter (\<lambda>r. r = Inr ()) results) \<le> length new"
proof (induction rows arbitrary: w)
  case Nil
  show ?case by (auto simp: ret_eval)
next
  case (Cons row rows)
  obtain m local where row: "row = (m, local)" by (cases row)
  show ?case
  proof (cases "\<exists>l. local = Inr l \<and> (force \<or> isMissing l)")
    case True
    then obtain l where l: "local = Inr l" "force \<or> isMissing l" by blast
    let ?a = "ASetItem (metaKey owner (rm_vault_id m)) (StMeta (meta_of_remote m))"
    let ?w1 = "record_action ?a w"
    obtain results w' new where ih: "write_rows E owner force rows ?w1 = (Inr results, w')" "w_log w' = w_log ?w1 @ new"
      "same_state ?w1 w'" "\<forall>x\<in>set new. row_write owner force rows x" "length (filter (\<lambda>r. r = Inr ()) results) \<le> length new"
      using Cons.IH by blast
    let ?r = "e_setItem E (w_log w @ [(?a, w_heap w)])"
    have "write_rows E owner force (row # rows) w = (Inr (?r # results), w')"
      using ih(1) l by (auto simp: row saveMetaLocal_def seqM_eval attemptM_eval ask_eval ret_eval)
    moreover have "row_write owner force (row # rows) (?a, w_heap w)" using l by (auto simp: row_write_def row)
    ultimately show ?thesis using ih row_write_Cons
      by (intro exI [of _ "?r # results"] exI [of _ w'] exI [of _ "(?a, w_heap w) # new"]) (auto simp: same_state_def)
  next
    case False
    obtain results w' new where ih: "write_rows E owner force rows w = (Inr results, w')" "w_log w' = w_log w @ new"
      "same_state w w'" "\<forall>x\<in>set new. row_write owner force rows x" "length (filter (\<lambda>r. r = Inr ()) results) \<le> length new"
      using Cons.IH by blast
    obtain res' where res: "write_rows E owner force (row # rows) w = (Inr res', w')"
      "length (filter (\<lambda>r. r = Inr ()) res') = length (filter (\<lambda>r. r = Inr ()) results)"
      using ih(1) False by (cases local) (auto simp: row seqM_eval ret_eval)
    have "\<forall>x\<in>set new. row_write owner force (row # rows) x" using ih(4) row_write_Cons by blast
    moreover have "length (filter (\<lambda>r. r = Inr ()) res') \<le> length new" using res(2) ih(5) by simp
    ultimately show ?thesis using res(1) ih(2,3) by blast
  qed
qed

lemma appends_get_metas: "(\<And>o' c a h. P (AFetch (GetMetas o' c a), h)) \<Longrightarrow> appends P (get_metas E owner active)"
  by (auto simp: get_metas_def intro!: appends_intro)

lemma takeWhile_filter_length: "length (takeWhile P xs) \<le> length (filter P xs)"
  by (induction xs) auto

lemma count_le_results: "count_until_rejected rows results \<le> length (filter (\<lambda>r. r = Inr ()) results)"
  by (simp add: count_until_rejected_def takeWhile_filter_length)

text \<open>A hydration writes nothing, or reads the local rows and then writes.\<close>

lemma hydrateMetaImpl_run:
  assumes "hydrateMetaImpl E owner force w = (r, w')"
  obtains (nothing) "r = Inr 0" and "\<forall>x\<in>set (since w w'). \<forall>k s. fst x \<noteq> ASetItem k s"
    | (rows) rows results early late where "r = Inr (count_until_rejected rows results)" and "since w w' = early @ late"
      and "\<forall>x\<in>set early. \<forall>k s. fst x \<noteq> ASetItem k s" and "\<forall>x\<in>set late. row_write owner force rows x"
      and "answered_rows E owner rows (w_log w @ early)" and "prefix (w_log w @ early) (w_log w')" and "length (filter (\<lambda>r. r = Inr ()) results) \<le> length late"
proof (cases "e_backend E = []")
  case True
  show ?thesis by (rule nothing) (use assms True in \<open>auto simp: hydrateMetaImpl_def ret_eval since_def\<close>)
next
  case False
  obtain g w1 where g: "get_metas E owner True w = (g, w1)" by (cases "get_metas E owner True w")
  obtain n1 where n1: "w_log w1 = w_log w @ n1" "\<forall>x\<in>set n1. \<exists>q. fst x = AFetch q"
    using appendsD [OF appends_get_metas [where P = "\<lambda>x. \<exists>q. fst x = AFetch q"] g] by auto
  have no: "\<forall>x\<in>set n1. \<forall>k s. fst x \<noteq> ASetItem k s" using n1(2) by force
  show ?thesis
  proof (cases "\<exists>rs. g = Inr (Some rs)")
    case fetched_none: False
    then have res: "r = Inr 0" "w' = w1" using assms False g
      by (auto simp: hydrateMetaImpl_def catchM_eval seqM_eval ret_eval split: sum.splits option.splits)
    show ?thesis by (rule nothing) (use res n1 no in \<open>simp_all add: since_def\<close>)
  next
    case True
    then obtain rs where rs: "g = Inr (Some rs)" by blast
    obtain rws w2 n2 where r2: "read_rows E owner rs w1 = (Inr rws, w2)" "w_log w2 = w_log w1 @ n2"
      "\<forall>x\<in>set n2. \<exists>k. fst x = AGetItem k" "answered_rows E owner rws (w_log w2)"
      using read_rows_run [of E owner rs w1] by blast
    obtain results w3 n3 where r3: "write_rows E owner force rws w2 = (Inr results, w3)" "w_log w3 = w_log w2 @ n3"
      "\<forall>x\<in>set n3. row_write owner force rws x" "length (filter (\<lambda>r. r = Inr ()) results) \<le> length n3"
      using write_rows_run [of E owner force rws w2] by blast
    have res: "r = Inr (count_until_rejected rws results)" "w' = w3"
      using assms False g rs r2(1) r3(1) by (auto simp: hydrateMetaImpl_def catchM_eval seqM_eval ret_eval)
    show ?thesis
      by (rule rows [OF res(1), of "n1 @ n2" n3]) (use res n1(1) no r2(2-4) r3(2-4) in \<open>auto simp: since_def\<close>)
  qed
qed

text \<open>C39: hydration never throws and never loses a local row. It writes only to device storage, only
  copies of rows the backend sent; without \<open>force\<close> it writes a row only when storage has just
  answered that the device has none (or the empty default); and the number it reports is at most
  the number of rows it wrote.\<close>
theorem hydration_protects_local:
  assumes "hydrateMetaImpl E owner force w = (r, w')"
  shows "\<exists>n. r = Inr n \<and> n \<le> length (filter (\<lambda>x. \<exists>k s. fst x = ASetItem k s) (since w w')) \<and>
    (\<forall>k s h. (ASetItem k s, h) \<in> set (since w w') \<longrightarrow>
      (\<exists>m. k = metaKey owner (rm_vault_id m) \<and> s = StMeta (meta_of_remote m) \<and>
        (force \<or> (\<exists>hs h l. prefix (hs @ [(AGetItem k, h)]) (w_log w') \<and> e_getItem E (hs @ [(AGetItem k, h)]) = Inr l \<and> isMissing l))))"
  using assms
proof (cases rule: hydrateMetaImpl_run)
  case nothing
  then show ?thesis by fastforce
next
  case (rows rows results early late)
  have "filter (\<lambda>x. \<exists>k s. fst x = ASetItem k s) late = late"
    using rows(4) by (auto simp: row_write_def filter_id_conv)
  then have "length late \<le> length (filter (\<lambda>x. \<exists>k s. fst x = ASetItem k s) (since w w'))" by (simp add: rows(2))
  then have "count_until_rejected rows results \<le> length (filter (\<lambda>x. \<exists>k s. fst x = ASetItem k s) (since w w'))"
    using rows(7) count_le_results [of rows results] by linarith
  moreover have "\<exists>m. k = metaKey owner (rm_vault_id m) \<and> s = StMeta (meta_of_remote m) \<and>
      (force \<or> (\<exists>hs h l. prefix (hs @ [(AGetItem k, h)]) (w_log w') \<and> e_getItem E (hs @ [(AGetItem k, h)]) = Inr l \<and> isMissing l))"
    if x: "(ASetItem k s, h) \<in> set (since w w')" for k s h
  proof -
    have "(ASetItem k s, h) \<in> set late" using x rows(3) by (fastforce simp: rows(2))
    then obtain m l where m: "(m, Inr l) \<in> set rows" "force \<or> isMissing l" "k = metaKey owner (rm_vault_id m)"
      "s = StMeta (meta_of_remote m)" using rows(4) by (fastforce simp: row_write_def)
    obtain hs h where "prefix (hs @ [(AGetItem k, h)]) (w_log w @ early)" "e_getItem E (hs @ [(AGetItem k, h)]) = Inr l"
      using rows(5) m(1,3) by (fastforce simp: answered_rows_def)
    then show ?thesis using m rows(6) by (blast intro: prefix_order.trans)
  qed
  ultimately show ?thesis using rows(1) by blast
qed

theorem hydration_protects_local_witness:
  "\<exists>w' n. hydrateMetaImpl (demo_env\<lparr>e_fetch := \<lambda>_. Inr \<lparr>rs_ok = True, rs_metas = Inr [demo_remote ''7'' ''live'']\<rparr>\<rparr>) ''G'' False demo_world = (Inr n, w') \<and>
    n = 1 \<and> n \<le> length (filter (\<lambda>x. \<exists>k s. fst x = ASetItem k s) (since demo_world w'))"
proof -
  let ?E = "demo_env\<lparr>e_fetch := \<lambda>_. Inr \<lparr>rs_ok = True, rs_metas = Inr [demo_remote ''7'' ''live'']\<rparr>\<rparr>"
  let ?h = "hydrateMetaImpl ?E ''G'' False demo_world"
  have "fst ?h = Inr 1"
    by (simp add: hydrateMetaImpl_def get_metas_def saveMetaLocal_def count_until_rejected_def isMissing_def demo_unfold)
  moreover obtain n where "fst ?h = Inr n" "n \<le> length (filter (\<lambda>x. \<exists>k s. fst x = ASetItem k s) (since demo_world (snd ?h)))"
    using hydration_protects_local [OF surjective_pairing [of ?h]] by blast
  ultimately show ?thesis by (intro exI [of _ "snd ?h"] exI [of _ 1]) (auto simp: prod_eq_iff)
qed

end
