(* ===== verification/Vault_Events.thy ===== *)
theory Vault_Events imports Vault_Meta begin

text \<open>
  \<^verbatim>\<open>src/api/soroban-client.ts\<close>, lines 1006 to 1588: the contract's events as history rows, their two
  caches, the paged read with failover, the session flag for a broken simulate path, and the
  vaults reconstructed by replaying the events.
\<close>

section \<open>Parsing\<close>

definition EVENT_LEDGERS_WINDOW :: nat where
  "EVENT_LEDGERS_WINDOW = 17280"

definition EVENT_PAGE_LIMIT :: nat where
  "EVENT_PAGE_LIMIT = 200"

definition MAX_EVENTS :: nat where
  "MAX_EVENTS = 1000"

definition MAX_PAGES :: nat where
  "MAX_PAGES = 20"

definition EVENT_CACHE_MS :: int where
  "EVENT_CACHE_MS = 8000"

definition EVENT_DISK_TTL_MS :: int where
  "EVENT_DISK_TTL_MS = 24 * 60 * 60 * 1000"

definition decodeKind :: "string \<Rightarrow> event_kind option" where
  "decodeKind nm = (if nm = ''create'' then Some KCreate else if nm = ''deposit'' then Some KDeposit
     else if nm = ''extend'' then Some KExtend else if nm = ''withdraw'' then Some KWithdraw else None)"

text \<open>\<^verbatim>\<open>Number(v)\<close>, \<open>None\<close> for a result that is not finite.\<close>

definition js_Number :: "native \<Rightarrow> number option" where
  "js_Number v = (case v of NInt n \<Rightarrow> Some (js_of_int n) | NBool b \<Rightarrow> Some (if b then 1 else 0) | NNull \<Rightarrow> Some 0
     | NUndef \<Rightarrow> None | _ \<Rightarrow> string_number (js_String v))"

definition js_at :: "native list \<Rightarrow> nat \<Rightarrow> native" where
  "js_at vs i = (if i < length vs then vs ! i else NUndef)"

text \<open>\<^verbatim>\<open>new Date(Number(v) * 1000).toISOString().slice(0, 10)\<close>\<close>

definition date_of :: "native \<Rightarrow> thrown + string" where
  "date_of v = iso_date10 (map_option (\<lambda>x. js_mul x 1000) (js_Number v))"

definition parseEvent :: "env \<Rightarrow> event_response \<Rightarrow> thrown + parsed_event option" where
  "parseEvent E ev =
     (if length (er_topic ev) < 2 then Inr None
      else bind_res (e_native E (er_topic ev ! 0)) (\<lambda>kindRaw.
        case decodeKind (js_String kindRaw) of
          None \<Rightarrow> Inr None
        | Some kind \<Rightarrow>
            bind_res (e_native E (er_topic ev ! 1)) (\<lambda>ownerRaw.
            bind_res (e_native E (er_data ev)) (\<lambda>v.
              case v of
                NVec vs \<Rightarrow>
                  if vs = [] then Inr None
                  else bind_res
                    (case kind of
                       KCreate \<Rightarrow> bind_res (js_BigInt (js_at vs 1)) (\<lambda>n. bind_res (date_of (js_at vs 2)) (\<lambda>d.
                         Inr (stroopsToXlm n, ''unlock '' @ d)))
                     | KDeposit \<Rightarrow> bind_res (js_BigInt (js_at vs 1)) (\<lambda>n. Inr (stroopsToXlm n, []))
                     | KWithdraw \<Rightarrow> bind_res (js_BigInt (js_at vs 1)) (\<lambda>n. Inr (stroopsToXlm n, []))
                     | KExtend \<Rightarrow> bind_res (date_of (js_at vs 1)) (\<lambda>d. Inr (0, ''new unlock '' @ d)))
                    (\<lambda>(amount, note). Inr (Some
                      \<lparr>ev_tx_id = er_txHash ev, ev_vault_id = js_String (js_at vs 0), ev_owner = js_String ownerRaw,
                       ev_kind = kind, ev_amount = amount, ev_note = note, ev_timestamp = er_closed_sec ev,
                       ev_created_at = er_closedAt ev\<rparr>))
              | _ \<Rightarrow> Inr None))))"

section \<open>The caches\<close>

definition eventDiskKey :: "deployment \<Rightarrow> string" where
  "eventDiskKey dep = ''xlm_vault_events_cache:'' @ d_contractId dep"

text \<open>The subscription to the active network drops the memory cache.\<close>

definition onNetworkChange :: "world \<Rightarrow> world" where
  "onNetworkChange w = w\<lparr>w_eventCache := None\<rparr>"

definition readDiskCache :: "env \<Rightarrow> (world, 'e, persisted option) eff" where
  "readDiskCache E =
     seqM (getActiveDeployment E) (\<lambda>dep.
     seqM (attemptM (ask (AGetItem (eventDiskKey dep)) (e_getItem E))) (\<lambda>raw.
     seqM (getM (\<lambda>w. (e_dep E (w_log w), e_now E (w_log w)))) (\<lambda>(dep', now).
       ret (case raw of
              Inr (Some (StEvents p)) \<Rightarrow>
                if ps_contractId p \<noteq> d_contractId dep' then None
                else if now - ps_fetchedAt p > EVENT_DISK_TTL_MS then None
                else Some p
            | _ \<Rightarrow> None))))"

definition writeDiskCache :: "env \<Rightarrow> persisted \<Rightarrow> (world, 'e, unit) eff" where
  "writeDiskCache E payload =
     seqM (getActiveDeployment E) (\<lambda>dep.
     seqM (attemptM (ask (ASetItem (eventDiskKey dep) (StEvents payload)) (e_setItem E))) (\<lambda>_. ret ()))"

definition setEventCache :: "env \<Rightarrow> parsed_event list \<Rightarrow> (world, 'e, unit) eff" where
  "setEventCache E data = updM (\<lambda>w. w\<lparr>w_eventCache := Some (e_now E (w_log w), data)\<rparr>)"

definition invalidateAllCaches :: "env \<Rightarrow> (world, 'e, unit) eff" where
  "invalidateAllCaches E =
     seqM (updM (\<lambda>w. w\<lparr>w_eventCache := None\<rparr>)) (\<lambda>_.
     seqM (getActiveDeployment E) (\<lambda>dep. act (ARemoveItem (eventDiskKey dep)) ()))"

definition invalidateRpcCaches :: "env \<Rightarrow> (world, 'e, unit) eff" where
  "invalidateRpcCaches E = invalidateAllCaches E"

section \<open>The paged read\<close>

text \<open>The disk's events, or the network error when there are none.\<close>

definition disk_or_throw :: "env \<Rightarrow> phase \<Rightarrow> thrown \<Rightarrow> parsed_event list io" where
  "disk_or_throw E ph err =
     seqM (readDiskCache E) (\<lambda>disk.
       case disk of
         Some d \<Rightarrow> seqM (setEventCache E (ps_events d)) (\<lambda>_. ret (ps_events d))
       | None \<Rightarrow> throw (Soroban (networkError ''getEvents'' ph err)))"

text \<open>\<^verbatim>\<open>for (const ev of res.events) ...\<close>: what parses is pushed, what throws stops everything.\<close>

fun parse_page :: "env \<Rightarrow> event_response list \<Rightarrow> thrown + parsed_event list" where
  "parse_page E [] = Inr []"
| "parse_page E (ev # evs) =
     bind_res (parseEvent E ev) (\<lambda>parsed. bind_res (parse_page E evs) (\<lambda>rest.
       Inr (case parsed of None \<Rightarrow> rest | Some p \<Rightarrow> p # rest)))"

text \<open>One request: with a cursor it goes on there, without one it starts at the ledger.\<close>

definition events_from :: "nat \<Rightarrow> string option \<Rightarrow> events_start" where
  "events_from startLedger cursor = (if truthy cursor then FromCursor (the cursor) else FromLedger startLedger)"

definition get_page :: "env \<Rightarrow> deployment \<Rightarrow> nat \<Rightarrow> string option \<Rightarrow> (thrown + events_page) io" where
  "get_page E dep startLedger cursor =
     attemptM (with_failover E dep id as_error
       (seqM (getActiveDeployment E) (\<lambda>d. seqM (rpcServer E) (\<lambda>server.
         ask (AGetEvents server (d_contractId d) (events_from startLedger cursor) EVENT_PAGE_LIMIT) (e_getEvents E)))))"

text \<open>The page loop: the events of all pages, or how a failing page ends the whole read.\<close>

datatype pages = AllPages "parsed_event list" | Ended "parsed_event list"

fun read_pages :: "env \<Rightarrow> deployment \<Rightarrow> nat \<Rightarrow> nat \<Rightarrow> string option \<Rightarrow> parsed_event list \<Rightarrow> pages io" where
  "read_pages E dep startLedger 0 cursor events = ret (AllPages events)"
| "read_pages E dep startLedger (Suc n) cursor events =
     (if length events \<ge> MAX_EVENTS then ret (AllPages events)
      else seqM (get_page E dep startLedger cursor) (\<lambda>res.
        case res of
          Inl pageErr \<Rightarrow> seqM (disk_or_throw E PSimulate pageErr) (\<lambda>d. ret (Ended d))
        | Inr page \<Rightarrow>
            seqM (liftM (parse_page E (ep_events page))) (\<lambda>parsed.
              if \<not> truthy (ep_cursor page) \<or> ep_cursor page = cursor then ret (AllPages (events @ parsed))
              else read_pages E dep startLedger n (ep_cursor page) (events @ parsed))))"

definition fetch_events :: "env \<Rightarrow> deployment \<Rightarrow> parsed_event list io" where
  "fetch_events E dep =
     seqM (attemptM (with_failover E dep id as_error
       (seqM (rpcServer E) (\<lambda>server. ask (AGetLedger server) (e_getLedger E))))) (\<lambda>latest.
     case latest of
       Inl latestErr \<Rightarrow> disk_or_throw E PBuild latestErr
     | Inr latestLedger \<Rightarrow>
         (let startLedger = max 1 (latestLedger - EVENT_LEDGERS_WINDOW)
          in seqM (read_pages E dep startLedger MAX_PAGES None []) (\<lambda>p.
            case p of
              Ended d \<Rightarrow> ret d
            | AllPages events \<Rightarrow>
                seqM (setEventCache E events) (\<lambda>_.
                seqM (getM (\<lambda>w. (d_contractId (e_dep E (w_log w)), e_now E (w_log w)))) (\<lambda>(cid, now).
                seqM (writeDiskCache E \<lparr>ps_contractId = cid, ps_fetchedAt = now, ps_latestLedger = latestLedger,
                  ps_startLedger = startLedger, ps_events = events\<rparr>) (\<lambda>_. ret events))))))"

definition fetchContractEvents :: "env \<Rightarrow> parsed_event list io" where
  "fetchContractEvents E =
     seqM (getM (\<lambda>w. (w_eventCache w, e_now E (w_log w), e_dep E (w_log w)))) (\<lambda>(cache, now, dep).
       case cache of
         Some (when, data) \<Rightarrow> if now - when < EVENT_CACHE_MS then ret data else fetch_events E dep
       | None \<Rightarrow> fetch_events E dep)"

section \<open>The simulate path's flag\<close>

text \<open>\<^verbatim>\<open>/cannot read prop\w+ of (?:undefined|null)/\<close>, somewhere in the text.\<close>

definition is_word :: "char \<Rightarrow> bool" where
  "is_word c \<longleftrightarrow> (let n = of_char c :: nat in 48 \<le> n \<and> n \<le> 57 \<or> 65 \<le> n \<and> n \<le> 90 \<or> n = 95 \<or> 97 \<le> n \<and> n \<le> 122)"

definition deref_here :: "string \<Rightarrow> bool" where
  "deref_here s \<longleftrightarrow> prefix ''cannot read prop'' s \<and>
     (let t = drop 16 s; u = dropWhile is_word t
      in takeWhile is_word t \<noteq> [] \<and> (prefix '' of undefined'' u \<or> prefix '' of null'' u))"

fun deref_text :: "string \<Rightarrow> bool" where
  "deref_text [] = False"
| "deref_text (c # s) = (deref_here (c # s) \<or> deref_text s)"

definition isXdrParseError :: "thrown \<Rightarrow> bool" where
  "isXdrParseError e =
     (let lc = to_lower (err_text e)
      in str_includes lc ''invalid checksum'' \<or> str_includes lc ''scvaltonative'' \<or> str_includes lc ''bad union switch'' \<or>
         str_includes lc ''bad value'' \<or> str_includes lc ''xdr'' \<or> str_includes lc ''buffer is not'' \<or>
         str_includes lc ''textencoder'' \<or> str_includes lc ''textdecoder'' \<or> deref_text lc)"

definition markSimulateBroken :: "world \<Rightarrow> world" where
  "markSimulateBroken w = (if w_simBroken w then w else w\<lparr>w_simBroken := True\<rparr>)"

section \<open>Vaults from events\<close>

record accum =
  a_balance :: number
  a_unlock :: int
  a_created :: int
  a_withdrawn :: bool

text \<open>\<^verbatim>\<open>/(\d{4})-(\d{2})-(\d{2})/\<close>, leftmost.\<close>

definition date_here :: "string \<Rightarrow> (string \<times> string \<times> string) option" where
  "date_here s =
     (let y = take 4 s; m = take 2 (drop 5 s); d = take 2 (drop 8 s)
      in if length s \<ge> 10 \<and> list_all is_digit y \<and> s ! 4 = CHR ''-'' \<and> list_all is_digit m \<and> s ! 7 = CHR ''-'' \<and> list_all is_digit d
         then Some (y, m, d) else None)"

fun match_date :: "string \<Rightarrow> (string \<times> string \<times> string) option" where
  "match_date [] = None"
| "match_date (c # s) = (case date_here (c # s) of Some r \<Rightarrow> Some r | None \<Rightarrow> match_date s)"

definition dateNoteToSec :: "env \<Rightarrow> string \<Rightarrow> int" where
  "dateNoteToSec E note = (case match_date note of
      None \<Rightarrow> 0
    | Some (ys, ms, ds) \<Rightarrow>
        let year = digits_value ys
        in if year < 2020 \<or> year > 2100 then 0
           else (case date_parse (e_parseDate E) (ys @ ''-'' @ ms @ ''-'' @ ds @ ''T00:00:00Z'') of
                   None \<Rightarrow> 0 | Some ms \<Rightarrow> ms div 1000))"

definition apply_event :: "env \<Rightarrow> parsed_event \<Rightarrow> accum \<Rightarrow> accum" where
  "apply_event E ev v = (case ev_kind ev of
      KCreate \<Rightarrow> v\<lparr>a_balance := js_add (a_balance v) (ev_amount ev)\<rparr>
    | KDeposit \<Rightarrow> v\<lparr>a_balance := js_add (a_balance v) (ev_amount ev)\<rparr>
    | KExtend \<Rightarrow> (let newUnlock = dateNoteToSec E (ev_note ev)
        in if newUnlock > a_unlock v then v\<lparr>a_unlock := newUnlock\<rparr> else v)
    | KWithdraw \<Rightarrow> v\<lparr>a_balance := 0, a_withdrawn := True\<rparr>)"

definition seed_accum :: "env \<Rightarrow> parsed_event \<Rightarrow> accum" where
  "seed_accum E ev = \<lparr>a_balance = 0, a_unlock = dateNoteToSec E (ev_note ev), a_created = ev_timestamp ev, a_withdrawn = False\<rparr>"

definition replay_event :: "env \<Rightarrow> parsed_event \<Rightarrow> (string, accum) jsmap \<Rightarrow> (string, accum) jsmap" where
  "replay_event E ev byId = (case jm_get byId (ev_vault_id ev) of
      Some v \<Rightarrow> jm_set (ev_vault_id ev) (apply_event E ev v) byId
    | None \<Rightarrow> if ev_kind ev \<noteq> KCreate then byId
        else jm_set (ev_vault_id ev) (apply_event E ev (seed_accum E ev)) byId)"

definition older_first :: "parsed_event \<Rightarrow> parsed_event \<Rightarrow> bool" where
  "older_first a b \<longleftrightarrow> ev_timestamp a - ev_timestamp b \<le> 0"

definition replay :: "env \<Rightarrow> string \<Rightarrow> parsed_event list \<Rightarrow> (string, accum) jsmap" where
  "replay E owner events = fold (replay_event E) (js_sort older_first (filter (\<lambda>e. ev_owner e = owner) events)) []"

text \<open>The row of one reconstructed vault; the backend's snapshot wins over the events.\<close>

definition event_row :: "env \<Rightarrow> string \<Rightarrow> int \<Rightarrow> string \<Rightarrow> accum \<Rightarrow> vault_meta \<Rightarrow> remote_meta option \<Rightarrow> vault" where
  "event_row E owner nowSec i v meta remote =
     (let
          finalUnlock = (if remote \<noteq> None \<and> coalesce (Option.bind remote rm_unlock) 0 > 0 then the (Option.bind remote rm_unlock) else of_int (a_unlock v));
          finalBalance = (if remote \<noteq> None \<and> Option.bind remote rm_balance \<noteq> None \<and> \<not> a_withdrawn v then the (Option.bind remote rm_balance) else a_balance v);
          finalWithdrawn = (a_withdrawn v \<or> Option.bind remote rm_status = Some ''withdrawn'');
          finalCreated = (if a_created v > 0 then of_int (a_created v)
             else parseIsoToUnix E (coalesce_opt (Option.bind remote rm_created_at) (Option.bind remote rm_updated_at)));
          status = (if finalWithdrawn then Withdrawn else if of_int nowSec \<ge> finalUnlock then Unlocked else Locked);
          name = (if nonblank (Option.bind remote rm_name) then the (Option.bind remote rm_name)
                  else if nonblank (vm_name meta) then the (vm_name meta) else ''Vault #'' @ i)
      in \<lparr>va_vault_id = i, va_owner = owner, va_name = name,
          va_description = coalesce (coalesce_opt (Option.bind remote rm_description) (vm_description meta)) [],
          va_template = coalesce (coalesce_opt (Option.bind remote rm_template) (vm_template meta)) ''custom'',
          va_balance = (if finalWithdrawn then 0 else finalBalance),
          va_target = coalesce_opt (Option.bind remote rm_target) (vm_target meta),
          va_unlock = finalUnlock, va_created = finalCreated, va_status = status\<rparr>)"

fun event_rows :: "env \<Rightarrow> string \<Rightarrow> int \<Rightarrow> (string, remote_meta) jsmap \<Rightarrow> (string \<times> accum) list \<Rightarrow> vault list io" where
  "event_rows E owner nowSec metas [] = ret []"
| "event_rows E owner nowSec metas ((i, v) # vs) =
     seqM (loadMeta E owner i) (\<lambda>meta.
     seqM (event_rows E owner nowSec metas vs) (\<lambda>rest.
       ret (event_row E owner nowSec i v meta (jm_get metas i) # rest)))"

definition newer_first :: "vault \<Rightarrow> vault \<Rightarrow> bool" where
  "newer_first a b \<longleftrightarrow> va_created b - va_created a \<le> 0"

definition aggregateVaultsFromEvents :: "env \<Rightarrow> string \<Rightarrow> (string, remote_meta) jsmap \<Rightarrow> vault list io" where
  "aggregateVaultsFromEvents E owner remoteMetasById =
     seqM (fetchContractEvents E) (\<lambda>events.
     seqM (getM (\<lambda>w. e_now E (w_log w) div 1000)) (\<lambda>nowSec.
     seqM (event_rows E owner nowSec remoteMetasById (replay E owner events)) (\<lambda>out.
       ret (js_sort newer_first out))))"

section \<open>The unlock date in a note\<close>

lemma day_from_year_mono: "y < z \<Longrightarrow> day_from_year y < day_from_year z"
proof (induction z rule: int_gr_induct [of y])
  case base
  show ?case using day_from_year_Suc [of y] year_length_bounds(1) [of y] by linarith
next
  case (step i)
  then show ?case using day_from_year_Suc [of i] year_length_bounds(1) [of i] by linarith
qed

lemma year_between:
  assumes "day_from_year a \<le> d" and "d < day_from_year (b + 1)"
  shows "a \<le> year_of_day d \<and> year_of_day d \<le> b"
proof -
  have "\<not> year_of_day d < a"
    using day_from_year_mono [of "year_of_day d + 1" a] year_of_day_spec [of d] assms(1) by (cases "year_of_day d + 1 = a") auto
  moreover have "\<not> b + 1 \<le> year_of_day d"
    using day_from_year_mono [of "b + 1" "year_of_day d"] year_of_day_spec [of d] assms(2) by (cases "b + 1 = year_of_day d") auto
  ultimately show ?thesis by linarith
qed

lemma date_here_pads: "date_here (pad4 y @ CHR ''-'' # pad2 m @ CHR ''-'' # pad2 d @ s) = Some (pad4 y, pad2 m, pad2 d)"
  by (simp add: date_here_def pad4_def pad2_def)

lemma match_date_skip:
  "list_all (\<lambda>c. \<not> is_digit c) pre \<Longrightarrow> match_date (pre @ s) = match_date s"
proof (induction pre)
  case (Cons c pre)
  then have "\<not> is_digit c" by simp
  then have "date_here (c # pre @ s) = None" by (auto simp: date_here_def Let_def)
  then show ?case using Cons by simp
qed simp

lemma match_date_pads:
  assumes "list_all (\<lambda>c. \<not> is_digit c) pre"
  shows "match_date (pre @ pad4 y @ CHR ''-'' # pad2 m @ CHR ''-'' # pad2 d) = Some (pad4 y, pad2 m, pad2 d)"
  using date_here_pads [of y m d "[]"] match_date_skip [OF assms] by (simp add: pad4_def pad2_def)

lemma date_of_seconds:
  assumes "0 \<le> t" and "t \<le> 8640000000000" and "civil (t div 86400) = (y, m, d)" and "0 \<le> y" and "y \<le> 9999"
  shows "date_of (NInt t) = Inr (pad4 (nat y) @ CHR ''-'' # pad2 m @ CHR ''-'' # pad2 d)"
proof -
  have n: "js_of_int t = of_int t" using assms by (intro js_of_int_exact) simp
  have "js_mul (of_int t) 1000 = rnd (of_int (t * 1000))" by (simp add: js_mul_def)
  also have "\<dots> = of_int (t * 1000)" using assms by (intro rnd_of_int) simp
  finally have x: "js_mul (js_of_int t) 1000 = of_int (t * 1000)" by (simp add: n)
  obtain k where k: "k = t * 1000" by blast
  have "(of_int k :: rat) \<le> of_int 8640000000000000" using assms unfolding k by (intro of_int_leI) simp
  moreover have "(of_int 0 :: rat) \<le> of_int k" using assms unfolding k by (intro of_int_leI) simp
  moreover have "k div 86400000 = t div 86400"
    using div_mult_mult2 [of 1000 t 86400] by (simp add: k)
  ultimately show ?thesis using assms
    by (simp add: date_of_def js_Number_def x [folded k] iso_date10_def Let_def pad4_def pad2_def)
qed

text \<open>What an unlock time loses on its way through the history note. Every unlock time from 2020 to
  2100 that the contract's event carries is printed into the note without error and read back
  from it as midnight UTC of its day: never later than the real unlock time, and less than a day
  earlier.\<close>
lemma unlock_note_roundtrip:
  assumes "1577836800 \<le> t" and "t < 4133980800" and "list_all (\<lambda>c. \<not> is_digit c) pre"
  shows "\<exists>d. date_of (NInt t) = Inr d \<and> dateNoteToSec E (pre @ d) = t - t mod 86400"
proof -
  obtain y m d where c: "civil (t div 86400) = (y, m, d)" by (cases "civil (t div 86400)")
  note cs = civil_spec [OF c]
  have "day_from_year 2020 = 18262" "day_from_year 2101 = 47847" by (simp_all add: day_from_year_def)
  moreover have "18262 \<le> t div 86400" "t div 86400 < 47847" using assms by auto
  ultimately have y: "2020 \<le> y" "y \<le> 2100" using year_between [of 2020 "t div 86400" 2100] cs(6) by auto
  let ?s = "pad4 (nat y) @ CHR ''-'' # pad2 m @ CHR ''-'' # pad2 d"
  have "date_of (NInt t) = Inr ?s" using assms c y by (intro date_of_seconds) auto
  moreover have "dateNoteToSec E (pre @ ?s) = t - t mod 86400"
  proof -
    have "parse_iso (pad4 (nat y) @ CHR ''-'' # pad2 m @ CHR ''-'' # pad2 d @ ''T00:00:00Z'') = Some (make_day (int (nat y)) m d * 86400000)"
      using y cs by (intro parse_midnight) auto
    then have "date_parse (e_parseDate E) (pad4 (nat y) @ ''-'' @ pad2 m @ ''-'' @ pad2 d @ ''T00:00:00Z'') = Some (t div 86400 * 86400000)"
      using y cs(1) by (simp add: date_parse_def)
    moreover have "t div 86400 * 86400000 div 1000 = t div 86400 * 86400" by simp
    moreover have "t div 86400 * 86400 = t - t mod 86400" by (simp add: minus_mod_eq_div_mult)
    moreover have "2020 \<le> nat y" "nat y \<le> 2100" using y by linarith+
    ultimately show ?thesis using match_date_pads [OF assms(3), of "nat y" m d]
      by (simp add: dateNoteToSec_def digits_pad4 Let_def)
  qed
  ultimately show ?thesis by blast
qed

lemma unlock_note_roundtrip_witness:
  "\<exists>d. date_of (NInt 1709251199) = Inr d \<and> dateNoteToSec demo_env (''unlock '' @ d) = 1709164800"
  using unlock_note_roundtrip [of 1709251199 "''unlock ''" demo_env] by (simp add: is_digit_def)

section \<open>A date that stops the history\<close>

lemma date_of_late:
  assumes "8640000000000 < t"
  shows "date_of (NInt t) = Inl (JsError ''Invalid time value'')"
proof -
  have "8640000000000000 < js_mul (js_of_int t) 1000"
  proof (cases "t < 2 ^ 53")
    case True
    then have n: "js_of_int t = of_int t" using assms by (intro js_of_int_exact) simp
    show ?thesis
    proof (cases "t * 1000 < 2 ^ 53")
      case True
      then have "rnd (of_int (t * 1000)) = of_int (t * 1000)" using assms by (intro rnd_of_int) simp
      moreover have "(of_int 8640000000000000 :: rat) < of_int (t * 1000)" using assms by (intro of_int_lessI) simp
      ultimately show ?thesis by (simp add: js_mul_def n)
    next
      case False
      then have "(of_int (2 ^ 53) :: rat) \<le> of_int (t * 1000)" by (intro of_int_leI) simp
      then have "2 ^ 53 \<le> rnd (of_int (t * 1000))" by (intro rnd_large) simp
      then show ?thesis by (simp add: js_mul_def n)
    qed
  next
    case False
    then have "(of_int (2 ^ 53) :: rat) \<le> of_int t" by (intro of_int_leI) simp
    then have "2 ^ 53 \<le> js_of_int t" unfolding js_of_int_def by (intro rnd_large) simp
    then have "2 ^ 53 \<le> js_mul (js_of_int t) 1000" unfolding js_mul_def by (intro rnd_large) simp
    then show ?thesis by simp
  qed
  then show ?thesis by (simp add: date_of_def js_Number_def iso_date10_def)
qed

definition late_create :: "env \<Rightarrow> event_response \<Rightarrow> bool" where
  "late_create E ev \<longleftrightarrow> (\<exists>a b i n t o'. er_topic ev = [a, b] \<and> e_native E a = Inr (NStr ''create'') \<and>
     e_native E b = Inr o' \<and> e_native E (er_data ev) = Inr (NVec [NInt i, NInt n, NInt t]) \<and> 8640000000000 < t)"

lemma parseEvent_late: "late_create E ev \<Longrightarrow> parseEvent E ev = Inl (JsError ''Invalid time value'')"
  by (auto simp: late_create_def parseEvent_def decodeKind_def js_BigInt_def js_at_def date_of_late Let_def)

lemma parse_page_stops: "ev \<in> set evs \<Longrightarrow> parseEvent E ev = Inl e \<Longrightarrow> \<exists>e'. parse_page E evs = Inl e'"
proof (induction evs)
  case (Cons x xs)
  show ?case
  proof (cases "parseEvent E x")
    case (Inr y)
    then have "ev \<in> set xs" using Cons.prems by auto
    then show ?thesis using Cons Inr by auto
  qed simp
qed simp

text \<open>One vault can stop everybody's history. The contract accepts any unlock time in the future; a
  \<^verbatim>\<open>create\<close> event whose unlock time lies beyond the range of a date (8.64e12 seconds), anyone's, in
  a page that the server returns makes reading the events throw, whatever else the page holds
  and whatever the caches on disk hold.\<close>
lemma late_unlock_stops_history:
  assumes "get_page E dep startLedger cursor w = (Inr (Inr page), w1)" and "ev \<in> set (ep_events page)"
    and "late_create E ev" and "length events < MAX_EVENTS"
  shows "\<exists>e. read_pages E dep startLedger (Suc n) cursor events w = (Inl e, w1)"
proof -
  obtain e where "parse_page E (ep_events page) = Inl e"
    using parse_page_stops [OF assms(2) parseEvent_late [OF assms(3)]] by blast
  then show ?thesis using assms(1,4) by (simp add: seqM_eval liftM_eval)
qed

definition late_env :: env where
  "late_env = demo_env\<lparr>
     e_getEvents := \<lambda>_. Inr \<lparr>ep_events = [\<lparr>er_topic = [''c'', ''o''], er_data = ''v'', er_txHash = ''h'', er_closedAt = ''t'', er_closed_sec = 9\<rparr>],
       ep_cursor = None\<rparr>,
     e_native := \<lambda>x. if x = ''c'' then Inr (NStr ''create'') else if x = ''v'' then Inr (NVec [NInt 3, NInt 10000000, NInt 9000000000000])
       else Inr (NStr ''GOTHER'')\<rparr>"

lemma late_unlock_stops_history_witness:
  "\<exists>e. fst (fetchContractEvents late_env demo_world) = Inl e"
proof -
  let ?dep = "e_dep demo_env []"
  let ?w0 = "record_action (AGetLedger ''r1'') demo_world"
  obtain page w1 ev where g: "get_page late_env ?dep 2720 None ?w0 = (Inr (Inr page), w1)" "ev \<in> set (ep_events page)" "late_create late_env ev"
    by (simp add: get_page_def late_env_def late_create_def demo_unfold)
  obtain e where e: "read_pages late_env ?dep 2720 (Suc 19) None [] ?w0 = (Inl e, w1)"
    using late_unlock_stops_history [OF g, of "[]" 19] by (auto simp: MAX_EVENTS_def)
  have "with_failover late_env ?dep id as_error (seqM (rpcServer late_env) (\<lambda>server. ask (AGetLedger server) (e_getLedger late_env))) demo_world =
      (Inr 20000, ?w0)"
    by (simp add: late_env_def demo_unfold)
  moreover have "max 1 (20000 - EVENT_LEDGERS_WINDOW) = 2720" by (simp add: EVENT_LEDGERS_WINDOW_def)
  moreover have "MAX_PAGES = Suc 19" by (simp add: MAX_PAGES_def)
  moreover have "w_eventCache demo_world = None" "e_dep late_env (w_log demo_world) = ?dep" by (simp_all add: late_env_def demo_world_def)
  ultimately have "fst (fetchContractEvents late_env demo_world) = Inl e"
    using e by (simp add: fetchContractEvents_def fetch_events_def seqM_eval getM_eval attemptM_eval Let_def del: read_pages.simps)
  then show ?thesis by blast
qed

section \<open>Replay\<close>

interpretation by_time: comparator older_first
  by unfold_locales (auto simp: older_first_def)

interpretation by_newest: comparator newer_first
  by unfold_locales (auto simp: newer_first_def)

text \<open>What the replay is to compute for one vault, from that vault's events alone: nothing before the
  first create event; from it on, the fold of the events.\<close>

fun replay_one :: "env \<Rightarrow> parsed_event list \<Rightarrow> accum option" where
  "replay_one E [] = None"
| "replay_one E (e # es) = (if ev_kind e = KCreate then Some (fold (apply_event E) es (apply_event E e (seed_accum E e)))
     else replay_one E es)"

definition continue_replay :: "env \<Rightarrow> parsed_event list \<Rightarrow> accum option \<Rightarrow> accum option" where
  "continue_replay E es v = (case v of Some v \<Rightarrow> Some (fold (apply_event E) es v) | None \<Rightarrow> replay_one E es)"

lemma replay_event_ok: "jm_ok m \<Longrightarrow> jm_ok (replay_event E e m)"
  by (auto simp: replay_event_def jm.ok_insert split: option.splits)

lemma replay_event_lookup:
  assumes "jm_ok m"
  shows "jm_get (replay_event E e m) i =
    (if ev_vault_id e = i then
       (case jm_get m i of Some v \<Rightarrow> Some (apply_event E e v)
        | None \<Rightarrow> if ev_kind e \<noteq> KCreate then None else Some (apply_event E e (seed_accum E e)))
     else jm_get m i)"
  using assms by (auto simp: replay_event_def jm.lookup_insert split: option.splits)

lemma replay_fold:
  assumes "jm_ok m"
  shows "jm_ok (fold (replay_event E) evs m) \<and>
    jm_get (fold (replay_event E) evs m) i = continue_replay E (filter (\<lambda>e. ev_vault_id e = i) evs) (jm_get m i)"
  using assms
proof (induction evs arbitrary: m)
  case Nil
  then show ?case by (simp add: continue_replay_def split: option.splits)
next
  case (Cons e evs)
  show ?case using Cons.IH [OF replay_event_ok [OF Cons.prems], of E e] replay_event_lookup [OF Cons.prems, of E e i]
    by (auto simp: continue_replay_def split: option.splits)
qed

lemma replay_lookup:
  "jm_ok (replay E owner events)"
  "jm_get (replay E owner events) i =
    replay_one E (filter (\<lambda>e. ev_vault_id e = i) (js_sort older_first (filter (\<lambda>e. ev_owner e = owner) events)))"
  using replay_fold [OF jm.ok_empty, of E "js_sort older_first (filter (\<lambda>e. ev_owner e = owner) events)" i]
  by (simp_all add: replay_def continue_replay_def jm.lookup_empty)

text \<open>After a create event the flag is set exactly by a withdrawal, and the last withdrawal empties.\<close>

lemma withdrawn_apply: "a_withdrawn (apply_event E e v) \<longleftrightarrow> a_withdrawn v \<or> ev_kind e = KWithdraw"
  by (auto simp: apply_event_def Let_def split: event_kind.splits)

lemma withdrawn_fold: "a_withdrawn (fold (apply_event E) es v) \<longleftrightarrow> a_withdrawn v \<or> (\<exists>e\<in>set es. ev_kind e = KWithdraw)"
  by (induction es arbitrary: v) (auto simp: withdrawn_apply)

lemma unlock_fold: "a_unlock v \<le> a_unlock (fold (apply_event E) es v)"
proof (induction es arbitrary: v)
  case (Cons e es)
  have "a_unlock v \<le> a_unlock (apply_event E e v)" by (auto simp: apply_event_def Let_def split: event_kind.splits)
  then show ?case using Cons [of "apply_event E e v"] by simp
qed simp

text \<open>C16: vaults are reconstructed independently and in causal order. For any event stream in any order,
  the accumulator of a vault is the fold, in time order, of the events of that owner and vault
  from the first create event on; other vaults, other owners and earlier events have no
  influence; it is marked withdrawn exactly when a withdrawal follows that create event; and its
  unlock time never falls below the one of the create event.\<close>
theorem replay_per_vault:
  defines "mine \<equiv> \<lambda>owner i events. filter (\<lambda>e. ev_vault_id e = i) (js_sort older_first (filter (\<lambda>e. ev_owner e = owner) events))"
  shows "jm_get (replay E owner events) i = replay_one E (mine owner i events) \<and>
    sorted_wrt older_first (mine owner i events) \<and>
    mset (mine owner i events) = mset (filter (\<lambda>e. ev_owner e = owner \<and> ev_vault_id e = i) events) \<and>
    (case dropWhile (\<lambda>e. ev_kind e \<noteq> KCreate) (mine owner i events) of
       [] \<Rightarrow> jm_get (replay E owner events) i = None
     | c # es \<Rightarrow> \<exists>v. jm_get (replay E owner events) i = Some v \<and>
         (a_withdrawn v \<longleftrightarrow> (\<exists>e\<in>set es. ev_kind e = KWithdraw)) \<and> dateNoteToSec E (ev_note c) \<le> a_unlock v)"
proof -
  let ?m = "mine owner i events"
  have r: "replay_one E xs = (case dropWhile (\<lambda>e. ev_kind e \<noteq> KCreate) xs of [] \<Rightarrow> None
      | c # es \<Rightarrow> Some (fold (apply_event E) es (apply_event E c (seed_accum E c))))" for xs
    by (induction xs) auto
  have l: "jm_get (replay E owner events) i = replay_one E ?m" by (simp add: replay_lookup(2) mine_def)
  have "sorted_wrt older_first ?m" unfolding mine_def by (rule sorted_wrt_filter, rule by_time.sorted_js_sort)
  moreover have "mset ?m = mset (filter (\<lambda>e. ev_owner e = owner \<and> ev_vault_id e = i) events)"
    by (simp add: mine_def filter_filter_mset conj_commute)
  moreover have "case dropWhile (\<lambda>e. ev_kind e \<noteq> KCreate) ?m of
       [] \<Rightarrow> jm_get (replay E owner events) i = None
     | c # es \<Rightarrow> \<exists>v. jm_get (replay E owner events) i = Some v \<and>
         (a_withdrawn v \<longleftrightarrow> (\<exists>e\<in>set es. ev_kind e = KWithdraw)) \<and> dateNoteToSec E (ev_note c) \<le> a_unlock v"
  proof (cases "dropWhile (\<lambda>e. ev_kind e \<noteq> KCreate) ?m")
    case Nil
    have "jm_get (replay E owner events) i = None" by (simp only: l r [of ?m] Nil list.case)
    then show ?thesis by (simp only: Nil list.case)
  next
    case (Cons c es)
    have "ev_kind c = KCreate"
      using hd_dropWhile [of "\<lambda>e. ev_kind e \<noteq> KCreate" ?m] by (simp only: Cons list.distinct not_False_eq_True list.sel not_not)
    then have "a_withdrawn (apply_event E c (seed_accum E c)) = False" "a_unlock (apply_event E c (seed_accum E c)) = dateNoteToSec E (ev_note c)"
      by (simp_all add: apply_event_def seed_accum_def)
    moreover have "jm_get (replay E owner events) i = Some (fold (apply_event E) es (apply_event E c (seed_accum E c)))"
      by (simp only: l r [of ?m] Cons list.case)
    ultimately show ?thesis using unlock_fold [of "apply_event E c (seed_accum E c)" E es]
      by (simp only: Cons list.case) (simp add: withdrawn_fold)
  qed
  ultimately show ?thesis using l by blast
qed

theorem replay_per_vault_witness:
  "\<exists>v. jm_get (replay demo_env ''G''
      [\<lparr>ev_tx_id = ''t2'', ev_vault_id = ''7'', ev_owner = ''G'', ev_kind = KWithdraw, ev_amount = 5, ev_note = [], ev_timestamp = 20, ev_created_at = []\<rparr>,
       \<lparr>ev_tx_id = ''t1'', ev_vault_id = ''7'', ev_owner = ''G'', ev_kind = KCreate, ev_amount = 5, ev_note = ''unlock 2024-02-29'', ev_timestamp = 10, ev_created_at = []\<rparr>]) ''7'' = Some v \<and>
    a_withdrawn v"
  using replay_per_vault [of demo_env "''G''"
      "[\<lparr>ev_tx_id = ''t2'', ev_vault_id = ''7'', ev_owner = ''G'', ev_kind = KWithdraw, ev_amount = 5, ev_note = [], ev_timestamp = 20, ev_created_at = []\<rparr>,
       \<lparr>ev_tx_id = ''t1'', ev_vault_id = ''7'', ev_owner = ''G'', ev_kind = KCreate, ev_amount = 5, ev_note = ''unlock 2024-02-29'', ev_timestamp = 10, ev_created_at = []\<rparr>]" "''7''"]
  by (auto simp: js_sort_def older_first_def)

text \<open>The rows built from the accumulators.\<close>

lemma event_rows_run:
  "event_rows E owner t metas vs w = (Inr out, w') \<Longrightarrow>
    list_all2 (\<lambda>(i, v) row. \<exists>meta. row = event_row E owner t i v meta (jm_get metas i)) vs out"
proof (induction vs arbitrary: w out)
  case (Cons iv vs)
  obtain i v where iv: "iv = (i, v)" by (cases iv)
  from Cons.prems obtain meta w1 rest where "event_rows E owner t metas vs w1 = (Inr rest, w')"
    and "out = event_row E owner t i v meta (jm_get metas i) # rest"
    by (auto simp: iv ret_eval elim!: seqM_cases)
  then show ?case using Cons.IH by (auto simp: iv)
qed (simp add: ret_eval)

text \<open>The reconstructed dashboard is consistent. Whatever the events, the local metas and the backend
  say, the rows have distinct vault ids, belong to the owner, are sorted newest first, none is
  archived; a withdrawn one shows a zero balance; the backend's unlock time wins when it has one,
  and its balance for a vault that is not withdrawn.\<close>
lemma aggregate_consistent:
  assumes "aggregateVaultsFromEvents E owner metas w = (Inr out, w')"
  shows "distinct (map va_vault_id out) \<and> sorted_wrt newer_first out \<and>
    (\<forall>v\<in>set out. va_owner v = owner \<and> va_status v \<noteq> Archived \<and> (va_status v = Withdrawn \<longrightarrow> va_balance v = 0) \<and>
      (\<forall>m u. jm_get metas (va_vault_id v) = Some m \<longrightarrow> rm_unlock m = Some u \<longrightarrow> 0 < u \<longrightarrow> va_unlock v = u) \<and>
      (\<forall>m b. jm_get metas (va_vault_id v) = Some m \<longrightarrow> rm_balance m = Some b \<longrightarrow> va_status v \<noteq> Withdrawn \<longrightarrow> va_balance v = b))"
proof -
  obtain events w1 t rows w2 where rows: "event_rows E owner t metas (replay E owner events) w1 = (Inr rows, w2)"
    and out: "out = js_sort newer_first rows"
    using assms by (auto simp: aggregateVaultsFromEvents_def getM_eval ret_eval elim!: seqM_cases)
  note all = event_rows_run [OF rows]
  have "map va_vault_id rows = map fst (replay E owner events)"
    using all by (induction) (auto simp: event_row_def Let_def)
  then have "distinct (map va_vault_id rows)"
    using replay_lookup(1) [of E owner events] by (simp add: jm_ok_def jm_keys_def)
  moreover have "mset (map va_vault_id out) = mset (map va_vault_id rows)" by (simp add: out)
  ultimately have "distinct (map va_vault_id out)" by (metis mset_eq_imp_distinct_iff)
  moreover have "sorted_wrt newer_first out" unfolding out by (rule by_newest.sorted_js_sort)
  moreover have "va_owner v = owner \<and> va_status v \<noteq> Archived \<and> (va_status v = Withdrawn \<longrightarrow> va_balance v = 0) \<and>
      (\<forall>m u. jm_get metas (va_vault_id v) = Some m \<longrightarrow> rm_unlock m = Some u \<longrightarrow> 0 < u \<longrightarrow> va_unlock v = u) \<and>
      (\<forall>m b. jm_get metas (va_vault_id v) = Some m \<longrightarrow> rm_balance m = Some b \<longrightarrow> va_status v \<noteq> Withdrawn \<longrightarrow> va_balance v = b)"
    if "v \<in> set out" for v
  proof -
    have "v \<in> set rows" using that by (simp add: out)
    then obtain i a meta where "v = event_row E owner t i a meta (jm_get metas i)"
      using all by (fastforce simp: list_all2_conv_all_nth in_set_conv_nth)
    then show ?thesis by (auto simp: event_row_def Let_def)
  qed
  ultimately show ?thesis by blast
qed

lemma aggregate_consistent_witness:
  "\<exists>out w'. aggregateVaultsFromEvents demo_env ''G'' [(''3'', demo_remote ''3'' ''withdrawn'')]
      (demo_world\<lparr>w_eventCache := Some (0, [\<lparr>ev_tx_id = ''h'', ev_vault_id = ''3'', ev_owner = ''G'', ev_kind = KCreate,
        ev_amount = 5, ev_note = [], ev_timestamp = 9, ev_created_at = []\<rparr>])\<rparr>) = (Inr out, w') \<and>
    map va_vault_id out = [''3''] \<and> map va_status out = [Withdrawn] \<and> map va_balance out = [0]"
proof -
  let ?w = "demo_world\<lparr>w_eventCache := Some (0, [\<lparr>ev_tx_id = ''h'', ev_vault_id = ''3'', ev_owner = ''G'', ev_kind = KCreate,
        ev_amount = 5, ev_note = [], ev_timestamp = 9, ev_created_at = []\<rparr>])\<rparr>"
  let ?a = "aggregateVaultsFromEvents demo_env ''G'' [(''3'', demo_remote ''3'' ''withdrawn'')] ?w"
  obtain out where out: "fst ?a = Inr out" "map va_vault_id out = [''3'']" "map va_status out = [Withdrawn]"
    by (simp add: aggregateVaultsFromEvents_def fetchContractEvents_def EVENT_CACHE_MS_def replay_def js_sort_def replay_event_def
        loadMeta_def event_row_def demo_unfold demo_remote_def)
  then show ?thesis using aggregate_consistent [OF surjective_pairing [of ?a, unfolded out(1)]] surjective_pairing [of ?a]
    by (intro exI [of _ out] exI [of _ "snd ?a"]) (auto simp: map_eq_Cons_conv)
qed

end
