(* ===== verification/Vault_List.thy ===== *)
theory Vault_List imports Vault_Events begin

text \<open>
  \<^verbatim>\<open>src/api/soroban-client.ts\<close>, the client class (lines 1594 to 2059 and 2456 to 2485): the vault
  list with its simulate, events and cache sources, the sanitisation of its rows and their
  writeback; a single vault; the four write operations; the transaction history. The tasks of
  \<^verbatim>\<open>Promise.all\<close> run here one after the other, all of them, and the first rejection wins.
\<close>

section \<open>Parameters of contract calls\<close>

definition scAddress :: "env \<Rightarrow> string \<Rightarrow> thrown + xdr" where
  "scAddress E g = e_scval E ScAddress (NStr g)"

definition scU64 :: "env \<Rightarrow> int \<Rightarrow> thrown + xdr" where
  "scU64 E v = e_scval E ScU64 (NInt v)"

definition scI128 :: "env \<Rightarrow> int \<Rightarrow> thrown + xdr" where
  "scI128 E v = e_scval E ScI128 (NInt v)"

definition scString :: "env \<Rightarrow> string \<Rightarrow> thrown + xdr" where
  "scString E s = e_scval E ScString (NStr s)"

text \<open>\<^verbatim>\<open>BigInt(v)\<close> of a number: a \<^verbatim>\<open>RangeError\<close> unless it is an integer; \<open>None\<close> is not finite.\<close>

definition number_int :: "number option \<Rightarrow> thrown + int" where
  "number_int v = (case v of
      Some x \<Rightarrow> if x = of_int \<lfloor>x\<rfloor> then Inr \<lfloor>x\<rfloor> else Inl (JsError ''The number cannot be converted to a BigInt because it is not an integer'')
    | None \<Rightarrow> Inl (JsError ''The number cannot be converted to a BigInt because it is not an integer''))"

section \<open>The list\<close>

definition hydrateMetaFromBackend :: "env \<Rightarrow> string \<Rightarrow> unit io" where
  "hydrateMetaFromBackend E owner = seqM (hydrateMetaImpl E owner False) (\<lambda>_. ret ())"

text \<open>The early read of the backend's metas: empty when the backend cannot be read.\<close>

definition early_metas :: "env \<Rightarrow> string \<Rightarrow> remote_meta list io" where
  "early_metas E owner =
     (if e_backend E = [] then ret []
      else catchM (seqM (get_metas E owner False) (\<lambda>res. ret (case res of None \<Rightarrow> [] | Some ms \<Rightarrow> ms))) (\<lambda>_. ret []))"

definition read_vault :: "env \<Rightarrow> (contract_vault \<Rightarrow> string) \<Rightarrow> int \<Rightarrow> vault io" where
  "read_vault E meta_owner i =
     seqM (liftM (scU64 E i)) (\<lambda>p.
     seqM (invokeRead E ''get_vault'' [p]) (\<lambda>sv.
     seqM (liftM (bind_res (e_native E sv) decodeVault)) (\<lambda>c.
     seqM (loadMeta E (meta_owner c) (int_string (cv_id c))) (\<lambda>meta.
     getM (\<lambda>w. toVault (e_now E (w_log w)) c meta)))))"

fun read_vaults :: "env \<Rightarrow> string \<Rightarrow> int list \<Rightarrow> (thrown + vault) list io" where
  "read_vaults E owner [] = ret []"
| "read_vaults E owner (i # ids) =
     seqM (attemptM (read_vault E (\<lambda>_. owner) i)) (\<lambda>v. seqM (read_vaults E owner ids) (\<lambda>vs. ret (v # vs)))"

fun first_rejection :: "(thrown + 'a) list \<Rightarrow> thrown + 'a list" where
  "first_rejection [] = Inr []"
| "first_rejection (r # rs) = bind_res r (\<lambda>x. bind_res (first_rejection rs) (\<lambda>xs. Inr (x # xs)))"

definition ids_of :: "native \<Rightarrow> thrown + int list" where
  "ids_of v = (case v of
      NVec vs \<Rightarrow> first_rejection (map js_BigInt vs)
    | _ \<Rightarrow> bind_res (js_field v ''map'') (\<lambda>_. Inl (JsError ''map is not a function'')))"

definition simulate_list :: "env \<Rightarrow> string \<Rightarrow> vault list io" where
  "simulate_list E owner =
     seqM (liftM (scAddress E owner)) (\<lambda>p.
     seqM (invokeRead E ''list_owned'' [p]) (\<lambda>idsRaw.
     seqM (liftM (bind_res (e_native E idsRaw) ids_of)) (\<lambda>ids.
     seqM (read_vaults E owner ids) (\<lambda>vs. liftM (first_rejection vs)))))"

text \<open>The flag: a failure of decoding switches the simulate path off for the session.\<close>

definition note_failure :: "thrown \<Rightarrow> (world, 'e, unit) eff" where
  "note_failure e = (if isXdrParseError e then updM markSimulateBroken else ret ())"

definition simulate_step :: "env \<Rightarrow> string \<Rightarrow> vault list option io" where
  "simulate_step E owner =
     seqM (getM w_simBroken) (\<lambda>broken.
       if broken then ret None
       else seqM (attemptM (simulate_list E owner)) (\<lambda>r. case r of
         Inr vs \<Rightarrow> ret (Some vs)
       | Inl err \<Rightarrow> seqM (note_failure err) (\<lambda>_. ret None)))"

definition events_step :: "env \<Rightarrow> string \<Rightarrow> (string, remote_meta) jsmap \<Rightarrow> vault list option \<Rightarrow> vault list option io" where
  "events_step E owner metaById simulated =
     (if simulated \<noteq> None then ret None
      else seqM (attemptM (aggregateVaultsFromEvents E owner metaById)) (\<lambda>r.
        ret (case r of Inr vs \<Rightarrow> Some vs | Inl _ \<Rightarrow> None)))"

text \<open>A live result is synced, merged with the cache and written back to it.\<close>

definition accept_live :: "env \<Rightarrow> string \<Rightarrow> string \<Rightarrow> vault list \<Rightarrow> vault list \<Rightarrow> vault list io" where
  "accept_live E owner source cached vs =
     seqM (updM (\<lambda>w. w\<lparr>w_lastSynced := Some (e_now E (w_log w))\<rparr>)) (\<lambda>_.
     (let live = e_merge E cached vs
      in seqM (act (ASaveVaults owner live source) ()) (\<lambda>_. ret live)))"

definition pick_live :: "env \<Rightarrow> string \<Rightarrow> vault list \<Rightarrow> vault list option \<Rightarrow> vault list option \<Rightarrow> vault list io" where
  "pick_live E owner cached simulated events = (case simulated of
      Some vs \<Rightarrow> accept_live E owner ''simulate'' cached vs
    | None \<Rightarrow>
        if coalesce events [] \<noteq> [] then accept_live E owner ''events'' cached (the events)
        else ret cached)"

text \<open>Sanitisation of one row at \<open>nowSec\<close>.\<close>

definition looksZero :: "vault \<Rightarrow> bool" where
  "looksZero v \<longleftrightarrow> va_status v \<noteq> Archived \<and> (va_unlock v \<le> 0 \<or> va_created v \<le> 0)"

definition has_snapshot :: "remote_meta \<Rightarrow> bool" where
  "has_snapshot m \<longleftrightarrow> coalesce (rm_unlock m) 0 > 0 \<or> coalesce (rm_balance m) 0 > 0"

definition sanitise :: "env \<Rightarrow> int \<Rightarrow> (string, remote_meta) jsmap \<Rightarrow> vault \<Rightarrow> vault" where
  "sanitise E nowSec metaById v =
     (if \<not> looksZero v then v
      else
        let meta = jm_get metaById (va_vault_id v);
            created = (if va_created v > 0 then va_created v
              else parseIsoToUnix E (coalesce_opt (Option.bind meta rm_created_at) (Option.bind meta rm_updated_at)))
        in case meta of
             Some m \<Rightarrow>
               if has_snapshot m then
                 v\<lparr>va_name := (if nonblank (rm_name m) then the (rm_name m) else va_name v),
                   va_description := coalesce (rm_description m) (va_description v),
                   va_template := coalesce (rm_template m) (va_template v),
                   va_target := coalesce_opt (rm_target m) (va_target v),
                   va_balance := coalesce (rm_balance m) (va_balance v),
                   va_unlock := coalesce (rm_unlock m) (va_unlock v),
                   va_created := created,
                   va_status := (if rm_status m = Some ''withdrawn'' then Withdrawn
                     else if rm_status m = Some ''archived'' then Archived
                     else if of_int nowSec \<ge> coalesce (rm_unlock m) 0 then Unlocked else Locked)\<rparr>
               else v\<lparr>va_balance := 0, va_unlock := 0, va_created := created, va_status := Archived\<rparr>
           | None \<Rightarrow> v\<lparr>va_balance := 0, va_unlock := 0, va_created := created, va_status := Archived\<rparr>)"

definition anchored :: "(string, remote_meta) jsmap \<Rightarrow> vault \<Rightarrow> bool" where
  "anchored metaById v \<longleftrightarrow> \<not> (va_status v = Archived \<and> jm_get metaById (va_vault_id v) = None)"

definition sanitise_list :: "env \<Rightarrow> int \<Rightarrow> (string, remote_meta) jsmap \<Rightarrow> vault list \<Rightarrow> vault list" where
  "sanitise_list E nowSec metaById vs = filter (anchored metaById) (map (sanitise E nowSec metaById) vs)"

definition snapshot_of :: "vault \<Rightarrow> snapshot" where
  "snapshot_of v = \<lparr>sn_balance = Some (va_balance v), sn_unlock = Some (va_unlock v),
     sn_status = Some (if va_status v = Withdrawn then ''withdrawn'' else ''live'')\<rparr>"

fun push_live :: "env \<Rightarrow> string \<Rightarrow> vault list \<Rightarrow> unit io" where
  "push_live E owner [] = ret ()"
| "push_live E owner (v # vs) =
     seqM (if va_status v \<in> {Locked, Unlocked, Withdrawn} \<and> va_unlock v > 0
           then pushSnapshotToBackend E owner (va_vault_id v) (snapshot_of v) else ret ()) (\<lambda>_. push_live E owner vs)"

text \<open>The comparison of the final sort: archived rows last, otherwise newest first.\<close>

definition archived_last :: "vault \<Rightarrow> vault \<Rightarrow> bool" where
  "archived_last a b \<longleftrightarrow>
     (if va_status a = Archived \<and> va_status b \<noteq> Archived then False
      else if va_status b = Archived \<and> va_status a \<noteq> Archived then True
      else va_created b - va_created a \<le> 0)"

definition finish_list :: "env \<Rightarrow> string \<Rightarrow> remote_meta list \<Rightarrow> vault list \<Rightarrow> vault list io" where
  "finish_list E owner metas picked =
     seqM (getM (\<lambda>w. e_now E (w_log w) div 1000)) (\<lambda>nowSec.
     (let live = sanitise_list E nowSec (jm_of_list (map (\<lambda>m. (rm_vault_id m, m)) metas)) picked
      in seqM (push_live E owner live) (\<lambda>_.
         seqM (buildArchivedOverlayFromMetas E owner metas (map va_vault_id live)) (\<lambda>overlay.
           ret (js_sort archived_last (live @ overlay))))))"

definition listVaults :: "env \<Rightarrow> string \<Rightarrow> vault list io" where
  "listVaults E owner =
     seqM (hydrateMetaFromBackend E owner) (\<lambda>_.
     seqM (catchM (ask (ALoadVaults owner) (e_loadVaults E)) (\<lambda>_. ret [])) (\<lambda>cached.
     seqM (early_metas E owner) (\<lambda>metas.
     seqM (simulate_step E owner) (\<lambda>simulated.
     seqM (events_step E owner (jm_of_list (map (\<lambda>m. (rm_vault_id m, m)) metas)) simulated) (\<lambda>events.
     seqM (pick_live E owner cached simulated events) (\<lambda>picked.
     finish_list E owner metas picked))))))"

text \<open>What the module tells about its reads: when the last one succeeded, and whether simulating is given up.\<close>

definition getLastSyncedAt :: "(world, 'e, int option) eff" where
  "getLastSyncedAt = getM w_lastSynced"

definition isSimulatePathBroken :: "(world, 'e, bool) eff" where
  "isSimulatePathBroken = getM w_simBroken"

text \<open>\<^verbatim>\<open>registerWallet\<close> has nothing to register.\<close>

definition registerWallet :: "string \<Rightarrow> (world, 'e, string) eff" where
  "registerWallet publicKey = ret publicKey"

section \<open>The summary\<close>

record summary =
  su_locked :: number
  su_unlocked :: number
  su_withdrawn :: number
  su_active :: nat
  su_completed :: nat

definition add_row :: "vault \<Rightarrow> summary \<Rightarrow> summary" where
  "add_row v s = (case va_status v of
      Locked \<Rightarrow> s\<lparr>su_locked := js_add (su_locked s) (va_balance v), su_active := su_active s + 1\<rparr>
    | Unlocked \<Rightarrow> s\<lparr>su_unlocked := js_add (su_unlocked s) (va_balance v), su_active := su_active s + 1\<rparr>
    | _ \<Rightarrow> s\<lparr>su_completed := su_completed s + 1\<rparr>)"

definition summarise :: "vault list \<Rightarrow> summary" where
  "summarise vs = fold add_row vs \<lparr>su_locked = 0, su_unlocked = 0, su_withdrawn = 0, su_active = 0, su_completed = 0\<rparr>"

definition summary_of :: "env \<Rightarrow> string \<Rightarrow> summary io" where
  "summary_of E publicKey = seqM (listVaults E publicKey) (\<lambda>vs. ret (summarise vs))"

section \<open>One vault\<close>

definition get_simulated :: "env \<Rightarrow> string \<Rightarrow> vault option io" where
  "get_simulated E i =
     seqM (getM w_simBroken) (\<lambda>broken.
       if broken then ret None
       else seqM (attemptM (seqM (liftM (js_BigInt (NStr i))) (\<lambda>n. read_vault E cv_owner n))) (\<lambda>r. case r of
         Inr v \<Rightarrow> ret (Some v)
       | Inl err \<Rightarrow> seqM (note_failure err) (\<lambda>_. ret None)))"

text \<open>The event stream: the owner it names, and the vault if its reconstruction has it. The owner is
  kept when the reconstruction throws.\<close>

definition get_from_events :: "env \<Rightarrow> string \<Rightarrow> string option \<Rightarrow> (string option \<times> vault option) io" where
  "get_from_events E i hint =
     seqM (attemptM (fetchContractEvents E)) (\<lambda>r. case r of
       Inl _ \<Rightarrow> ret (hint, None)
     | Inr events \<Rightarrow>
         (case find (\<lambda>e. ev_vault_id e = i) events of
            None \<Rightarrow> ret (hint, None)
          | Some e \<Rightarrow>
              seqM (attemptM (aggregateVaultsFromEvents E (ev_owner e) [])) (\<lambda>all.
                ret (Some (ev_owner e),
                  case all of Inl _ \<Rightarrow> None | Inr vs \<Rightarrow> find (\<lambda>v. va_vault_id v = i) vs))))"

definition get_from_cache :: "env \<Rightarrow> string \<Rightarrow> string \<Rightarrow> vault option io" where
  "get_from_cache E owner i =
     seqM (attemptM (ask (ALoadVaults owner) (e_loadVaults E))) (\<lambda>r.
       ret (case r of Inl _ \<Rightarrow> None | Inr vs \<Rightarrow> find (\<lambda>v. va_vault_id v = i) vs))"

definition get_from_meta :: "env \<Rightarrow> string \<Rightarrow> string \<Rightarrow> vault option io" where
  "get_from_meta E owner i =
     (if e_backend E = [] then ret None
      else catchM (seqM (get_metas E owner False) (\<lambda>res. case res of
          None \<Rightarrow> ret None
        | Some remotes \<Rightarrow> seqM (buildArchivedOverlayFromMetas E owner remotes []) (\<lambda>overlay.
            ret (find (\<lambda>v. va_vault_id v = i) overlay))))
        (\<lambda>_. ret None))"

definition not_reachable :: "string \<Rightarrow> thrown" where
  "not_reachable i = JsError (''Vault '' @ i @ '' not reachable on-chain and not in local cache. Try again once the RPC has caught up.'')"

definition getVault :: "env \<Rightarrow> string \<Rightarrow> string option \<Rightarrow> vault io" where
  "getVault E i ownerHint =
     seqM (get_simulated E i) (\<lambda>sim. case sim of
       Some v \<Rightarrow> ret v
     | None \<Rightarrow>
         seqM (get_from_events E i ownerHint) (\<lambda>(inferred, found). case found of
           Some v \<Rightarrow> ret v
         | None \<Rightarrow>
             if \<not> truthy inferred then throw (not_reachable i)
             else seqM (get_from_cache E (the inferred) i) (\<lambda>cached. case cached of
               Some v \<Rightarrow> ret v
             | None \<Rightarrow>
                 seqM (get_from_meta E (the inferred) i) (\<lambda>meta. case meta of
                   Some v \<Rightarrow> ret v
                 | None \<Rightarrow> throw (not_reachable i)))))"

section \<open>The write operations\<close>

record create_input =
  ci_owner :: string
  ci_name :: string
  ci_description :: string
  ci_template :: string
  ci_deposit :: "number option"
  ci_unlock :: "number option"
  ci_target :: "number option"

definition createVault :: "env \<Rightarrow> create_input \<Rightarrow> vault io" where
  "createVault E inp =
     seqM (liftM (scAddress E (ci_owner inp))) (\<lambda>p1.
     seqM (liftM (scString E (ci_name inp))) (\<lambda>p2.
     seqM (liftM (bind_res (xlmToStroops (ci_deposit inp)) (scI128 E))) (\<lambda>p3.
     seqM (liftM (bind_res (number_int (ci_unlock inp)) (scU64 E))) (\<lambda>p4.
     seqM (invokeContract E (ci_owner inp) ''create_vault'' [p1, p2, p3, p4]) (\<lambda>(returnValue, _).
       case returnValue of
         None \<Rightarrow> throw (Soroban (simulationError ''create_vault'' ''Contract did not return a vault id.''))
       | Some rv \<Rightarrow>
           seqM (liftM (e_native E rv)) (\<lambda>n.
           seqM (saveMeta E (ci_owner inp) (js_String n)
             \<lparr>vm_description = Some (ci_description inp), vm_template = Some (ci_template inp), vm_target = ci_target inp,
              vm_name = Some (ci_name inp), vm_dest = None, vm_dest_label = None, vm_memo = None, vm_bill = None\<rparr>) (\<lambda>_.
           getVault E (js_String n) None)))))))"

definition deposit :: "env \<Rightarrow> string \<Rightarrow> string \<Rightarrow> number option \<Rightarrow> vault io" where
  "deposit E i owner amount =
     seqM (liftM (scAddress E owner)) (\<lambda>p1.
     seqM (liftM (bind_res (js_BigInt (NStr i)) (scU64 E))) (\<lambda>p2.
     seqM (liftM (bind_res (xlmToStroops amount) (scI128 E))) (\<lambda>p3.
     seqM (invokeContract E owner ''deposit'' [p1, p2, p3]) (\<lambda>_. getVault E i None))))"

definition extendLock :: "env \<Rightarrow> string \<Rightarrow> string \<Rightarrow> number option \<Rightarrow> vault io" where
  "extendLock E i owner additionalSeconds =
     seqM (liftM (scAddress E owner)) (\<lambda>p1.
     seqM (liftM (bind_res (js_BigInt (NStr i)) (scU64 E))) (\<lambda>p2.
     seqM (liftM (bind_res (number_int additionalSeconds) (scU64 E))) (\<lambda>p3.
     seqM (invokeContract E owner ''extend_lock'' [p1, p2, p3]) (\<lambda>_. getVault E i None))))"

definition withdraw :: "env \<Rightarrow> string \<Rightarrow> string \<Rightarrow> vault io" where
  "withdraw E i owner =
     seqM (liftM (scAddress E owner)) (\<lambda>p1.
     seqM (liftM (bind_res (js_BigInt (NStr i)) (scU64 E))) (\<lambda>p2.
     seqM (invokeContract E owner ''withdraw'' [p1, p2]) (\<lambda>_. getVault E i None)))"

section \<open>The history\<close>

definition later_first :: "parsed_event \<Rightarrow> parsed_event \<Rightarrow> bool" where
  "later_first a b \<longleftrightarrow> ev_timestamp b - ev_timestamp a \<le> 0"

definition vaultTransactions :: "env \<Rightarrow> string \<Rightarrow> parsed_event list io" where
  "vaultTransactions E i =
     seqM (fetchContractEvents E) (\<lambda>all.
     (let live = filter (\<lambda>t. ev_vault_id t = i) all;
          owner = (case live of [] \<Rightarrow> None | t # _ \<Rightarrow> Some (ev_owner t))
      in if truthy owner then
           seqM (fetchArchivedCreateEvents E (the owner) all) (\<lambda>synth.
             ret (js_sort later_first (live @ filter (\<lambda>s. ev_vault_id s = i) synth)))
         else ret (js_sort later_first live)))"

definition allTransactions :: "env \<Rightarrow> string \<Rightarrow> parsed_event list io" where
  "allTransactions E owner =
     seqM (fetchContractEvents E) (\<lambda>all.
     seqM (fetchArchivedCreateEvents E owner all) (\<lambda>synth.
       ret (js_sort later_first (filter (\<lambda>t. ev_owner t = owner) all @ synth))))"


section \<open>Computations that cannot throw\<close>

definition returns :: "(world, 'e, 'a) eff \<Rightarrow> bool" where
  "returns m \<longleftrightarrow> (\<forall>w. \<exists>x w'. m w = (Inr x, w'))"

named_theorems returns_intro \<open>rules for computations that cannot throw\<close>

lemma returnsD: "returns m \<Longrightarrow> \<exists>x w'. m w = (Inr x, w')"
  by (simp add: returns_def)

lemma returns_basic [returns_intro]: "returns (ret x)" "returns (getM g)" "returns (updM h)" "returns (act a y)" "returns (attemptM m)"
  by (simp_all add: returns_def ret_def getM_def updM_def act_def attemptM_eval)

lemma returns_seqM [returns_intro]: "returns m \<Longrightarrow> (\<And>x. returns (f x)) \<Longrightarrow> returns (seqM m f)"
  unfolding returns_def
proof (intro allI)
  fix w
  assume m: "\<forall>w. \<exists>x w'. m w = (Inr x, w')" and f: "\<And>x. \<forall>w. \<exists>y w'. f x w = (Inr y, w')"
  obtain x v where "m w = (Inr x, v)" using m by blast
  moreover obtain y u where "f x v = (Inr y, u)" using f by blast
  ultimately show "\<exists>y u. seqM m f w = (Inr y, u)" by (simp add: seqM_eval)
qed

lemma returns_catchM [returns_intro]: "(\<And>e. returns (h e)) \<Longrightarrow> returns (catchM m h)"
  unfolding returns_def
proof (intro allI)
  fix w
  assume h: "\<And>e. \<forall>w. \<exists>y w'. h e w = (Inr y, w')"
  obtain r v where m: "m w = (r, v)" by (cases "m w")
  show "\<exists>y u. catchM m h w = (Inr y, u)"
    using m h by (cases r) (auto simp: catchM_eval)
qed

lemma returns_patch [returns_intro]: "returns (patch_snapshot E owner i s)"
  by (auto simp: patch_snapshot_def getActiveDeployment_def intro!: returns_intro)

lemma returns_push [returns_intro]: "returns (pushSnapshotToBackend E owner i s)"
  by (auto simp: pushSnapshotToBackend_def intro!: returns_intro)

lemma returns_push_live [returns_intro]: "returns (push_live E owner vs)"
  by (induction vs) (auto intro!: returns_intro)

lemma returns_overlay [returns_intro]: "returns (buildArchivedOverlayFromMetas E owner rs ids)"
  by (induction rs) (auto simp: dismissVaultMeta_def intro!: returns_intro)

lemma returns_list_parts [returns_intro]:
  "returns (hydrateMetaFromBackend E owner)" "returns (early_metas E owner)" "returns (simulate_step E owner)"
  "returns (events_step E owner ms sim)" "returns (pick_live E owner cached sim ev)" "returns (finish_list E owner metas vs)"
  by (auto simp: hydrateMetaFromBackend_def hydrateMetaImpl_def early_metas_def simulate_step_def note_failure_def
      events_step_def pick_live_def accept_live_def finish_list_def Let_def intro!: returns_intro split: sum.splits option.splits)

lemma returns_get_parts [returns_intro]:
  "returns (get_simulated E i)" "returns (get_from_events E i hint)" "returns (get_from_cache E owner i)" "returns (get_from_meta E owner i)"
proof -
  have "returns (note_failure e)" for e by (simp add: note_failure_def returns_intro)
  then show "returns (get_simulated E i)" unfolding get_simulated_def
    by (intro returns_intro) (auto intro!: returns_intro split: sum.splits)
  show "returns (get_from_events E i hint)" unfolding get_from_events_def
    by (intro returns_intro) (auto intro!: returns_intro split: sum.splits option.splits)
  show "returns (get_from_cache E owner i)" unfolding get_from_cache_def by (intro returns_intro)
  show "returns (get_from_meta E owner i)" unfolding get_from_meta_def by (simp add: returns_intro)
qed

section \<open>The list is total and coherent\<close>

lemma archived_last_linear: "archived_last a b \<or> archived_last b a"
  by (auto simp: archived_last_def)

lemma archived_last_trans: "archived_last a b \<Longrightarrow> archived_last b c \<Longrightarrow> archived_last a c"
  unfolding archived_last_def
  by (cases "va_status a = Archived"; cases "va_status b = Archived"; cases "va_status c = Archived") simp_all

interpretation by_archive: comparator archived_last
  by unfold_locales (rule archived_last_linear, erule (1) archived_last_trans)

interpretation by_latest: comparator later_first
  by unfold_locales (auto simp: later_first_def)

lemma sanitise_id [simp]: "va_vault_id (sanitise E t ms v) = va_vault_id v"
  by (simp add: sanitise_def Let_def split: option.splits)

lemma sanitise_active:
  assumes "va_status (sanitise E t ms v) = Locked \<or> va_status (sanitise E t ms v) = Unlocked"
  shows "(0 < va_unlock (sanitise E t ms v) \<and> 0 < va_created (sanitise E t ms v)) \<or>
    (\<exists>m. jm_get ms (va_vault_id v) = Some m \<and> has_snapshot m \<and> rm_status m \<noteq> Some ''withdrawn'' \<and> rm_status m \<noteq> Some ''archived'')"
  using assms by (auto simp: sanitise_def Let_def looksZero_def split: option.splits if_splits)

lemma overlay_rows:
  assumes "buildArchivedOverlayFromMetas E owner rs ids w = (Inr out, w')"
  shows "map va_vault_id out = map rm_vault_id (filter (\<lambda>r. rm_vault_id r \<notin> set ids) rs)" and
    "\<forall>v\<in>set out. va_status v = Withdrawn \<or> va_status v = Archived"
proof -
  have "list_all2 (\<lambda>r v. \<exists>t. v = overlay_row E owner t r) (filter (\<lambda>r. rm_vault_id r \<notin> set ids) rs) out"
    using assms
  proof (induction rs arbitrary: out w)
    case (Cons r rs)
    show ?case
    proof (cases "rm_vault_id r \<in> set ids")
      case False
      with Cons.prems obtain t rest w1 where "out = overlay_row E owner t r # rest"
        and "buildArchivedOverlayFromMetas E owner rs ids w1 = (Inr rest, w')"
        by (auto simp: ret_eval getM_eval elim!: seqM_cases simp del: not_None_eq split del: if_split)
      then show ?thesis using Cons.IH False by auto
    qed (use Cons in simp)
  qed (simp add: ret_eval)
  then show "map va_vault_id out = map rm_vault_id (filter (\<lambda>r. rm_vault_id r \<notin> set ids) rs)"
    and "\<forall>v\<in>set out. va_status v = Withdrawn \<or> va_status v = Archived"
  proof (induction)
    case (Cons r rs v vs)
    then obtain t where v: "v = overlay_row E owner t r" by blast
    case 1 show ?case using Cons.IH(1) by (simp add: v overlay_row_def Let_def)
    case 2 show ?case using Cons.IH(2) overlay_status [of E owner t r] by (simp add: v)
  qed simp_all
qed

lemma finish_list_rows:
  assumes "finish_list E owner metas picked w = (Inr out, w')"
  shows "sorted_wrt archived_last out" and "rm_vault_id ` set metas \<subseteq> va_vault_id ` set out" and
    "v \<in> set out \<Longrightarrow> va_status v = Archived \<Longrightarrow> va_vault_id v \<in> rm_vault_id ` set metas" and
    "v \<in> set out \<Longrightarrow> va_status v = Locked \<or> va_status v = Unlocked \<Longrightarrow> (0 < va_unlock v \<and> 0 < va_created v) \<or>
      (\<exists>m\<in>set metas. rm_vault_id m = va_vault_id v \<and> has_snapshot m \<and> rm_status m \<noteq> Some ''withdrawn'' \<and> rm_status m \<noteq> Some ''archived'')"
proof -
  let ?ms = "jm_of_list (map (\<lambda>m. (rm_vault_id m, m)) metas)"
  obtain t overlay w1 where
    o: "buildArchivedOverlayFromMetas E owner metas (map va_vault_id (sanitise_list E t ?ms picked)) w1 = (Inr overlay, w')"
    and out: "out = js_sort archived_last (sanitise_list E t ?ms picked @ overlay)"
    using assms by (auto simp: finish_list_def Let_def getM_eval ret_eval elim!: seqM_cases)
  note rows = overlay_rows [OF o]
  have mem: "v \<in> set out \<longleftrightarrow> v \<in> set (sanitise_list E t ?ms picked) \<or> v \<in> set overlay" for v
    by (simp add: out)
  have known: "\<exists>m\<in>set metas. rm_vault_id m = i \<and> m = x" if "jm_get ?ms i = Some x" for i x
    using jm_of_list_mem [OF that] by auto
  show "sorted_wrt archived_last out" unfolding out by (rule by_archive.sorted_js_sort)
  show "rm_vault_id ` set metas \<subseteq> va_vault_id ` set out"
  proof
    fix i assume "i \<in> rm_vault_id ` set metas"
    then consider "i \<in> va_vault_id ` set (sanitise_list E t ?ms picked)"
      | "i \<in> set (map rm_vault_id (filter (\<lambda>r. rm_vault_id r \<notin> set (map va_vault_id (sanitise_list E t ?ms picked))) metas))"
      by auto
    then show "i \<in> va_vault_id ` set out"
    proof cases
      case 2
      then have "i \<in> va_vault_id ` set overlay" unfolding rows(1) [symmetric] by simp
      then show ?thesis using mem by blast
    qed (use mem in blast)
  qed
  show "va_vault_id v \<in> rm_vault_id ` set metas" if v: "v \<in> set out" "va_status v = Archived"
  proof (cases "v \<in> set overlay")
    case True
    then have "va_vault_id v \<in> set (map va_vault_id overlay)" by simp
    then show ?thesis unfolding rows(1) by auto
  next
    case False
    then have "v \<in> set (sanitise_list E t ?ms picked)" using v mem by blast
    then obtain x where "jm_get ?ms (va_vault_id v) = Some x" using v(2) by (auto simp: sanitise_list_def anchored_def)
    from known [OF this] show ?thesis by force
  qed
  show "(0 < va_unlock v \<and> 0 < va_created v) \<or>
      (\<exists>m\<in>set metas. rm_vault_id m = va_vault_id v \<and> has_snapshot m \<and> rm_status m \<noteq> Some ''withdrawn'' \<and> rm_status m \<noteq> Some ''archived'')"
    if v: "v \<in> set out" "va_status v = Locked \<or> va_status v = Unlocked"
  proof -
    have "v \<in> set (sanitise_list E t ?ms picked)" using v rows(2) mem by fastforce
    then obtain u where "v = sanitise E t ?ms u" by (auto simp: sanitise_list_def)
    then show ?thesis using sanitise_active [of E t ?ms u] v(2) known by fastforce
  qed
qed

lemma listVaults_run:
  "\<exists>out w'. listVaults E owner w = (Inr out, w') \<and>
    (\<exists>w1 metas w2 picked w3. early_metas E owner w1 = (Inr metas, w2) \<and> finish_list E owner metas picked w3 = (Inr out, w'))"
proof -
  have "returns (listVaults E owner)" unfolding listVaults_def by (intro returns_intro)
  then obtain out w' where run: "listVaults E owner w = (Inr out, w')" by (blast dest: returnsD)
  then show ?thesis unfolding listVaults_def by (auto elim!: seqM_cases)
qed



definition list_env :: env where
  "list_env = demo_env\<lparr>e_fetch := \<lambda>_. Inr \<lparr>rs_ok = True, rs_metas = Inr [demo_remote ''7'' ''archived'']\<rparr>\<rparr>"


section \<open>What the reads leave alone\<close>

text \<open>Every read sends nothing, polls nothing and emits no receipt.\<close>

lemma no_send_simps [simp]:
  "no_send (AGetAccount a b, h)" "no_send (ASimulate a b, h)" "no_send (ARotate e, h)" "no_send (AGetItem k, h)" "no_send (ASetItem k v, h)"
  "no_send (ARemoveItem k, h)" "no_send (AFetch q, h)" "no_send (ALoadVaults k, h)" "no_send (ASaveVaults k vs t, h)" "no_send (ASleep n, h)"
  "no_send (AGetLedger k, h)" "no_send (AGetEvents a b c d, h)" "no_send (ALoadSigner, h)" "no_send (AKeypair i kp, h)"
  by (simp_all add: no_send_def)

named_theorems quiet \<open>computations that send nothing\<close>

lemma quiet_invokeRead [quiet]: "appends no_send (invokeRead E m ps)"
  by (rule appends_mono [OF appends_invokeRead]) (auto simp: no_send_def split: action.splits)

lemma quiet_loadMeta [quiet]: "appends no_send (loadMeta E owner i)"
  by (auto simp: loadMeta_def intro!: appends_intro)

lemma quiet_saveMetaLocal [quiet]: "appends no_send (saveMetaLocal E owner i m)"
  by (simp add: saveMetaLocal_def appends_intro)

lemma quiet_saveMeta [quiet]: "appends no_send (saveMeta E owner i m)"
  by (auto simp: saveMeta_def mirrorMetaToBackend_def intro!: appends_intro quiet)

lemma quiet_get_metas [quiet]: "appends no_send (get_metas E owner b)"
  by (rule appends_get_metas) simp

lemma quiet_patch [quiet]: "appends no_send (patch_snapshot E owner i s)"
  by (auto simp: patch_snapshot_def intro!: appends_intro)

lemma quiet_push [quiet]: "appends no_send (pushSnapshotToBackend E owner i s)"
  by (auto simp: pushSnapshotToBackend_def intro!: appends_intro quiet appends_updM)

lemma quiet_push_live [quiet]: "appends no_send (push_live E owner vs)"
  by (induction vs) (auto intro!: appends_intro quiet)

lemma quiet_read_rows [quiet]: "appends no_send (read_rows E owner rs)"
  by (induction rs) (auto intro!: appends_intro)

lemma quiet_write_rows [quiet]: "appends no_send (write_rows E owner f rows)"
  by (induction E owner f rows rule: write_rows.induct) (auto intro!: appends_intro quiet split: sum.splits)

lemma quiet_hydrate [quiet]: "appends no_send (hydrateMetaFromBackend E owner)"
  by (auto simp: hydrateMetaFromBackend_def hydrateMetaImpl_def intro!: appends_intro quiet split: option.splits)

lemma quiet_early [quiet]: "appends no_send (early_metas E owner)"
  by (auto simp: early_metas_def intro!: appends_intro quiet)

lemma quiet_overlay [quiet]: "appends no_send (buildArchivedOverlayFromMetas E owner rs ids)"
  by (induction rs) (auto simp: dismissVaultMeta_def intro!: appends_intro quiet)

lemma quiet_read_vault [quiet]: "appends no_send (read_vault E f i)"
  by (auto simp: read_vault_def intro!: appends_intro quiet)

lemma quiet_read_vaults [quiet]: "appends no_send (read_vaults E owner ids)"
  by (induction ids) (auto intro!: appends_intro quiet)

lemma quiet_note_failure [quiet]: "appends no_send (note_failure e)"
  by (auto simp: note_failure_def markSimulateBroken_def intro!: appends_intro appends_updM)

lemma quiet_simulate_step [quiet]: "appends no_send (simulate_step E owner)"
  by (auto simp: simulate_step_def simulate_list_def intro!: appends_intro quiet split: sum.splits)

lemma quiet_caches [quiet]:
  "appends no_send (readDiskCache E)" "appends no_send (writeDiskCache E p)" "appends no_send (setEventCache E d)"
  by (auto simp: readDiskCache_def writeDiskCache_def setEventCache_def intro!: appends_intro appends_updM)

lemma quiet_disk_or_throw [quiet]: "appends no_send (disk_or_throw E ph e)"
  by (auto simp: disk_or_throw_def intro!: appends_intro quiet split: option.splits)

lemma quiet_get_page [quiet]: "appends no_send (get_page E dep n c)"
  by (auto simp: get_page_def intro!: appends_intro)

lemma quiet_read_pages [quiet]: "appends no_send (read_pages E dep s n c evs)"
  by (induction E dep s n c evs rule: read_pages.induct) (auto intro!: appends_intro quiet split: sum.splits)

lemma quiet_fetch [quiet]: "appends no_send (fetchContractEvents E)"
proof -
  have "appends no_send (fetch_events E dep)" for dep
    by (auto simp: fetch_events_def Let_def intro!: appends_intro quiet split: sum.splits pages.splits)
  then show ?thesis by (auto simp: fetchContractEvents_def intro!: appends_intro split: option.splits)
qed

lemma quiet_event_rows [quiet]: "appends no_send (event_rows E owner t ms vs)"
  by (induction vs) (auto intro!: appends_intro quiet)

lemma quiet_aggregate [quiet]: "appends no_send (aggregateVaultsFromEvents E owner ms)"
  by (auto simp: aggregateVaultsFromEvents_def intro!: appends_intro quiet)

lemma quiet_events_step [quiet]: "appends no_send (events_step E owner ms sim)"
  by (auto simp: events_step_def intro!: appends_intro quiet)

lemma quiet_accept_live [quiet]: "appends no_send (accept_live E owner t c vs)"
  by (auto simp: accept_live_def Let_def intro!: appends_intro appends_updM)

lemma quiet_pick_live [quiet]: "appends no_send (pick_live E owner c sim ev)"
  by (auto simp: pick_live_def intro!: appends_intro quiet split: option.splits)

lemma quiet_finish [quiet]: "appends no_send (finish_list E owner metas vs)"
  by (auto simp: finish_list_def Let_def intro!: appends_intro quiet)

lemma quiet_listVaults [quiet]: "appends no_send (listVaults E owner)"
  by (auto simp: listVaults_def intro!: appends_intro quiet)

lemma quiet_getVault [quiet]: "appends no_send (getVault E i hint)"
proof -
  have "appends no_send (get_simulated E i)"
    by (auto simp: get_simulated_def intro!: appends_intro quiet split: sum.splits)
  moreover have "appends no_send (get_from_events E i hint)"
    by (auto simp: get_from_events_def intro!: appends_intro quiet split: sum.splits option.splits)
  moreover have "appends no_send (get_from_cache E owner i)" "appends no_send (get_from_meta E owner i)" for owner
    by (auto simp: get_from_cache_def get_from_meta_def intro!: appends_intro quiet split: option.splits)
  ultimately show ?thesis by (auto simp: getVault_def intro!: appends_intro split: option.splits)
qed


section \<open>The write operations send once\<close>

lemma appends_invokeContract: "appends (\<lambda>_. True) (invokeContract E pk m ps)"
proof -
  have "appends (\<lambda>_. True) (fromSecret E seed)" for seed
    by (auto simp: appends_def fromSecret_def Let_def split: sum.splits)
  moreover have "appends (\<lambda>_. True) (sign_tx E tx i)" for tx i
    by (rule appends_nothing) (simp add: sign_tx_world)
  ultimately have sign: "appends (\<lambda>_. True) (sign_phase E m tx)" for tx
    by (auto simp: sign_phase_def wipe_signer_def intro!: appends_intro appends_finallyM split: option.splits)
  have poll: "appends (\<lambda>_. True) (poll E srv m h n)" for srv h n
    by (rule appends_mono [OF appends_poll]) simp
  have prep: "appends (\<lambda>_. True) (prepare E s pk m ps)" for s
    by (auto simp: prepare_def intro!: appends_intro appends_build_call sign split: sim.splits)
  have "appends (\<lambda>_. True) (send_phase E s m t)" for s t
    by (auto simp: send_phase_def Let_def intro!: appends_intro)
  then show ?thesis by (auto simp: invokeContract_def intro!: appends_intro poll prep)
qed

lemma invokeContract_counts:
  assumes "invokeContract E pk m ps w = (r, w')"
  shows "length (sends (since w w')) \<le> 1" and "length (receipts (since w w')) \<le> length (sends (since w w'))"
    and "r = Inr x \<Longrightarrow> \<exists>rc. receipts (since w w') = [rc] \<and> rc_status rc = RSuccess"
proof -
  from assms have "length (sends (since w w')) \<le> 1 \<and> length (receipts (since w w')) \<le> length (sends (since w w')) \<and>
    (\<forall>x. r = Inr x \<longrightarrow> (\<exists>rc. receipts (since w w') = [rc] \<and> rc_status rc = RSuccess))"
  proof (cases rule: invokeContract_shape)
    case (unsent e)
    then have "\<forall>x\<in>set (since w w'). no_send x" by blast
    then show ?thesis using unsent(2) by (simp add: no_send_lists)
  next
    case (rejected t v new s)
    then show ?thesis by (simp add: no_send_lists)
  next
    case (sent t v new new2 resp)
    have "length (sends (since w w')) = 1" using sent(3,4,6) by (simp add: no_send_lists polling_sends)
    moreover have "\<exists>rc. receipts (since w w') = [rc] \<and> (\<forall>x. r = Inr x \<longrightarrow> rc_status rc = RSuccess)"
      using sent(7) by (auto simp: poll_result_def)
    ultimately show ?thesis by auto
  qed
  then show "length (sends (since w w')) \<le> 1" and "length (receipts (since w w')) \<le> length (sends (since w w'))"
    and "r = Inr x \<Longrightarrow> \<exists>rc. receipts (since w w') = [rc] \<and> rc_status rc = RSuccess" by blast+
qed

definition single_write :: "vault io \<Rightarrow> bool" where
  "single_write m \<longleftrightarrow> (\<forall>w r w'. m w = (r, w') \<longrightarrow> length (sends (since w w')) \<le> 1 \<and>
     length (receipts (since w w')) \<le> length (sends (since w w')) \<and>
     (\<forall>v. r = Inr v \<longrightarrow> (\<exists>rc. receipts (since w w') = [rc] \<and> rc_status rc = RSuccess)))"

lemma single_write_invoke:
  assumes q: "\<And>x. appends no_send (f x)"
  shows "single_write (seqM (invokeContract E pk m ps) f)"
  unfolding single_write_def
proof (intro allI impI)
  fix w r w' assume "seqM (invokeContract E pk m ps) f w = (r, w')"
  then show "length (sends (since w w')) \<le> 1 \<and> length (receipts (since w w')) \<le> length (sends (since w w')) \<and>
     (\<forall>v. r = Inr v \<longrightarrow> (\<exists>rc. receipts (since w w') = [rc] \<and> rc_status rc = RSuccess))"
  proof (cases rule: seqM_cases)
    case (throws e)
    then show ?thesis using invokeContract_counts [OF throws(1)] by simp
  next
    case (goes_on x v)
    note c = invokeContract_counts [OF goes_on(1)]
    have "since w w' = since w v @ since v w'"
      by (rule since_trans)
        (use appends_grows [OF appends_invokeContract, of w E pk m ps] appends_grows [OF q, of v x] goes_on in simp_all)
    moreover have "sends (since v w') = []" "receipts (since v w') = []"
      using no_send_lists appends_since [OF q goes_on(2)] by blast+
    ultimately show ?thesis using c by simp
  qed
qed

lemma single_write_lift: "(\<And>x. single_write (f x)) \<Longrightarrow> single_write (seqM (liftM q) f)"
  by (auto simp: single_write_def seqM_eval liftM_eval split: sum.splits)

text \<open>C18: a write operation submits at most one transaction. In every run of \<^verbatim>\<open>createVault\<close>, \<^verbatim>\<open>deposit\<close>,
  \<^verbatim>\<open>extendLock\<close> or \<^verbatim>\<open>withdraw\<close>, retries and fallbacks of the read that follows included, at most one
  envelope is sent and at most one receipt emitted; a run that returns a vault has emitted exactly
  one receipt, of success.\<close>
theorem writes_send_once:
  assumes "m \<in> {createVault E inp, deposit E i owner amount, extendLock E i owner secs, withdraw E i owner}"
    and "m w = (r, w')"
  shows "length (sends (since w w')) \<le> 1 \<and> length (receipts (since w w')) \<le> length (sends (since w w')) \<and>
    (\<forall>v. r = Inr v \<longrightarrow> (\<exists>rc. receipts (since w w') = [rc] \<and> rc_status rc = RSuccess))"
proof -
  have "single_write (createVault E inp)" unfolding createVault_def
    by (intro single_write_lift single_write_invoke) (auto intro!: appends_intro quiet split: option.splits)
  moreover have "single_write (deposit E i owner amount)" unfolding deposit_def
    by (intro single_write_lift single_write_invoke) (rule quiet)
  moreover have "single_write (extendLock E i owner secs)" unfolding extendLock_def
    by (intro single_write_lift single_write_invoke) (rule quiet)
  moreover have "single_write (withdraw E i owner)" unfolding withdraw_def
    by (intro single_write_lift single_write_invoke) (rule quiet)
  ultimately show ?thesis using assms unfolding single_write_def by blast
qed

section \<open>One vault: the errors\<close>

text \<open>\<^verbatim>\<open>getVault\<close> fails in one way only. Whatever goes wrong underneath, it throws nothing but its
  own not-reachable error for that id; a vault that it returns is the one the simulation decoded,
  or else has the id asked for.\<close>
lemma getVault_error:
  assumes "getVault E i hint w = (r, w')"
  shows "case r of Inl e \<Rightarrow> e = not_reachable i
    | Inr v \<Rightarrow> get_simulated E i w = (Inr (Some v), w') \<or> va_vault_id v = i"
proof -
  have find: "va_vault_id v = i" if "find (\<lambda>v. va_vault_id v = i) vs = Some v" for v vs
    using that by (auto simp: find_Some_iff)
  have events: "va_vault_id v = i" if "get_from_events E i hint w1 = (Inr (o1, Some v), w2)" for o1 v w1 w2
    using that find by (auto simp: get_from_events_def ret_eval attemptM_eval elim!: seqM_cases split: sum.splits option.splits)
  have cache: "va_vault_id v = i" if "get_from_cache E o1 i w1 = (Inr (Some v), w2)" for o1 v w1 w2
    using that find by (auto simp: get_from_cache_def ret_eval attemptM_eval elim!: seqM_cases split: sum.splits)
  have meta: "va_vault_id v = i" if "get_from_meta E o1 i w1 = (Inr (Some v), w2)" for o1 v w1 w2
    using that find by (auto simp: get_from_meta_def ret_eval elim!: seqM_cases catchM_cases split: option.splits if_splits)
  obtain sim w1 where sim: "get_simulated E i w = (Inr sim, w1)" using returns_get_parts(1) by (blast dest: returnsD)
  show ?thesis
  proof (cases sim)
    case (Some v)
    then show ?thesis using assms sim by (auto simp: getVault_def seqM_eval ret_eval)
  next
    case None
    obtain o1 found w2 where ev: "get_from_events E i hint w1 = (Inr (o1, found), w2)"
      using returns_get_parts(2) [of E i hint] by (metis returnsD prod.exhaust)
    obtain c w3 where ca: "get_from_cache E (the o1) i w2 = (Inr c, w3)" using returns_get_parts(3) by (blast dest: returnsD)
    obtain me w4 where me: "get_from_meta E (the o1) i w3 = (Inr me, w4)" using returns_get_parts(4) by (blast dest: returnsD)
    show ?thesis
      using assms sim None ev ca me events cache meta
      by (auto simp: getVault_def seqM_eval ret_eval throw_eval split: option.splits if_splits)
  qed
qed


definition quiet_world :: world where
  "quiet_world = demo_world\<lparr>w_simBroken := True, w_eventCache := Some (10000, [])\<rparr>"

text \<open>In this run the transaction succeeds and the operation still throws: the read after it failed.\<close>

lemma string_int_4: "string_int ''4'' = Some 4" by code_simp

theorem writes_send_once_witness:
  "fst (withdraw demo_env ''4'' ''G'' quiet_world) = Inl (not_reachable ''4'') \<and>
    length (sends (since quiet_world (snd (withdraw demo_env ''4'' ''G'' quiet_world)))) = 1"
proof -
  let ?m = "withdraw demo_env ''4'' ''G''"
  have "?m quiet_world = (fst (?m quiet_world), snd (?m quiet_world))" by simp
  then have "length (sends (since quiet_world (snd (?m quiet_world)))) \<le> 1"
    using writes_send_once [of ?m demo_env undefined "''4''" "''G''" undefined undefined] by blast
  moreover have "(''r1'', ''tx 10000 assembled signed'') \<in> set (sends (since quiet_world (snd (?m quiet_world))))"
    and "fst (?m quiet_world) = Inl (not_reachable ''4'')"
    by (simp_all add: withdraw_def scAddress_def scU64_def js_BigInt_def string_int_4
        getVault_def get_simulated_def get_from_events_def fetchContractEvents_def EVENT_CACHE_MS_def quiet_world_def demo_unfold since_def)
  ultimately show ?thesis by (cases "sends (since quiet_world (snd (?m quiet_world)))") auto
qed

definition cached_vault :: vault where
  "cached_vault = \<lparr>va_vault_id = ''4'', va_owner = ''G'', va_name = ''car'', va_description = [], va_template = ''custom'',
     va_balance = 5, va_target = None, va_unlock = 1900000000, va_created = 1700000000, va_status = Locked\<rparr>"

lemma getVault_error_witness:
  "fst (getVault (demo_env\<lparr>e_loadVaults := \<lambda>_. Inr [cached_vault]\<rparr>) ''4'' (Some ''G'') quiet_world) = Inr cached_vault \<and>
    fst (getVault demo_env ''4'' None quiet_world) = Inl (not_reachable ''4'')"
proof -
  have "fst (getVault (demo_env\<lparr>e_loadVaults := \<lambda>_. Inr [cached_vault]\<rparr>) ''4'' (Some ''G'') quiet_world) = Inr cached_vault"
    by (simp add: getVault_def get_simulated_def get_from_events_def get_from_cache_def fetchContractEvents_def EVENT_CACHE_MS_def
        cached_vault_def quiet_world_def demo_env_def demo_world_def eff_eval)
  moreover have "\<exists>e. fst (getVault demo_env ''4'' None quiet_world) = Inl e"
    by (simp add: getVault_def get_simulated_def get_from_events_def fetchContractEvents_def EVENT_CACHE_MS_def
        quiet_world_def demo_env_def demo_world_def eff_eval)
  moreover have "getVault demo_env ''4'' None quiet_world =
      (fst (getVault demo_env ''4'' None quiet_world), snd (getVault demo_env ''4'' None quiet_world))" by simp
  from getVault_error [OF this] have "case fst (getVault demo_env ''4'' None quiet_world) of Inl e \<Rightarrow> e = not_reachable ''4''
      | Inr v \<Rightarrow> get_simulated demo_env ''4'' quiet_world = (Inr (Some v), snd (getVault demo_env ''4'' None quiet_world)) \<or> va_vault_id v = ''4''" .
  ultimately show ?thesis by auto
qed

section \<open>An outage of the RPC servers\<close>

text \<open>No server answers, nothing is cached on the device, the backend answers with \<open>metas\<close>.\<close>

definition outage :: "env \<Rightarrow> remote_meta list \<Rightarrow> bool" where
  "outage E metas \<longleftrightarrow> e_backend E \<noteq> [] \<and> (\<forall>hs. \<exists>e. e_getAccount E hs = Inl e) \<and> (\<forall>hs. \<exists>e. e_getLedger E hs = Inl e) \<and>
     (\<forall>hs. e_getItem E hs = Inr None) \<and> (\<forall>hs. e_loadVaults E hs = Inr []) \<and>
     (\<forall>hs. e_fetch E hs = Inr \<lparr>rs_ok = True, rs_metas = Inr metas\<rparr>)"

lemma list_all2_mem: "list_all2 P xs ys \<Longrightarrow> x \<in> set xs \<Longrightarrow> \<exists>y\<in>set ys. P x y"
  by (induction rule: list_all2_induct) auto

lemma seqM_fails: "\<exists>e u. m w = (Inl e, u) \<Longrightarrow> \<exists>e u. seqM m f w = (Inl e, u)"
  by (auto simp: seqM_eval)

lemma failover_fails:
  assumes "\<And>v. \<exists>e u. m v = (Inl e, u)"
  shows "\<exists>e u. failover E wrap fin m urls k n l w = (Inl e, u)"
proof (induction k arbitrary: n l w)
  case (Suc k)
  obtain e u where "m w = (Inl e, u)" using assms by blast
  then show ?case using Suc by (auto simp: eff_eval)
qed (simp add: throw_eval)

lemma outage_invokeRead:
  assumes "outage E metas"
  shows "\<exists>e u. invokeRead E m ps w = (Inl e, u)"
proof -
  have "\<exists>e u. loadAccount E pk w = (Inl e, u)" for pk w
  proof -
    have "\<exists>e u. seqM (rpcServer E) (\<lambda>server. ask (AGetAccount server pk) (e_getAccount E)) v = (Inl e, u)" for v
      using assms by (fastforce simp: outage_def rpcServer_def seqM_eval getM_eval ask_eval)
    from failover_fails [OF this] show ?thesis
      by (simp add: loadAccount_def with_failover_def Let_def getActiveDeployment_def seqM_eval [of "getM _"] getM_eval)
  qed
  then obtain e u where "loadAccount E (READ_SIM_SOURCE (d_network (e_dep E (w_log w)))) w = (Inl e, u)" by blast
  then show ?thesis
    by (simp add: invokeRead_def getActiveDeployment_def seqM_eval getM_eval catchM_eval throw_eval)
qed

lemma outage_simulate:
  assumes "outage E metas"
  shows "\<exists>u. simulate_step E owner w = (Inr None, u)"
proof -
  have "\<exists>e u. simulate_list E owner w = (Inl e, u)"
  proof (cases "scAddress E owner")
    case (Inr p)
    then show ?thesis using seqM_fails [OF outage_invokeRead [OF assms]]
      by (simp add: simulate_list_def seqM_eval [of "liftM (Inr p)"] liftM_eval)
  qed (simp add: simulate_list_def seqM_eval liftM_eval)
  then show ?thesis
    by (auto simp: simulate_step_def note_failure_def seqM_eval getM_eval ret_eval attemptM_eval updM_eval)
qed

lemma outage_events:
  assumes "outage E metas" and "w_eventCache w = None"
  shows "\<exists>u. events_step E owner ms None w = (Inr None, u)"
proof -
  let ?g = "seqM (rpcServer E) (\<lambda>server. ask (AGetLedger server) (e_getLedger E))"
  have "\<exists>e u. ?g v = (Inl e, u)" for v
    using assms(1) by (fastforce simp: outage_def rpcServer_def seqM_eval getM_eval ask_eval)
  then have "\<exists>e u. with_failover E dep id as_error ?g v = (Inl e, u)" for dep v
    unfolding with_failover_def Let_def by (rule failover_fails)
  moreover have "\<exists>e u. disk_or_throw E ph err v = (Inl e, u)" for ph err v
    using assms(1)
    by (simp add: outage_def disk_or_throw_def readDiskCache_def getActiveDeployment_def seqM_eval getM_eval attemptM_eval ask_eval ret_eval throw_eval)
  moreover have "fetch_events E dep v = disk_or_throw E PBuild err u"
    if "with_failover E dep id as_error ?g v = (Inl err, u)" for dep v err u
    using that by (simp add: fetch_events_def seqM_eval [of "attemptM _"] attemptM_eval)
  ultimately have "\<exists>e u. fetch_events E dep v = (Inl e, u)" for dep v by metis
  then have "\<exists>e u. fetchContractEvents E w = (Inl e, u)"
    using assms(2) by (simp add: fetchContractEvents_def seqM_eval getM_eval)
  then have "\<exists>e u. aggregateVaultsFromEvents E owner ms w = (Inl e, u)"
    unfolding aggregateVaultsFromEvents_def by (rule seqM_fails)
  then show ?thesis by (auto simp: events_step_def seqM_eval attemptM_eval ret_eval)
qed


lemma outage_metas:
  "outage E metas \<Longrightarrow> \<exists>u. early_metas E owner w = (Inr metas, u)"
  by (auto simp: outage_def early_metas_def get_metas_def getActiveDeployment_def seqM_eval getM_eval catchM_eval ask_eval liftM_eval ret_eval)

text \<open>Reading the metas changes nothing but the log.\<close>

lemma keeps_log_rows:
  assumes "\<And>a w. Q w \<Longrightarrow> Q (record_action a w)"
  shows "keeps Q (read_rows E owner rs)" "keeps Q (write_rows E owner f rows)"
proof -
  show "keeps Q (read_rows E owner rs)"
    by (induction rs) (auto intro!: keeps_intro assms)
  show "keeps Q (write_rows E owner f rows)"
    by (induction E owner f rows rule: write_rows.induct) (auto simp: saveMetaLocal_def intro!: keeps_intro assms split: sum.splits)
qed

lemma keeps_log_metas:
  assumes "\<And>a w. Q w \<Longrightarrow> Q (record_action a w)"
  shows "keeps Q (get_metas E owner b)" "keeps Q (hydrateMetaFromBackend E owner)" "keeps Q (early_metas E owner)"
proof -
  show g: "keeps Q (get_metas E owner b)" for b
    by (auto simp: get_metas_def getActiveDeployment_def intro!: keeps_intro assms)
  show "keeps Q (hydrateMetaFromBackend E owner)"
    by (auto simp: hydrateMetaFromBackend_def hydrateMetaImpl_def intro!: keeps_intro keeps_log_rows assms g split: option.splits)
  show "keeps Q (early_metas E owner)"
    by (auto simp: early_metas_def intro!: keeps_intro assms g)
qed

text \<open>The memory cache of events stays empty up to the events path.\<close>

lemma keeps_updM_cache: "(\<And>w. w_eventCache (g w) = w_eventCache w) \<Longrightarrow> keeps (\<lambda>w. w_eventCache w = c) (updM g)"
  by (simp add: keeps_def updM_def)

lemma keeps_cache_read_vaults: "keeps (\<lambda>w. w_eventCache w = c) (read_vaults E owner ids)"
  by (induction ids) (auto simp: read_vault_def loadMeta_def intro!: keeps_intro keeps_invokeRead)

lemma keeps_cache_simulate: "keeps (\<lambda>w. w_eventCache w = c) (simulate_step E owner)"
  by (auto simp: simulate_step_def simulate_list_def note_failure_def markSimulateBroken_def
      intro!: keeps_intro keeps_invokeRead keeps_cache_read_vaults keeps_updM_cache split: sum.splits)

text \<open>C40: an outage makes the client write off live vaults. When no RPC server answers and nothing is
  cached on the device (a fresh installation, a first start offline), \<^verbatim>\<open>listVaults\<close> shows every
  vault that the backend calls live as withdrawn with balance 0, and for each of them it sends a
  request that sets the stored status of the vault to withdrawn.\<close>
theorem outage_dismisses_live:
  assumes "outage E metas" and "w_eventCache w = None"
  shows "\<exists>out w'. listVaults E owner w = (Inr out, w') \<and>
    (\<forall>m\<in>set metas. rm_status m = Some ''live'' \<longrightarrow>
      (\<exists>v\<in>set out. va_vault_id v = rm_vault_id m \<and> va_status v = Withdrawn \<and> va_balance v = 0) \<and>
      (\<exists>q\<in>set (fetched (since w w')). dismissal owner m q))"
proof -
  have b: "e_backend E \<noteq> []" using assms(1) by (simp add: outage_def)
  let ?ms = "jm_of_list (map (\<lambda>m. (rm_vault_id m, m)) metas)"
  obtain w1 where 1: "hydrateMetaFromBackend E owner w = (Inr (), w1)" using returnsD [OF returns_list_parts(1), of E owner w] by auto
  have c1: "w_eventCache w1 = None" using keeps_result [OF keeps_log_metas(2) [of "\<lambda>w. w_eventCache w = None"] _ 1] assms(2) by simp
  define w2 where "w2 = record_action (ALoadVaults owner) w1"
  have 2: "(catchM (ask (ALoadVaults owner) (e_loadVaults E)) (\<lambda>_. ret []) :: vault list io) w1 = (Inr [], w2)"
    using assms(1) by (simp add: outage_def catchM_eval ask_eval w2_def)
  obtain w3 where 3: "early_metas E owner w2 = (Inr metas, w3)" using outage_metas [OF assms(1)] by blast
  have c3: "w_eventCache w3 = None" using keeps_result [OF keeps_log_metas(3) [of "\<lambda>w. w_eventCache w = None"] _ 3] c1 by (simp add: w2_def)
  obtain w4 where 4: "simulate_step E owner w3 = (Inr None, w4)" using outage_simulate [OF assms(1)] by blast
  have c4: "w_eventCache w4 = None" using keeps_result [OF keeps_cache_simulate _ 4] c3 by blast
  obtain w5 where 5: "events_step E owner ?ms None w4 = (Inr None, w5)" using outage_events [OF assms(1) c4] by blast
  obtain overlay w6 new where 6: "buildArchivedOverlayFromMetas E owner metas [] w5 = (Inr overlay, w6)"
    "list_all2 (\<lambda>r v. \<exists>t. v = overlay_row E owner t r) metas overlay" "w_log w6 = w_log w5 @ new"
    "list_all2 (dismissal owner) (filter (\<lambda>r. rm_status r = Some ''live'') metas) (fetched new)"
    using overlay_run [OF b, of owner metas "[]" w5] by auto
  have pick: "pick_live E owner [] None None w5 = (Inr [], w5)" by (simp add: pick_live_def ret_eval)
  have fin: "finish_list E owner metas [] w5 = (Inr (js_sort archived_last overlay), w6)"
    using 6(1) by (simp add: finish_list_def Let_def sanitise_list_def seqM_eval getM_eval ret_eval)
  have run: "listVaults E owner w = (Inr (js_sort archived_last overlay), w6)"
    using 1 2 3 4 5 pick fin by (simp add: listVaults_def seqM_eval)
  have "grows w w5"
    using appends_grows [OF quiet_hydrate, of w E owner] appends_grows [OF quiet_early, of w2 E owner] appends_grows [OF quiet_simulate_step, of w3 E owner]
      appends_grows [OF quiet_events_step, of w4 E owner ?ms None] 1 3 4 5 grows_action [of w1 "ALoadVaults owner"]
    by (metis grows_trans snd_conv w2_def)
  then have new: "set (fetched new) \<subseteq> set (fetched (since w w6))"
    using 6(3) by (auto simp: grows_def prefix_def since_def)
  have row: "\<exists>v\<in>set (js_sort archived_last overlay). va_vault_id v = rm_vault_id m \<and> va_status v = Withdrawn \<and> va_balance v = 0"
    if m: "m \<in> set metas" "rm_status m = Some ''live''" for m
  proof -
    obtain t where "overlay_row E owner t m \<in> set overlay"
      using list_all2_mem [OF 6(2) m(1)] by blast
    then show ?thesis using m(2) by (intro bexI [of _ "overlay_row E owner t m"]) (auto simp: overlay_row_def Let_def)
  qed
  have req: "\<exists>q\<in>set (fetched (since w w6)). dismissal owner m q" if m: "m \<in> set metas" "rm_status m = Some ''live''" for m
  proof -
    have "m \<in> set (filter (\<lambda>r. rm_status r = Some ''live'') metas)" using m by simp
    then obtain q where "q \<in> set (fetched new)" "dismissal owner m q"
      using list_all2_mem [OF 6(4)] by blast
    then show ?thesis using new by blast
  qed
  show ?thesis using run row req by blast
qed

definition outage_env :: env where
  "outage_env = demo_env\<lparr>e_getAccount := \<lambda>_. Inl (JsError ''offline''), e_getLedger := \<lambda>_. Inl (JsError ''offline''),
     e_fetch := \<lambda>_. Inr \<lparr>rs_ok = True, rs_metas = Inr [demo_remote ''7'' ''live'']\<rparr>\<rparr>"

theorem outage_dismisses_live_witness:
  "\<exists>out w'. listVaults outage_env ''G'' demo_world = (Inr out, w') \<and>
    (\<exists>v\<in>set out. va_vault_id v = ''7'' \<and> va_status v = Withdrawn) \<and>
    (\<exists>q\<in>set (fetched (since demo_world w')). dismissal ''G'' (demo_remote ''7'' ''live'') q)"
proof -
  have "outage outage_env [demo_remote ''7'' ''live'']" by (simp add: outage_def outage_env_def demo_env_def)
  from outage_dismisses_live [OF this, of demo_world "''G''"] show ?thesis
    by (auto simp: demo_world_def demo_remote_def)
qed

end
