(* ===== verification/Wake_Up.thy ===== *)
theory Wake_Up imports Vault_List begin

text \<open>
  \<^verbatim>\<open>src/api/soroban-client.ts\<close>, lines 2061 to 2454: waking up an archived vault. A probe is
  simulated; if the entry is archived its footprint is restored by one transaction and the probe
  simulated again; a second transaction extends the time to live; then the caches are dropped and
  the backend's snapshot is refreshed. One signer lives for the whole operation.
\<close>

section \<open>Steps\<close>

definition wake_up :: string where
  "wake_up = ''wake_up''"

definition RE_SIM_ATTEMPTS :: nat where
  "RE_SIM_ATTEMPTS = 3"

definition extendTo :: nat where
  "extendTo = 535679"

text \<open>\<^verbatim>\<open>submitOne\<close>: sign, send at the current server, poll at the server current at each poll.\<close>

definition submitOne :: "env \<Rightarrow> nat \<Rightarrow> xdr \<Rightarrow> string io" where
  "submitOne E signer tx =
     seqM (catchM (sign_tx E tx signer) (\<lambda>e. throw (Soroban (signError wake_up e)))) (\<lambda>envelope.
     seqM (rpcServer E) (\<lambda>server.
     seqM (send_phase E server wake_up envelope) (\<lambda>txHash.
     seqM (poll E None wake_up txHash POLL_ATTEMPTS) (\<lambda>_. ret txHash))))"

definition buildProbe :: "env \<Rightarrow> deployment \<Rightarrow> string \<Rightarrow> string \<Rightarrow> xdr io" where
  "buildProbe E dep vaultId owner =
     seqM (loadAccount E owner) (\<lambda>probeSource.
     seqM (liftM (e_contract E (d_contractId dep))) (\<lambda>_.
     seqM (liftM (bind_res (js_BigInt (NStr vaultId)) (scU64 E))) (\<lambda>p.
     liftM (e_build E \<lparr>rq_source = probeSource, rq_fee = BASE_FEE, rq_passphrase = d_passphrase dep, rq_data = None,
       rq_op = CallOp (d_contractId dep) ''get_vault'' [p], rq_timeout = 60\<rparr>))))"

definition simulate_probe :: "env \<Rightarrow> xdr \<Rightarrow> sim io" where
  "simulate_probe E tx = seqM (rpcServer E) (\<lambda>server. ask (ASimulate server tx) (e_simulate E))"

definition is_sim_error :: "sim \<Rightarrow> bool" where
  "is_sim_error s \<longleftrightarrow> (case s of SimError _ \<Rightarrow> True | SimSuccess _ _ _ \<Rightarrow> False)"

text \<open>The new simulations after a restore; without success the old response stays.\<close>

fun resimulate :: "env \<Rightarrow> deployment \<Rightarrow> string \<Rightarrow> string \<Rightarrow> sim \<Rightarrow> nat \<Rightarrow> sim io" where
  "resimulate E dep vaultId owner s 0 = ret s"
| "resimulate E dep vaultId owner s (Suc n) =
     seqM (act (ASleep POLL_INTERVAL_MS) ()) (\<lambda>_.
     seqM (attemptM (seqM (buildProbe E dep vaultId owner) (simulate_probe E))) (\<lambda>r.
       case r of
         Inr reSim \<Rightarrow> if \<not> is_sim_error reSim \<and> \<not> e_isRestore E reSim then ret reSim
           else resimulate E dep vaultId owner s n
       | Inl e \<Rightarrow> resimulate E dep vaultId owner s n))"

record progress =
  pg_sim :: sim
  pg_fallback :: "soroban_data option"
  pg_restored :: bool
  pg_hashes :: "string list"

definition extend_footprint :: "env \<Rightarrow> soroban_data \<Rightarrow> soroban_data" where
  "extend_footprint E d = (e_blankData E)\<lparr>sd_readOnly := sd_readOnly d @ sd_readWrite d, sd_readWrite := []\<rparr>"

text \<open>Step B.\<close>

definition restore_step :: "env \<Rightarrow> deployment \<Rightarrow> string \<Rightarrow> string \<Rightarrow> nat \<Rightarrow> sim \<Rightarrow> progress io" where
  "restore_step E dep vaultId owner signer s =
     (let skip = ret \<lparr>pg_sim = s, pg_fallback = None, pg_restored = False, pg_hashes = []\<rparr>
      in if \<not> e_isRestore E s then skip
         else case s of
           SimSuccess _ _ (Some pre) \<Rightarrow>
             seqM (loadAccount E owner) (\<lambda>restoreSource.
             seqM (liftM (e_build E \<lparr>rq_source = restoreSource, rq_fee = int_string (pr_minResourceFee pre + 1000),
               rq_passphrase = d_passphrase dep, rq_data = Some (pr_data pre), rq_op = RestoreFootprint, rq_timeout = 60\<rparr>)) (\<lambda>restoreTx.
             seqM (submitOne E signer restoreTx) (\<lambda>hash.
             seqM (resimulate E dep vaultId owner s RE_SIM_ATTEMPTS) (\<lambda>s'.
               ret \<lparr>pg_sim = s', pg_fallback = Some (extend_footprint E (pr_data pre)), pg_restored = True, pg_hashes = [hash]\<rparr>))))
         | _ \<Rightarrow> skip)"

definition extend_data :: "progress \<Rightarrow> soroban_data option" where
  "extend_data p = (case pg_sim p of SimSuccess (Some d) _ _ \<Rightarrow> Some d | _ \<Rightarrow> pg_fallback p)"

text \<open>Step C: \<open>None\<close> when there is no footprint to extend, else the hash.\<close>

definition extend_step :: "env \<Rightarrow> deployment \<Rightarrow> string \<Rightarrow> nat \<Rightarrow> progress \<Rightarrow> string option io" where
  "extend_step E dep owner signer p = (case extend_data p of
      None \<Rightarrow> ret None
    | Some d \<Rightarrow>
        seqM (loadAccount E owner) (\<lambda>extendSource.
        seqM (liftM (e_build E \<lparr>rq_source = extendSource, rq_fee = ''500000'', rq_passphrase = d_passphrase dep,
          rq_data = Some d, rq_op = ExtendFootprintTtl extendTo, rq_timeout = 60\<rparr>)) (\<lambda>extendTx.
        catchM (seqM (submitOne E signer extendTx) (\<lambda>hash. ret (Some hash)))
          (\<lambda>e. if pg_restored p then throw (Soroban (onChainError wake_up (if pg_hashes p = [] then ''unknown'' else last (pg_hashes p))))
               else throw e))))"

text \<open>Step E: the snapshot; a decoding that throws leaves the fields set before it.\<close>

definition decoded_snapshot :: "env \<Rightarrow> sim \<Rightarrow> snapshot" where
  "decoded_snapshot E s =
     (let live = \<lparr>sn_balance = None, sn_unlock = None, sn_status = Some ''live''\<rparr>
      in case s of
           SimSuccess _ (Some retval) _ \<Rightarrow>
             (case e_native E retval of
                Inl _ \<Rightarrow> live
              | Inr decoded \<Rightarrow>
                  (let field = (\<lambda>f. case js_field decoded f of Inl _ \<Rightarrow> NUndef | Inr x \<Rightarrow> x);
                       bal = field ''balance''; unl = field ''unlock_timestamp''
                   in case (if bal = NNull \<or> bal = NUndef then Inr live
                            else bind_res (js_BigInt bal) (\<lambda>n. Inr (live\<lparr>sn_balance := Some (stroopsToXlm n)\<rparr>))) of
                        Inl _ \<Rightarrow> live
                      | Inr snap \<Rightarrow> if unl = NNull \<or> unl = NUndef then snap else snap\<lparr>sn_unlock := js_Number unl\<rparr>))
         | _ \<Rightarrow> live)"

record wake_result =
  wk_restored :: bool
  wk_extended :: bool
  wk_hashes :: "string list"

definition wake_finish :: "env \<Rightarrow> string \<Rightarrow> string \<Rightarrow> progress \<Rightarrow> string option \<Rightarrow> wake_result io" where
  "wake_finish E vaultId owner p extended =
     (if \<not> pg_restored p \<and> extended = None then
        throw (Soroban (simulationError wake_up ''Vault is already live and has sufficient TTL. No action needed.''))
      else
        seqM (invalidateAllCaches E) (\<lambda>_.
        seqM (pushSnapshotToBackend E owner vaultId (decoded_snapshot E (pg_sim p))) (\<lambda>_.
        ret \<lparr>wk_restored = pg_restored p, wk_extended = (extended \<noteq> None),
          wk_hashes = pg_hashes p @ (case extended of None \<Rightarrow> [] | Some h \<Rightarrow> [h])\<rparr>)))"

definition wake_steps :: "env \<Rightarrow> deployment \<Rightarrow> string \<Rightarrow> string \<Rightarrow> nat \<Rightarrow> sim \<Rightarrow> wake_result io" where
  "wake_steps E dep vaultId owner signer s =
     seqM (restore_step E dep vaultId owner signer s) (\<lambda>p.
     seqM (extend_step E dep owner signer p) (wake_finish E vaultId owner p))"

definition wake_body :: "env \<Rightarrow> deployment \<Rightarrow> string \<Rightarrow> string \<Rightarrow> nat \<Rightarrow> wake_result io" where
  "wake_body E dep vaultId owner signer =
     seqM (buildProbe E dep vaultId owner) (\<lambda>probeTx.
     seqM (catchM (simulate_probe E probeTx) (\<lambda>e. throw (Soroban (networkError wake_up PSimulate e)))) (\<lambda>s.
     case s of
       SimError err \<Rightarrow> throw (Soroban (simulationError wake_up err))
     | SimSuccess _ _ _ \<Rightarrow> wake_steps E dep vaultId owner signer s))"

definition wakeUpVault :: "env \<Rightarrow> string \<Rightarrow> string \<Rightarrow> wake_result io" where
  "wakeUpVault E vaultId owner =
     seqM (getActiveDeployment E) (\<lambda>dep.
     seqM (ask ALoadSigner (e_loadSigner E)) (\<lambda>kp.
     case kp of
       None \<Rightarrow> throw (Soroban (walletNotConnectedError wake_up))
     | Some secretSeed \<Rightarrow>
         seqM (fromSecret E secretSeed) (\<lambda>signer.
           finallyM (wake_body E dep vaultId owner signer) (wipe_signer signer))))"


section \<open>The signer\<close>

lemma keeps_heap_send_phase: "keeps (\<lambda>w. w_heap w = h) (send_phase E server m t)"
  by (auto simp: send_phase_def Let_def intro!: keeps_intro)

lemma keeps_sign_tx: "keeps P (sign_tx E tx i)"
  by (simp add: keeps_def sign_tx_world)

lemma keeps_heap_submitOne: "keeps (\<lambda>w. w_heap w = h) (submitOne E signer tx)"
  by (auto simp: submitOne_def rpcServer_def intro!: keeps_intro keeps_sign_tx keeps_heap_send_phase keeps_heap_poll)

lemma keeps_heap_probe: "keeps (\<lambda>w. w_heap w = h) (buildProbe E dep i owner)"
  by (auto simp: buildProbe_def intro!: keeps_intro keeps_heap_loadAccount)

lemma keeps_heap_simulate_probe: "keeps (\<lambda>w. w_heap w = h) (simulate_probe E tx)"
  by (auto simp: simulate_probe_def rpcServer_def intro!: keeps_intro)

lemma keeps_heap_resimulate: "keeps (\<lambda>w. w_heap w = h) (resimulate E dep i owner s n)"
  by (induction n) (auto intro!: keeps_intro keeps_heap_probe keeps_heap_simulate_probe split: sum.splits)

lemma keeps_heap_restore: "keeps (\<lambda>w. w_heap w = h) (restore_step E dep i owner signer s)"
  by (auto simp: restore_step_def Let_def intro!: keeps_intro keeps_heap_loadAccount keeps_heap_submitOne keeps_heap_resimulate
      split: sim.splits option.splits)

lemma keeps_heap_extend: "keeps (\<lambda>w. w_heap w = h) (extend_step E dep owner signer p)"
  by (auto simp: extend_step_def intro!: keeps_intro keeps_heap_loadAccount keeps_heap_submitOne split: option.splits)

lemma keeps_heap_updM: "(\<And>w. w_heap (g w) = w_heap w) \<Longrightarrow> keeps (\<lambda>w. w_heap w = h) (updM g)"
  by (simp add: keeps_def updM_def)

lemma keeps_heap_push: "keeps (\<lambda>w. w_heap w = h) (pushSnapshotToBackend E owner i sn)"
  by (auto simp: pushSnapshotToBackend_def patch_snapshot_def getActiveDeployment_def intro!: keeps_intro keeps_heap_updM)

lemma keeps_heap_body: "keeps (\<lambda>w. w_heap w = h) (wake_body E dep i owner signer)"
  by (auto simp: wake_body_def wake_steps_def wake_finish_def invalidateAllCaches_def getActiveDeployment_def
      intro!: keeps_intro keeps_heap_probe keeps_heap_simulate_probe keeps_heap_restore keeps_heap_extend keeps_heap_push keeps_heap_updM
      split: sim.splits option.splits)

text \<open>The entries that the body adds, for a predicate that holds of every entry but a new key.\<close>

definition no_key :: "entry \<Rightarrow> bool" where
  "no_key x \<longleftrightarrow> (case fst x of AKeypair _ _ \<Rightarrow> False | _ \<Rightarrow> True)"

lemma no_key_simps [simp]:
  "no_key (AGetAccount a b, h)" "no_key (ASimulate a b, h)" "no_key (ASend a b, h)" "no_key (ARotate e, h)" "no_key (ASleep n, h)"
  "no_key (AFetch q, h)" "no_key (ARemoveItem k, h)"
  by (simp_all add: no_key_def)

lemma no_key_probe: "appends no_key (buildProbe E dep i owner)"
  by (auto simp: buildProbe_def intro!: appends_intro appends_loadAccount)

lemma no_key_simulate_probe: "appends no_key (simulate_probe E tx)"
  by (auto simp: simulate_probe_def intro!: appends_intro)

lemma appends_sign_tx: "appends P (sign_tx E tx i)"
  by (rule appends_nothing) (simp add: sign_tx_world)

lemma no_key_submitOne: "appends no_key (submitOne E signer tx)"
proof -
  have "appends no_key (poll E None wake_up h n)" for h n
    by (rule appends_mono [OF appends_poll]) (auto simp: polling_def no_key_def split: action.splits)
  then show ?thesis by (auto simp: submitOne_def send_phase_def Let_def intro!: appends_intro appends_sign_tx)
qed

lemma no_key_resimulate: "appends no_key (resimulate E dep i owner s n)"
  by (induction n) (auto intro!: appends_intro no_key_probe no_key_simulate_probe split: sum.splits)

lemma no_key_restore: "appends no_key (restore_step E dep i owner signer s)"
  by (auto simp: restore_step_def Let_def intro!: appends_intro appends_loadAccount no_key_submitOne no_key_resimulate
      split: sim.splits option.splits)

lemma no_key_extend: "appends no_key (extend_step E dep owner signer p)"
  by (auto simp: extend_step_def intro!: appends_intro appends_loadAccount no_key_submitOne split: option.splits)

lemma no_key_push: "appends no_key (pushSnapshotToBackend E owner i sn)"
  by (auto simp: pushSnapshotToBackend_def patch_snapshot_def intro!: appends_intro appends_updM)

lemma no_key_body: "appends no_key (wake_body E dep i owner signer)"
  by (auto simp: wake_body_def wake_steps_def wake_finish_def invalidateAllCaches_def
      intro!: appends_intro no_key_probe no_key_simulate_probe no_key_restore no_key_extend no_key_push appends_updM
      split: sim.splits option.splits)

lemma wakeUpVault_cases:
  assumes "wakeUpVault E vaultId owner w = (r, w')"
  defines "w1 \<equiv> record_action ALoadSigner w"
  obtains (no_signer) e where "r = Inl e" and "w' = w1"
    | (signer) seed i k bufs w2 w3 where "e_fromSecret E seed (w_heap w1) = Inr (i, k, bufs)"
      and "w2 = record_action (AKeypair i k)
        (w1\<lparr>w_heap := (w_heap w1)\<lparr>h_bufs := bufs, h_kps := (h_kps (w_heap w1))(i := Some k)\<rparr>\<rparr>)"
      and "wake_body E (e_dep E (w_log w)) vaultId owner i w2 = (r, w3)" and "w' = wipe_signer i w3"
proof -
  have "seqM (ask ALoadSigner (e_loadSigner E)) (\<lambda>kp. case kp of None \<Rightarrow> throw (Soroban (walletNotConnectedError wake_up))
     | Some secretSeed \<Rightarrow> seqM (fromSecret E secretSeed) (\<lambda>signer.
         finallyM (wake_body E (e_dep E (w_log w)) vaultId owner signer) (wipe_signer signer))) w = (r, w')"
    using assms(1) by (simp add: wakeUpVault_def getActiveDeployment_def seqM_eval [of "getM _"] getM_eval)
  then show ?thesis
  proof (cases rule: seqM_cases)
    case (throws e)
    then show ?thesis using no_signer by (auto simp: ask_eval w1_def)
  next
    case (goes_on kp v)
    then have v: "v = w1" by (simp add: ask_eval w1_def)
    show ?thesis
    proof (cases kp)
      case None
      then show ?thesis using no_signer goes_on(2) v by (auto simp: throw_eval)
    next
      case (Some seed)
      show ?thesis
      proof (cases "e_fromSecret E seed (w_heap w1)")
        case (Inl e)
        then show ?thesis using no_signer goes_on(2) v Some by (auto simp: seqM_eval fromSecret_def)
      next
        case (Inr q)
        obtain i k bufs where q: "q = (i, k, bufs)" by (cases q)
        define w2 where "w2 = record_action (AKeypair i k)
          (w1\<lparr>w_heap := (w_heap w1)\<lparr>h_bufs := bufs, h_kps := (h_kps (w_heap w1))(i := Some k)\<rparr>\<rparr>)"
        have "fromSecret E seed w1 = (Inr i, w2)" using Inr q by (simp add: fromSecret_def Let_def w2_def)
        then have "finallyM (wake_body E (e_dep E (w_log w)) vaultId owner i) (wipe_signer i) w2 = (r, w')"
          using goes_on(2) v Some by (simp add: seqM_eval [of "fromSecret E seed"])
        moreover obtain r3 w3 where "wake_body E (e_dep E (w_log w)) vaultId owner i w2 = (r3, w3)" by fastforce
        ultimately show ?thesis using signer [OF Inr [unfolded q] w2_def, of w3] by (simp add: finallyM_eval)
      qed
    qed
  qed
qed

text \<open>C19: the signer of a wake-up is wiped on every exit. However \<^verbatim>\<open>wakeUpVault\<close> ends, at most one
  keypair has been made, and all bytes of its secret fields are zero in memory afterwards.\<close>
theorem wake_up_wipes_signer:
  assumes "wakeUpVault E vaultId owner w = (r, w')"
  shows "length (filter (\<lambda>x. \<not> no_key x) (since w w')) \<le> 1 \<and>
    (\<forall>i k h. (AKeypair i k, h) \<in> set (since w w') \<longrightarrow> wiped k (w_heap w'))"
  using assms
proof (cases rule: wakeUpVault_cases)
  case (no_signer e)
  then show ?thesis by (simp add: no_key_def)
next
  case (signer seed i k bufs w2 w3)
  obtain new where new: "w_log w3 = w_log w2 @ new" "\<forall>x\<in>set new. no_key x"
    using appendsD [OF no_key_body signer(3)] by blast
  have "\<exists>h. since w w' = [(ALoadSigner, w_heap w), (AKeypair i k, h)] @ new"
    using new(1) by (simp add: signer(2,4) wipe_signer_def since_def)
  then obtain h where s: "since w w' = [(ALoadSigner, w_heap w), (AKeypair i k, h)] @ new" by blast
  have "filter (\<lambda>x. \<not> no_key x) new = []" using new(2) by (simp add: filter_empty_conv)
  moreover have "h_kps (w_heap w3) i = Some k"
    using keeps_result [OF keeps_heap_body refl signer(3)] by (simp add: signer(2))
  then have "wiped k (w_heap w')" unfolding signer(4) by (rule wiped_wipe_signer)
  moreover have "(AKeypair j k', h') \<notin> set new" for j k' h' using new(2) by (fastforce simp: no_key_def)
  ultimately show ?thesis by (auto simp: s no_key_def)
qed


section \<open>Budgets\<close>

text \<open>Computations that perform at most \<open>n\<close> actions of a kind.\<close>

definition at_most :: "(action \<Rightarrow> bool) \<Rightarrow> nat \<Rightarrow> (world, 'e, 'a) eff \<Rightarrow> bool" where
  "at_most P n m \<longleftrightarrow> (\<forall>w. grows w (snd (m w)) \<and> tries P w (snd (m w)) \<le> n)"

lemma at_mostD: "at_most P n m \<Longrightarrow> m w = (r, w') \<Longrightarrow> grows w w' \<and> tries P w w' \<le> n"
  by (metis at_most_def snd_conv)

lemma at_most_weaken: "at_most P n m \<Longrightarrow> n \<le> k \<Longrightarrow> at_most P k m"
  by (meson at_most_def le_trans)

lemma at_most_none: "appends (\<lambda>x. \<not> P (fst x)) m \<Longrightarrow> at_most P n m"
  using appends_tries_0 [of P m] appends_grows [of "\<lambda>x. \<not> P (fst x)" m] by (simp add: at_most_def)

lemma at_most_seqM:
  assumes "at_most P n m" and "\<And>x. at_most P k (f x)" and "n + k \<le> j"
  shows "at_most P j (seqM m f)"
  unfolding at_most_def
proof
  fix w
  obtain r v where m: "m w = (r, v)" by (cases "m w")
  show "grows w (snd (seqM m f w)) \<and> tries P w (snd (seqM m f w)) \<le> j"
  proof (cases r)
    case (Inr x)
    obtain r2 u where f: "f x v = (r2, u)" by (cases "f x v")
    have "grows w v" "grows v u" "tries P w v \<le> n" "tries P v u \<le> k"
      using at_mostD [OF assms(1) m] at_mostD [OF assms(2) f] by blast+
    then show ?thesis using m f Inr assms(3) tries_trans [of w v u P] by (auto simp: seqM_eval intro: grows_trans)
  qed (use m assms(3) at_mostD [OF assms(1) m] in \<open>auto simp: seqM_eval\<close>)
qed

lemma at_most_catchM:
  assumes "at_most P n m" and "\<And>e. at_most P k (h e)" and "n + k \<le> j"
  shows "at_most P j (catchM m h)"
  unfolding at_most_def
proof
  fix w
  obtain r v where m: "m w = (r, v)" by (cases "m w")
  show "grows w (snd (catchM m h w)) \<and> tries P w (snd (catchM m h w)) \<le> j"
  proof (cases r)
    case (Inl x)
    obtain r2 u where f: "h x v = (r2, u)" by (cases "h x v")
    have "grows w v" "grows v u" "tries P w v \<le> n" "tries P v u \<le> k"
      using at_mostD [OF assms(1) m] at_mostD [OF assms(2) f] by blast+
    then show ?thesis using m f Inl assms(3) tries_trans [of w v u P] by (auto simp: catchM_eval intro: grows_trans)
  qed (use m assms(3) at_mostD [OF assms(1) m] in \<open>auto simp: catchM_eval\<close>)
qed

lemma at_most_attemptM: "at_most P n m \<Longrightarrow> at_most P n (attemptM m)"
  by (simp add: at_most_def attemptM_eval)

lemma at_most_action: "at_most P 1 (act a x)" "at_most P 1 (ask a f)"
  by (simp_all add: at_most_def act_def ask_def Let_def)

lemma at_most_ret: "at_most P n (ret x)" "at_most P n (throw e)"
  by (auto intro!: at_most_none appends_intro)

definition is_send :: "action \<Rightarrow> bool" where
  "is_send a \<longleftrightarrow> (case a of ASend _ _ \<Rightarrow> True | _ \<Rightarrow> False)"

text \<open>What one submission, one probe and the simulations cost.\<close>

definition no_submit :: "entry \<Rightarrow> bool" where
  "no_submit x \<longleftrightarrow> \<not> is_send (fst x) \<and> \<not> is_getTx (fst x)"

lemma no_submit_simps [simp]:
  "no_submit (AGetAccount a b, h)" "no_submit (ASimulate a b, h)" "no_submit (ARotate e, h)" "no_submit (ASleep n, h)"
  "no_submit (AFetch q, h)" "no_submit (ARemoveItem k, h)" "no_submit (ALoadSigner, h)" "no_submit (AKeypair i kp, h)"
  by (simp_all add: no_submit_def is_send_def is_getTx_def)

lemma no_submit_probe: "appends no_submit (buildProbe E dep i owner)"
  by (auto simp: buildProbe_def intro!: appends_intro appends_loadAccount)

lemma no_submit_resimulate: "appends no_submit (resimulate E dep i owner s n)"
  by (induction n) (auto simp: simulate_probe_def intro!: appends_intro no_submit_probe split: sum.splits)

lemma no_submit_none: "appends no_submit m \<Longrightarrow> at_most is_send n m" "appends no_submit m \<Longrightarrow> at_most is_getTx n m"
  by (auto intro!: at_most_none elim!: appends_mono simp: no_submit_def)

lemma submit_costs:
  "at_most is_send 1 (submitOne E signer tx)" "at_most is_getTx POLL_ATTEMPTS (submitOne E signer tx)"
  "appends (\<lambda>x. \<not> is_simulate (fst x)) (submitOne E signer tx)"
proof -
  have poll: "appends (\<lambda>x. \<not> is_send (fst x) \<and> \<not> is_simulate (fst x)) (poll E None wake_up h n)" for h n
    by (rule appends_mono [OF appends_poll]) (auto simp: polling_def is_send_def is_simulate_def split: action.splits)
  have sign: "appends Q (catchM (sign_tx E tx signer) (\<lambda>e. throw (Soroban (signError wake_up e))))" for Q
    by (intro appends_intro appends_sign_tx)
  have send: "at_most is_send 1 (send_phase E server wake_up t)" for server t
    unfolding send_phase_def Let_def
    by (intro at_most_seqM [where n = 1 and k = 0] at_most_catchM [where n = 1 and k = 0] at_most_action)
      (auto intro!: at_most_none appends_intro)
  have not_getTx: "appends (\<lambda>x. \<not> is_getTx (fst x) \<and> \<not> is_simulate (fst x)) (send_phase E server wake_up t)" for server t
    by (auto simp: send_phase_def Let_def is_getTx_def is_simulate_def intro!: appends_intro)
  show "at_most is_send 1 (submitOne E signer tx)"
    unfolding submitOne_def
    by (intro at_most_seqM [where n = 0 and k = 1 and j = 1] at_most_seqM [where n = 1 and k = 0 and j = 1] send)
      (auto intro!: at_most_none sign appends_intro appends_mono [OF poll])
  have polls: "at_most is_getTx POLL_ATTEMPTS (poll E None wake_up h POLL_ATTEMPTS)" for h
    unfolding at_most_def using poll_budget.budget by blast
  have after_send: "at_most is_getTx POLL_ATTEMPTS (seqM (poll E None wake_up h POLL_ATTEMPTS) (\<lambda>_. ret h))" for h
    by (rule at_most_seqM [OF polls at_most_ret(1) [where n = 0]]) simp
  have sending: "at_most is_getTx 0 (send_phase E server wake_up t)" for server t
    by (rule at_most_none, rule appends_mono [OF not_getTx]) simp
  have sent: "at_most is_getTx POLL_ATTEMPTS (seqM (send_phase E server wake_up t)
      (\<lambda>h. seqM (poll E None wake_up h POLL_ATTEMPTS) (\<lambda>_. ret h)))" for server t
    by (rule at_most_seqM [OF sending after_send]) simp
  have server: "at_most is_getTx 0 (rpcServer E)" by (rule at_most_none, rule appends_intro)
  have signed: "at_most is_getTx POLL_ATTEMPTS (seqM (rpcServer E) (\<lambda>server. seqM (send_phase E server wake_up t)
      (\<lambda>h. seqM (poll E None wake_up h POLL_ATTEMPTS) (\<lambda>_. ret h))))" for t
    by (rule at_most_seqM [OF server sent]) simp
  show "at_most is_getTx POLL_ATTEMPTS (submitOne E signer tx)"
    unfolding submitOne_def by (rule at_most_seqM [OF at_most_none [OF sign, of _ 0] signed]) simp
  show "appends (\<lambda>x. \<not> is_simulate (fst x)) (submitOne E signer tx)"
    unfolding submitOne_def by (auto intro!: appends_intro sign appends_mono [OF poll] appends_mono [OF not_getTx])
qed


lemma probe_simulates_once:
  "at_most is_simulate 1 (seqM (buildProbe E dep i owner) (simulate_probe E))"
proof -
  have "at_most is_simulate 0 (buildProbe E dep i owner)"
    by (rule at_most_none) (auto simp: buildProbe_def is_simulate_def intro!: appends_intro appends_loadAccount)
  moreover have "at_most is_simulate 0 (rpcServer E)" by (rule at_most_none) (rule appends_intro)
  then have "at_most is_simulate 1 (simulate_probe E tx)" for tx
    unfolding simulate_probe_def by (rule at_most_seqM) (rule at_most_action, simp)
  ultimately show ?thesis by (rule at_most_seqM) simp
qed

lemma resimulate_once:
  "\<exists>v. grows w v \<and> tries is_simulate w v \<le> 1 \<and>
    (snd (resimulate E dep i owner s (Suc n) w) = snd (resimulate E dep i owner s n v) \<or>
     snd (resimulate E dep i owner s (Suc n) w) = v)"
proof -
  let ?m = "seqM (buildProbe E dep i owner) (simulate_probe E)"
  define w1 where "w1 = record_action (ASleep POLL_INTERVAL_MS) w"
  obtain r v where m: "?m w1 = (r, v)" by (cases "?m w1")
  have "grows w1 v \<and> tries is_simulate w1 v \<le> 1" by (rule at_mostD [OF probe_simulates_once m])
  moreover have "grows w w1" "tries is_simulate w w1 = 0" by (simp_all add: w1_def is_simulate_def)
  ultimately have "grows w v" "tries is_simulate w v \<le> 1"
    using tries_trans [of w w1 v is_simulate] grows_trans [of w w1 v] by auto
  moreover have "snd (resimulate E dep i owner s (Suc n) w) = snd (resimulate E dep i owner s n v) \<or>
     snd (resimulate E dep i owner s (Suc n) w) = v"
    using m by (auto simp: seqM_eval [of "act _ _"] act_eval seqM_eval [of "attemptM _"] attemptM_eval w1_def [symmetric] ret_eval
        split: sum.splits)
  ultimately show ?thesis by blast
qed

interpretation resim_budget: budgeted "\<lambda>n. resimulate E dep i owner s n" is_simulate for E dep i owner s
  by unfold_locales (simp add: ret_eval, rule resimulate_once)

lemma restore_costs:
  "at_most is_send 1 (restore_step E dep i owner signer s)" "at_most is_getTx 30 (restore_step E dep i owner signer s)"
  "at_most is_simulate 3 (restore_step E dep i owner signer s)"
proof -
  have costs: "at_most is_send 1 (submitOne E signer tx)" "at_most is_getTx 30 (submitOne E signer tx)" "at_most is_simulate 0 (submitOne E signer tx)" for tx
    using submit_costs(1,2) at_most_none [OF submit_costs(3)] by (simp_all only: POLL_ATTEMPTS_def)
  have resim: "at_most is_send 0 (resimulate E dep i owner s' n)" "at_most is_getTx 0 (resimulate E dep i owner s' n)" for n s'
    by (intro no_submit_none no_submit_resimulate)+
  have resim3: "at_most is_simulate 3 (resimulate E dep i owner s' RE_SIM_ATTEMPTS)" for s'
    using resim_budget.budget [of _ E dep i owner s' 3] by (simp add: at_most_def RE_SIM_ATTEMPTS_def)
  have load: "at_most P 0 (loadAccount E owner)" if "\<And>a b. \<not> P (AGetAccount a b)" "\<And>e. \<not> P (ARotate e)" for P
    by (intro at_most_none appends_loadAccount) (simp_all add: that)
  have lift: "at_most P 0 (liftM q)" for P and q :: "thrown + xdr" by (intro at_most_none appends_intro)
  show "at_most is_send 1 (restore_step E dep i owner signer s)" unfolding restore_step_def Let_def
    by (auto intro!: at_most_ret at_most_seqM [OF load, where k = 1] at_most_seqM [OF lift, where k = 1]
        at_most_seqM [OF costs(1), where k = 0] at_most_seqM [OF resim(1), where k = 0] simp: is_send_def simp del: One_nat_def split: sim.splits option.splits)
  show "at_most is_getTx 30 (restore_step E dep i owner signer s)" unfolding restore_step_def Let_def
    by (auto intro!: at_most_ret at_most_seqM [OF load, where k = 30] at_most_seqM [OF lift, where k = 30]
        at_most_seqM [OF costs(2), where k = 0] at_most_seqM [OF resim(2), where k = 0] simp: is_getTx_def split: sim.splits option.splits)
  show "at_most is_simulate 3 (restore_step E dep i owner signer s)" unfolding restore_step_def Let_def
    by (auto intro!: at_most_ret at_most_seqM [OF load, where k = 3] at_most_seqM [OF lift, where k = 3]
        at_most_seqM [OF costs(3), where k = 3] at_most_seqM [OF resim3, where k = 0] simp: is_simulate_def split: sim.splits option.splits)
qed


lemma extend_costs:
  assumes "\<And>tx. at_most P n (submitOne E signer tx)" and "\<And>a b. \<not> P (AGetAccount a b)" and "\<And>e. \<not> P (ARotate e)"
  shows "at_most P n (extend_step E dep owner signer p)"
proof (cases "extend_data p")
  case (Some d)
  have load: "at_most P 0 (loadAccount E owner)" by (intro at_most_none appends_loadAccount) (simp_all add: assms)
  have lift: "at_most P 0 (liftM q)" for q :: "thrown + xdr" by (intro at_most_none appends_intro)
  have "at_most P n (seqM (submitOne E signer tx) (\<lambda>hash. ret (Some hash)))" for tx
    by (rule at_most_seqM [OF assms(1) at_most_ret(1) [where n = 0]]) simp
  then have "at_most P n (catchM (seqM (submitOne E signer tx) (\<lambda>hash. ret (Some hash))) (\<lambda>e. if c then throw f else throw e))" for tx c f
    by (rule at_most_catchM [where k = 0]) (simp_all add: at_most_ret)
  then show ?thesis using Some unfolding extend_step_def
    by (simp only: option.case) (rule at_most_seqM [OF load at_most_seqM [OF lift, where k = n and j = n]], assumption, simp_all)
qed (simp add: extend_step_def at_most_ret)

lemma finish_costs:
  "(\<And>k. \<not> P (ARemoveItem k)) \<Longrightarrow> (\<And>q. \<not> P (AFetch q)) \<Longrightarrow> at_most P 0 (wake_finish E vaultId owner p x)"
  by (rule at_most_none)
    (auto simp: wake_finish_def invalidateAllCaches_def pushSnapshotToBackend_def patch_snapshot_def intro!: appends_intro appends_updM)

lemma steps_costs:
  assumes "at_most P b (restore_step E dep i owner signer s)" and "\<And>p. at_most P c (extend_step E dep owner signer p)"
    and "\<And>k. \<not> P (ARemoveItem k)" and "\<And>q. \<not> P (AFetch q)"
  shows "at_most P (b + c) (wake_steps E dep i owner signer s)"
proof -
  have "at_most P c (seqM (extend_step E dep owner signer p) (wake_finish E i owner p))" for p
    by (rule at_most_seqM [OF assms(2) finish_costs]) (simp_all add: assms)
  then show ?thesis unfolding wake_steps_def by (rule at_most_seqM [OF assms(1)]) simp
qed

lemma body_costs:
  assumes "\<And>tx. at_most P a (simulate_probe E tx)" and "\<And>s. at_most P n (wake_steps E dep i owner signer s)"
    and "\<And>x y. \<not> P (AGetAccount x y)" and "\<And>e. \<not> P (ARotate e)"
  shows "at_most P (a + n) (wake_body E dep i owner signer)"
proof -
  have probe: "at_most P 0 (buildProbe E dep i owner)"
    by (rule at_most_none) (auto simp: buildProbe_def assms intro!: appends_intro appends_loadAccount)
  have sim: "at_most P a (catchM (simulate_probe E tx) (\<lambda>e. throw (g e)))" for tx g
    by (rule at_most_catchM [OF assms(1), where k = 0]) (simp_all add: at_most_ret)
  have rest: "at_most P n (case s of SimError err \<Rightarrow> throw (f err) | SimSuccess _ _ _ \<Rightarrow> wake_steps E dep i owner signer s)" for s f
    by (simp add: at_most_ret assms(2) split: sim.splits)
  show ?thesis unfolding wake_body_def
    by (rule at_most_seqM [OF probe at_most_seqM [OF sim rest order_refl]]) simp
qed

text \<open>The costs of a whole wake-up.\<close>

lemma wake_up_costs:
  assumes body: "\<And>dep signer. at_most P n (wake_body E dep vaultId owner signer)" and "\<not> P ALoadSigner" and "\<And>i k. \<not> P (AKeypair i k)"
    and "wakeUpVault E vaultId owner w = (r, w')"
  shows "tries P w w' \<le> n"
  using assms(4)
proof (cases rule: wakeUpVault_cases)
  case (no_signer e)
  then show ?thesis using assms(2) by simp
next
  case (signer seed i k bufs w2 w3)
  have "grows w2 w3" and n: "tries P w2 w3 \<le> n" using at_mostD [OF body signer(3)] by blast+
  moreover have "grows w w2" "tries P w w2 = 0"
    using assms(2,3) by (simp_all add: signer(2) grows_def tries_def since_def)
  ultimately have "tries P w w3 \<le> n" using tries_trans [of w w2 w3 P] by simp
  moreover have "tries P w w' = tries P w w3" by (simp add: signer(4) tries_def since_def wipe_signer_def)
  ultimately show ?thesis by simp
qed

text \<open>C20: the effort of a wake-up is bounded. Whatever the network answers, \<^verbatim>\<open>wakeUpVault\<close> sends at most
  two transactions, asks for their status at most 2 * 30 times and simulates at most 1 + 3 times.\<close>
theorem wake_up_bounded:
  assumes "wakeUpVault E vaultId owner w = (r, w')"
  shows "tries is_send w w' \<le> 2 \<and> tries is_getTx w w' \<le> 60 \<and> tries is_simulate w w' \<le> 4"
proof -
  have submit: "at_most is_send 1 (submitOne E signer tx)" "at_most is_getTx 30 (submitOne E signer tx)" "at_most is_simulate 0 (submitOne E signer tx)" for signer tx
    using submit_costs(1,2) at_most_none [OF submit_costs(3)] by (simp_all only: POLL_ATTEMPTS_def)
  have probe: "appends no_submit (simulate_probe E tx)" for tx
    by (auto simp: simulate_probe_def intro!: appends_intro)
  have sim: "at_most is_simulate 1 (simulate_probe E tx)" for tx
    unfolding simulate_probe_def
    by (rule at_most_seqM [OF at_most_none [OF appends_rpcServer, of _ 0] at_most_action(2)]) simp
  note fields = is_send_def is_getTx_def is_simulate_def
  have "tries is_send w w' \<le> 0 + (1 + 1)"
    by (rule wake_up_costs [OF body_costs [OF no_submit_none(1) [OF probe] steps_costs [OF restore_costs(1) extend_costs [OF submit(1)]]] _ _ assms])
      (simp_all add: fields)
  moreover have "tries is_getTx w w' \<le> 0 + (30 + 30)"
    by (rule wake_up_costs [OF body_costs [OF no_submit_none(2) [OF probe] steps_costs [OF restore_costs(2) extend_costs [OF submit(2)]]] _ _ assms])
      (simp_all add: fields)
  moreover have "tries is_simulate w w' \<le> 1 + (3 + 0)"
    by (rule wake_up_costs [OF body_costs [OF sim steps_costs [OF restore_costs(3) extend_costs [OF submit(3)]]] _ _ assms])
      (simp_all add: fields)
  ultimately show ?thesis by simp
qed


section \<open>The double handshake\<close>

lemma quiet_probe [quiet]: "appends no_send (buildProbe E dep i owner)" "appends no_send (simulate_probe E tx)"
  by (auto simp: buildProbe_def simulate_probe_def intro!: appends_intro appends_loadAccount)

lemma quiet_resimulate [quiet]: "appends no_send (resimulate E dep i owner s n)"
  by (induction n) (auto intro!: appends_intro quiet split: sum.splits)

lemma quiet_finish_wake [quiet]: "appends no_send (wake_finish E i owner p x)"
  by (auto simp: wake_finish_def invalidateAllCaches_def intro!: appends_intro quiet appends_updM)

lemma quiet_load [quiet]: "appends no_send (loadAccount E owner)"
  by (rule appends_loadAccount) simp_all

text \<open>Success receipts with the hashes \<open>hs\<close>, and nothing else, between two worlds.\<close>

definition confirmed :: "string list \<Rightarrow> world \<Rightarrow> world \<Rightarrow> bool" where
  "confirmed hs w w' \<longleftrightarrow> grows w w' \<and> map rc_txHash (receipts (since w w')) = hs \<and>
     (\<forall>rc\<in>set (receipts (since w w')). rc_status rc = RSuccess)"

lemma confirmed_trans: "confirmed hs u v \<Longrightarrow> confirmed hs' v w \<Longrightarrow> confirmed (hs @ hs') u w"
  using since_trans [of u v w] by (auto simp: confirmed_def intro: grows_trans)

lemma confirmed_quiet: "appends no_send m \<Longrightarrow> m w = (r, w') \<Longrightarrow> confirmed [] w w'"
  using appends_grows [of no_send m w] no_send_lists(2) [of "since w w'"] appends_since [of no_send m w r w']
  by (auto simp: confirmed_def)

lemma confirmed_refl: "confirmed [] w w"
  by (simp add: confirmed_def)

lemma submitOne_confirmed:
  assumes "submitOne E signer tx w = (Inr h, w')"
  shows "confirmed [h] w w'"
proof -
  obtain t server w1 rv where "send_phase E server wake_up t w = (Inr h, w1)"
    and p: "poll E None wake_up h POLL_ATTEMPTS w1 = (Inr rv, w')"
    using assms sign_tx_world
    by (auto simp: submitOne_def ret_eval rpcServer_def getM_eval throw_eval elim!: seqM_cases catchM_cases) (metis snd_conv)
  then have w1: "w1 = record_action (ASend server t) w"
    by (auto elim: send_phase_cases)
  obtain new where new: "w_log w' = w_log w1 @ new"
    "poll_result wake_up h POLL_ATTEMPTS (Inr rv) (answers E (w_log w1) new) (receipts new)"
    using poll_decided [OF p] by blast
  then obtain rc where "receipts new = [rc]" "rc_txHash rc = h" "rc_status rc = RSuccess"
    by (auto simp: poll_result_def)
  then show ?thesis using new(1) by (simp add: w1 confirmed_def grows_def since_def)
qed

text \<open>What the SDK documents of a response: a success carries its \<^verbatim>\<open>transactionData\<close>.\<close>

definition sdk_success :: "env \<Rightarrow> bool" where
  "sdk_success E \<longleftrightarrow> (\<forall>hs s. e_simulate E hs = Inr s \<longrightarrow> is_sim_error s \<or> sim_data s \<noteq> None)"

definition usable :: "sim \<Rightarrow> bool" where
  "usable s \<longleftrightarrow> \<not> is_sim_error s \<and> sim_data s \<noteq> None"

lemma simulate_probe_usable:
  "sdk_success E \<Longrightarrow> simulate_probe E tx w = (Inr s, w') \<Longrightarrow> \<not> is_sim_error s \<Longrightarrow> usable s"
  unfolding sdk_success_def usable_def simulate_probe_def rpcServer_def
  by (erule seqM_cases) (simp_all add: ask_eval getM_eval, metis)

lemma resimulate_usable:
  "sdk_success E \<Longrightarrow> usable s \<Longrightarrow> resimulate E dep i owner s n w = (Inr s', w') \<Longrightarrow> usable s'"
proof (induction n arbitrary: w)
  case (Suc n)
  then show ?case
    by (auto simp: attemptM_eval act_eval ret_eval elim!: seqM_cases split: sum.splits if_splits)
      (metis (no_types, lifting) prod.collapse seqM_cases simulate_probe_usable sum.inject(2) sum.distinct(1))
qed (simp add: ret_eval)


lemma restore_handshake:
  assumes sdk: "sdk_success E" and s: "usable s" and run: "restore_step E dep i owner signer s w = (Inr p, w')"
  shows "usable (pg_sim p)" and "confirmed (pg_hashes p) w w'" and "length (pg_hashes p) = (if pg_restored p then 1 else 0)"
proof -
  have "usable (pg_sim p) \<and> confirmed (pg_hashes p) w w' \<and> length (pg_hashes p) = (if pg_restored p then 1 else 0)"
  proof (cases "e_isRestore E s \<and> (\<exists>a b pre. s = SimSuccess a b (Some pre))")
    case True
    then obtain a b pre where pre: "s = SimSuccess a b (Some pre)" by blast
    from run True obtain src w1 tx h w2 s' w3 where
      1: "loadAccount E owner w = (Inr src, w1)" and 2: "submitOne E signer tx w1 = (Inr h, w2)"
      and 3: "resimulate E dep i owner s RE_SIM_ATTEMPTS w2 = (Inr s', w')"
      and p: "p = \<lparr>pg_sim = s', pg_fallback = Some (extend_footprint E (pr_data pre)), pg_restored = True, pg_hashes = [h]\<rparr>"
      by (auto simp: restore_step_def Let_def pre liftM_eval ret_eval elim!: seqM_cases)
    have "confirmed ([] @ [h] @ []) w w'"
      by (intro confirmed_trans [OF confirmed_quiet [OF quiet_load 1]] confirmed_trans [OF submitOne_confirmed [OF 2]]
          confirmed_quiet [OF quiet_resimulate 3])
    then show ?thesis using resimulate_usable [OF sdk s 3] by (simp add: p)
  next
    case False
    then have "p = \<lparr>pg_sim = s, pg_fallback = None, pg_restored = False, pg_hashes = []\<rparr> \<and> w' = w"
      using run by (auto simp: restore_step_def Let_def ret_eval split: sim.splits option.splits if_splits)
    then show ?thesis using s by (simp add: confirmed_refl)
  qed
  then show "usable (pg_sim p)" and "confirmed (pg_hashes p) w w'" and "length (pg_hashes p) = (if pg_restored p then 1 else 0)"
    by blast+
qed

lemma extend_handshake:
  assumes "usable (pg_sim p)" and run: "extend_step E dep owner signer p w = (Inr x, w')"
  shows "\<exists>h. x = Some h \<and> confirmed [h] w w'"
proof -
  obtain d where d: "extend_data p = Some d"
    using assms(1) by (cases "pg_sim p") (auto simp: usable_def is_sim_error_def extend_data_def)
  from run obtain src w1 tx h where 1: "loadAccount E owner w = (Inr src, w1)" and 2: "submitOne E signer tx w1 = (Inr h, w')" and "x = Some h"
    by (auto simp: extend_step_def d liftM_eval ret_eval throw_eval elim!: seqM_cases catchM_cases split: if_splits)
  then show ?thesis using confirmed_trans [OF confirmed_quiet [OF quiet_load 1] submitOne_confirmed [OF 2]] by simp
qed

text \<open>The double handshake. When every successful simulation carries its transaction data (as the SDK
  documents), a wake-up that returns has extended the time to live: it reports one confirmed
  transaction, or two when it first restored the entry, and the receipts of the run are exactly the
  success receipts of the reported hashes in order. The fallback footprint and the answer that
  nothing had to be done are never used.\<close>
lemma wake_up_double_handshake:
  assumes "sdk_success E" and "wakeUpVault E vaultId owner w = (Inr res, w')"
  shows "wk_extended res \<and> length (wk_hashes res) = (if wk_restored res then 2 else 1) \<and>
    map rc_txHash (receipts (since w w')) = wk_hashes res \<and>
    (\<forall>rc\<in>set (receipts (since w w')). rc_status rc = RSuccess)"
  using assms(2)
proof (cases rule: wakeUpVault_cases)
  case (signer seed i k bufs w2 w3)
  let ?dep = "e_dep E (w_log w)"
  from signer(3) obtain tx w4 s w5 where 1: "buildProbe E ?dep vaultId owner w2 = (Inr tx, w4)"
    and 2: "simulate_probe E tx w4 = (Inr s, w5)" and 3: "\<not> is_sim_error s"
    and 4: "wake_steps E ?dep vaultId owner i s w5 = (Inr res, w3)"
    by (auto simp: wake_body_def is_sim_error_def throw_eval elim!: seqM_cases catchM_cases split: sim.splits)
  from 4 obtain p w6 x w7 where 5: "restore_step E ?dep vaultId owner i s w5 = (Inr p, w6)"
    and 6: "extend_step E ?dep owner i p w6 = (Inr x, w7)" and 7: "wake_finish E vaultId owner p x w7 = (Inr res, w3)"
    by (auto simp: wake_steps_def elim!: seqM_cases)
  note restored = restore_handshake [OF assms(1) simulate_probe_usable [OF assms(1) 2 3] 5]
  obtain h where h: "x = Some h" "confirmed [h] w6 w7" using extend_handshake [OF restored(1) 6] by blast
  have "res = \<lparr>wk_restored = pg_restored p, wk_extended = True, wk_hashes = pg_hashes p @ [h]\<rparr>"
    using 7 h(1) by (auto simp: wake_finish_def ret_eval elim!: seqM_cases)
  moreover have "confirmed ([] @ [] @ pg_hashes p @ [h] @ []) w2 w3"
    by (intro confirmed_trans [OF confirmed_quiet [OF quiet_probe(1) 1]] confirmed_trans [OF confirmed_quiet [OF quiet_probe(2) 2]]
        confirmed_trans [OF restored(2)] confirmed_trans [OF h(2)] confirmed_quiet [OF quiet_finish_wake 7])
  then have "confirmed (pg_hashes p @ [h]) w2 w3" by simp
  moreover have "receipts (since w w') = receipts (since w2 w3)"
  proof -
    obtain new where "w_log w3 = w_log w2 @ new" using \<open>confirmed (pg_hashes p @ [h]) w2 w3\<close> by (auto simp: confirmed_def grows_def prefix_def)
    then show ?thesis by (simp add: signer(2,4) wipe_signer_def since_def)
  qed
  ultimately show ?thesis using restored(3) by (simp add: confirmed_def)
qed simp


subsection \<open>An example run\<close>

definition demo_wake :: "(thrown + wake_result) \<times> world" where
  "demo_wake = wakeUpVault demo_env ''4'' ''G'' demo_world"

lemmas wake_unfold = demo_wake_def wakeUpVault_def wake_body_def wake_steps_def restore_step_def extend_step_def extend_data_def wake_finish_def
  submitOne_def buildProbe_def simulate_probe_def js_BigInt_def string_int_4 scU64_def

lemma poll_fresh_next:
  fixes w :: world and hash :: string and E :: env
  defines "w1 \<equiv> record_action (ASleep 1500) w"
  defines "w2 \<equiv> record_action (AGetTx (e_url E (w_log w1)) hash) w1"
  assumes "0 < n" and "\<not> decisive (e_getTx E (w_log w2))"
  shows "poll E None m hash n w = poll E None m hash (n - 1) w2"
  using assms(3,4)
  by (cases n) (auto simp: w1_def w2_def seqM_eval act_eval attemptM_eval ask_eval server_of_eval decisive_def POLL_INTERVAL_MS_def split: sum.splits)

lemma poll_fresh_success:
  fixes w :: world and hash :: string and E :: env
  defines "w1 \<equiv> record_action (ASleep 1500) w"
  defines "w2 \<equiv> record_action (AGetTx (e_url E (w_log w1)) hash) w1"
  assumes "0 < n" and "e_getTx E (w_log w2) = Inr g" and "g_status g = ''SUCCESS''"
  shows "poll E None m hash n w = seqM (emitReceipt E m hash (g_ledger g) RSuccess) (\<lambda>rc. ret (g_returnValue g, rc)) w2"
  using assms(3-)
  by (cases n) (auto simp: w1_def w2_def seqM_eval act_eval attemptM_eval ask_eval server_of_eval POLL_INTERVAL_MS_def)

lemma demo_wake_run:
  "fst demo_wake = Inr \<lparr>wk_restored = False, wk_extended = True, wk_hashes = [''h1'']\<rparr>"
  "\<exists>h. (AKeypair 0 demo_kp, h) \<in> set (since demo_world (snd demo_wake)) \<and> byte_at h (0, 0) = Some 7"
  by (simp_all add: wake_unfold demo_unfold poll_fresh_next poll_fresh_success invalidateAllCaches_def pushSnapshotToBackend_def
      decoded_snapshot_def js_field_def patch_snapshot_def eventDiskKey_def since_def byte_at_def)


lemma demo_wake_eq: "wakeUpVault demo_env ''4'' ''G'' demo_world = (fst demo_wake, snd demo_wake)"
  by (simp add: demo_wake_def)

theorem wake_up_wipes_signer_witness:
  "(\<exists>h. (AKeypair 0 demo_kp, h) \<in> set (since demo_world (snd demo_wake)) \<and> byte_at h (0, 0) = Some 7) \<and>
    wiped demo_kp (w_heap (snd demo_wake))"
  using wake_up_wipes_signer [OF demo_wake_eq] demo_wake_run(2) by blast

theorem wake_up_bounded_witness: "tries is_send demo_world (snd demo_wake) \<le> 2"
  using wake_up_bounded [OF demo_wake_eq] by blast

lemma wake_up_double_handshake_witness:
  "map rc_txHash (receipts (since demo_world (snd demo_wake))) = [''h1'']"
proof -
  have "sdk_success demo_env" by (simp add: sdk_success_def demo_env_def)
  moreover have "wakeUpVault demo_env ''4'' ''G'' demo_world = (Inr \<lparr>wk_restored = False, wk_extended = True, wk_hashes = [''h1'']\<rparr>, snd demo_wake)"
    using demo_wake_eq demo_wake_run(1) by simp
  ultimately show ?thesis using wake_up_double_handshake by fastforce
qed

end
