(* ===== verification/Horizon.thy ===== *)
theory Horizon imports Vault_Data JS_Date begin

text \<open>
  \<^verbatim>\<open>src/wallet/horizon.ts\<close>: the balance of an account with its protocol reserve, the test network's
  faucet, and the payment history with its cache of memos. The state is the list of the requests
  made; the servers' answers, the clock and the active deployment are functions of it.
\<close>

section \<open>Requests and answers\<close>

datatype hz_request = GetAccount string | AskFriendbot string | GetPayments string nat | GetTx string

record hz_deployment =
  hd_network :: string
  hd_friendbot :: "string option"

record balance_row =
  br_asset_type :: string
  br_balance :: string
  br_buying :: "string option"
  br_selling :: "string option"

record horizon_account =
  ha_subentries :: "int option"
  ha_sponsoring :: "int option"
  ha_sponsored :: "int option"
  ha_balances :: "balance_row list"

record payment_op =
  po_id :: string
  po_hash :: string
  po_created_at :: "string option"
  po_type :: string
  po_asset_type :: "string option"
  po_amount :: "string option"
  po_from :: "string option"
  po_to :: "string option"
  po_starting_balance :: "string option"
  po_funder :: "string option"
  po_account :: "string option"

record tx_record =
  tr_memo :: "string option"
  tr_memo_type :: "string option"

text \<open>A response: its status, and what its body is as each of the shapes the code reads.\<close>

record hz_response =
  hr_status :: nat
  hr_account :: "thrown + horizon_account"
  hr_text :: "thrown + string"
  hr_payments :: "thrown + payment_op list option"
  hr_tx :: "thrown + tx_record"

definition hr_ok :: "hz_response \<Rightarrow> bool" where
  "hr_ok r \<longleftrightarrow> 200 \<le> hr_status r \<and> hr_status r \<le> 299"

record hz_env =
  hz_dep :: "hz_request list \<Rightarrow> hz_deployment"
  hz_now :: "hz_request list \<Rightarrow> int"
  hz_fetch :: "hz_request list \<Rightarrow> thrown + hz_response"
  hz_date :: "string \<Rightarrow> int option"

type_synonym 'a hz = "(hz_request list, thrown, 'a) eff"

definition hz_ask :: "hz_env \<Rightarrow> hz_request \<Rightarrow> hz_response hz" where
  "hz_ask H q = (\<lambda>log. (hz_fetch H (log @ [q]), log @ [q]))"

section \<open>Balances\<close>

datatype horizon_state = Funded | Unfunded | Failed

record horizon_balance =
  hb_publicKey :: string
  hb_state :: horizon_state
  hb_total :: number
  hb_reserve :: number
  hb_liabilities :: number
  hb_spendable :: number
  hb_available :: number
  hb_subentries :: number
  hb_fetchedAt :: int
  hb_error :: "string option"

definition BASE_RESERVE_XLM :: number where
  "BASE_RESERVE_XLM = 1 / 2"

definition ACCOUNT_BASE_UNITS :: number where
  "ACCOUNT_BASE_UNITS = 2"

definition computeReserveXlm :: "number \<Rightarrow> number \<Rightarrow> number \<Rightarrow> number" where
  "computeReserveXlm subentries numSponsoring numSponsored =
     (let units = js_add (js_add (js_add ACCOUNT_BASE_UNITS (max 0 subentries)) (max 0 numSponsoring)) (- max 0 numSponsored)
      in js_mul (max 0 units) BASE_RESERVE_XLM)"

definition emptyResult :: "hz_env \<Rightarrow> string \<Rightarrow> horizon_state \<Rightarrow> string option \<Rightarrow> horizon_balance hz" where
  "emptyResult H publicKey state err = getM (\<lambda>log.
     \<lparr>hb_publicKey = publicKey, hb_state = state, hb_total = 0,
      hb_reserve = (if state = Funded then js_mul ACCOUNT_BASE_UNITS BASE_RESERVE_XLM else 0), hb_liabilities = 0,
      hb_spendable = 0, hb_available = 0, hb_subentries = 0, hb_fetchedAt = hz_now H log, hb_error = err\<rparr>)"

definition js_sum :: "number option \<Rightarrow> number option \<Rightarrow> number option" where
  "js_sum a b = (case (a, b) of (Some x, Some y) \<Rightarrow> Some (js_add x y) | _ \<Rightarrow> None)"

definition account_figures :: "horizon_account \<Rightarrow> number option \<times> number option \<times> number \<times> number" where
  "account_figures acc =
     (let native = find (\<lambda>b. br_asset_type b = ''native'') (ha_balances acc);
          total = (case native of None \<Rightarrow> Some 0 | Some n \<Rightarrow> string_number (br_balance n));
          liabilities = (case native of None \<Rightarrow> Some 0
            | Some n \<Rightarrow> js_sum (string_number (coalesce (br_selling n) ''0'')) (string_number (coalesce (br_buying n) ''0'')));
          subentries = of_int (coalesce (ha_subentries acc) 0)
      in (total, liabilities, subentries,
          computeReserveXlm subentries (of_int (coalesce (ha_sponsoring acc) 0)) (of_int (coalesce (ha_sponsored acc) 0))))"

definition funded_result :: "hz_env \<Rightarrow> string \<Rightarrow> horizon_account \<Rightarrow> horizon_balance hz" where
  "funded_result H publicKey acc = getM (\<lambda>log.
     let (total, liabilities, subentries, reserve) = account_figures acc;
         spendable = max 0 (js_add (js_add (coalesce total 0) (- reserve)) (- coalesce liabilities 0))
     in \<lparr>hb_publicKey = publicKey, hb_state = Funded, hb_total = coalesce total 0, hb_reserve = reserve,
         hb_liabilities = coalesce liabilities 0, hb_spendable = spendable, hb_available = spendable,
         hb_subentries = subentries, hb_fetchedAt = hz_now H log, hb_error = None\<rparr>)"

definition fetchHorizonBalance :: "hz_env \<Rightarrow> string \<Rightarrow> horizon_balance hz" where
  "fetchHorizonBalance H publicKey =
     catchM
       (seqM (hz_ask H (GetAccount publicKey)) (\<lambda>res.
         if hr_status res = 404 then emptyResult H publicKey Unfunded None
         else if \<not> hr_ok res then emptyResult H publicKey Failed (Some (''Horizon '' @ nat_string (hr_status res)))
         else seqM (liftM (hr_account res)) (\<lambda>json. funded_result H publicKey json)))
       (\<lambda>e. emptyResult H publicKey Failed (Some (err_text e)))"

definition fundViaFriendbot :: "hz_env \<Rightarrow> string \<Rightarrow> (bool \<times> string) hz" where
  "fundViaFriendbot H publicKey =
     seqM (getM (hz_dep H)) (\<lambda>dep.
       if \<not> truthy (hd_friendbot dep) then
         ret (False, ''Friendbot is not available on '' @ hd_network dep @ ''. Fund this account with real XLM from an exchange or another wallet.'')
       else catchM
         (seqM (hz_ask H (AskFriendbot publicKey)) (\<lambda>res.
           if hr_ok res then ret (True, ''Account funded with 10,000 testnet XLM.'')
           else seqM (liftM (hr_text res)) (\<lambda>body.
             ret (False, if take 240 body \<noteq> [] then take 240 body else ''Friendbot '' @ nat_string (hr_status res)))))
         (\<lambda>e. ret (False, err_text e)))"

section \<open>Payments\<close>

datatype payment_kind = PSendOut | PReceive

record wallet_payment =
  wp_id :: string
  wp_hash :: string
  wp_created_at :: string
  wp_timestamp :: "int option"
  wp_kind :: payment_kind
  wp_amount :: number
  wp_counterparty :: string
  wp_memo :: string
  wp_memo_type :: string

text \<open>Kind, counterparty and amount of an operation; \<open>None\<close> for one that is skipped.\<close>

definition classify :: "string \<Rightarrow> payment_op \<Rightarrow> (payment_kind \<times> string \<times> number) option" where
  "classify publicKey op =
     (let direction = (\<lambda>a source target.
            if source = Some publicKey then Some (PSendOut, coalesce target [], a)
            else if target = Some publicKey then Some (PReceive, coalesce source [], a)
            else None);
          positive = (\<lambda>s. case parse_float (coalesce s ''0'') of Some a \<Rightarrow> if a \<le> 0 then None else Some a | None \<Rightarrow> None)
      in if po_type op = ''payment'' then
           if po_asset_type op \<noteq> Some ''native'' then None
           else (case positive (po_amount op) of None \<Rightarrow> None | Some a \<Rightarrow> direction a (po_from op) (po_to op))
         else if po_type op = ''create_account'' then
           (case positive (po_starting_balance op) of None \<Rightarrow> None | Some a \<Rightarrow> direction a (po_funder op) (po_account op))
         else None)"

type_synonym memo_cache = "(string, tx_record option) jsmap"

definition memoFor :: "hz_env \<Rightarrow> memo_cache \<Rightarrow> string \<Rightarrow> (tx_record option \<times> memo_cache) hz" where
  "memoFor H cache hash =
     (if hash = [] then ret (None, cache)
      else case jm_get cache hash of
        Some t \<Rightarrow> ret (t, cache)
      | None \<Rightarrow>
          catchM
            (seqM (hz_ask H (GetTx hash)) (\<lambda>r.
              if \<not> hr_ok r then ret (None, jm_set hash None cache)
              else seqM (liftM (hr_tx r)) (\<lambda>t. ret (Some t, jm_set hash (Some t) cache))))
            (\<lambda>_. ret (None, jm_set hash None cache)))"

definition payment_of :: "hz_env \<Rightarrow> payment_op \<Rightarrow> payment_kind \<times> string \<times> number \<Rightarrow> tx_record option \<Rightarrow> wallet_payment" where
  "payment_of H op c tx =
     (let created = coalesce (po_created_at op) []
      in \<lparr>wp_id = po_id op, wp_hash = po_hash op, wp_created_at = created,
          wp_timestamp = (if created = [] then Some 0 else map_option (\<lambda>ms. ms div 1000) (date_parse (hz_date H) created)),
          wp_kind = fst c, wp_amount = snd (snd c), wp_counterparty = fst (snd c),
          wp_memo = coalesce (Option.bind tx tr_memo) [], wp_memo_type = coalesce (Option.bind tx tr_memo_type) []\<rparr>)"

fun payments :: "hz_env \<Rightarrow> string \<Rightarrow> memo_cache \<Rightarrow> payment_op list \<Rightarrow> wallet_payment list hz" where
  "payments H publicKey cache [] = ret []"
| "payments H publicKey cache (op # ops) =
     (case classify publicKey op of
        None \<Rightarrow> payments H publicKey cache ops
      | Some c \<Rightarrow>
          seqM (memoFor H cache (po_hash op)) (\<lambda>(tx, cache').
          seqM (payments H publicKey cache' ops) (\<lambda>rest. ret (payment_of H op c tx # rest))))"

definition fetchWalletPayments :: "hz_env \<Rightarrow> string \<Rightarrow> nat \<Rightarrow> wallet_payment list hz" where
  "fetchWalletPayments H publicKey limit =
     (\<lambda>log. case hz_ask H (GetPayments publicKey limit) log of
        (Inl _, log') \<Rightarrow> (Inr [], log')
      | (Inr res, log') \<Rightarrow>
          if \<not> hr_ok res then (Inr [], log')
          else seqM (liftM (hr_payments res)) (\<lambda>ops. payments H publicKey [] (coalesce ops [])) log')"


section \<open>The reserve and the balance\<close>

lemma js_add_int: "\<bar>m + n\<bar> < 2 ^ 53 \<Longrightarrow> js_add (of_int m) (of_int n) = of_int (m + n)"
  by (simp add: js_add_def rnd_of_int flip: of_int_add)

lemma of_int_max: "max (of_int m) (of_int n) = (of_int (max m n) :: rat)"
  by (simp add: max_def)

lemma computeReserve_exact:
  fixes a b c :: int
  assumes "a < 2 ^ 50" and "b < 2 ^ 50" and "c < 2 ^ 50"
  shows "computeReserveXlm (of_int a) (of_int b) (of_int c) = of_int (max 0 (2 + max 0 a + max 0 b - max 0 c)) / 2"
proof -
  have units: "js_add (js_add (js_add ACCOUNT_BASE_UNITS (max 0 (of_int a))) (max 0 (of_int b))) (- max 0 (of_int c)) =
      of_int (2 + max 0 a + max 0 b - max 0 c)"
  proof -
    have 1: "js_add ACCOUNT_BASE_UNITS (max 0 (of_int a)) = of_int (2 + max 0 a)"
      using js_add_int [of 2 "max 0 a"] assms(1) of_int_max [of 0 a] by (simp add: ACCOUNT_BASE_UNITS_def)
    have 2: "js_add (of_int (2 + max 0 a)) (max 0 (of_int b)) = of_int (2 + max 0 a + max 0 b)"
      using js_add_int [of "2 + max 0 a" "max 0 b"] assms(1,2) of_int_max [of 0 b] by simp
    have 3: "js_add (of_int (2 + max 0 a + max 0 b)) (- max 0 (of_int c)) = of_int (2 + max 0 a + max 0 b - max 0 c)"
      using js_add_int [of "2 + max 0 a + max 0 b" "- max 0 c"] assms of_int_max [of 0 c] by simp
    show ?thesis by (simp only: 1 2 3)
  qed
  let ?u = "max 0 (2 + max 0 a + max 0 b - max 0 c)"
  have "js_mul (of_int ?u) BASE_RESERVE_XLM = rnd (of_int ?u / 2)" by (simp add: js_mul_def BASE_RESERVE_XLM_def)
  also have "\<dots> = of_int ?u / 2" using assms by (simp only: rnd_half) (subst rnd_of_int, auto)
  finally show ?thesis unfolding computeReserveXlm_def Let_def units using of_int_max [of 0 "2 + max 0 a + max 0 b - max 0 c"] by simp
qed

text \<open>The text of an amount reads as the double nearest to its stroops.\<close>

definition reads_as :: "string \<Rightarrow> int \<Rightarrow> bool" where
  "reads_as s n \<longleftrightarrow> string_number s = Some (rnd (of_int n / 10000000))"

lemma spendable_error:
  fixes t s b R :: rat
  assumes "0 \<le> t" "t \<le> 14073749" "0 \<le> s" "s \<le> 14073749" "0 \<le> b" "b \<le> 14073749" "0 \<le> R" "R \<le> 524288"
  shows "\<bar>js_add (js_add (rnd t) (- R)) (- js_add (rnd s) (rnd b)) - (t - R - (s + b))\<bar> * 20000000 \<le> 1"
proof -
  define x where "x = rnd t - R"
  define y where "y = rnd s + rnd b"
  define z where "z = rnd x - rnd y"
  have close: "rnd v \<le> v + m / 9007199254740992" "v - m / 9007199254740992 \<le> rnd v" if "\<bar>v\<bar> \<le> m" for v m
  proof -
    have "\<bar>(rnd v - v) * 9007199254740992\<bar> \<le> m" using rnd_close [of v] that unfolding abs_mult by simp
    from abs_le_D1 [OF this] abs_le_D2 [OF this]
    show "rnd v \<le> v + m / 9007199254740992" "v - m / 9007199254740992 \<le> rnd v" by (simp_all add: field_simps)
  qed
  have "\<bar>t\<bar> \<le> 14073749" "\<bar>s\<bar> \<le> 14073749" "\<bar>b\<bar> \<le> 14073749" using assms by simp_all
  note d = close [OF this(1)] close [OF this(2)] close [OF this(3)]
  have x: "\<bar>x\<bar> \<le> 14700000" unfolding x_def by (intro abs_leI) (use d assms in linarith)+
  have y: "\<bar>y\<bar> \<le> 28200000" unfolding y_def by (intro abs_leI) (use d assms in linarith)+
  note dx = close [OF x] close [OF y]
  have "\<bar>z\<bar> \<le> 43000000" unfolding z_def
    by (intro abs_leI) (use dx abs_le_D1 [OF x] abs_le_D2 [OF x] abs_le_D1 [OF y] abs_le_D2 [OF y] in linarith)+
  note dz = close [OF this]
  have "\<bar>rnd z - (t - R - (s + b))\<bar> \<le> 1 / 20000000"
    by (intro abs_leI) (use dz dx d z_def x_def y_def in linarith)+
  then show ?thesis by (simp add: js_add_def x_def y_def z_def field_simps)
qed


text \<open>C37: the spendable balance is right to the stroop. For an account whose balance and liabilities are
  below 2^47 stroops and whose counts are not negative and below 2^19, the reserve is exactly
  \<open>(2 + subentries + sponsoring - sponsored) * 0.5\<close> (at least zero), and the spendable amount shown
  is within half a stroop of \<open>max 0 (balance - reserve - selling - buying)\<close>. Buying liabilities are
  subtracted too, which the formula in the file's comment does not do.\<close>
theorem spendable_to_the_stroop:
  assumes "find (\<lambda>b. br_asset_type b = ''native'') (ha_balances acc) = Some row"
    and "reads_as (br_balance row) t" and "reads_as (coalesce (br_selling row) ''0'') s" and "reads_as (coalesce (br_buying row) ''0'') b"
    and "0 \<le> t" "t < 2 ^ 47" "0 \<le> s" "s < 2 ^ 47" "0 \<le> b" "b < 2 ^ 47"
    and "ha_subentries acc = Some n" and "ha_sponsoring acc = Some sponsoring" and "ha_sponsored acc = Some sponsored"
    and "0 \<le> n" "n < 2 ^ 19" "0 \<le> sponsoring" "sponsoring < 2 ^ 19" "0 \<le> sponsored" "sponsored < 2 ^ 19"
    and "fst (funded_result H publicKey acc hs) = Inr bal"
  shows "hb_reserve bal = of_int (max 0 (2 + n + sponsoring - sponsored)) / 2 \<and>
    \<bar>hb_spendable bal - max 0 (of_int (t - s - b) / 10000000 - hb_reserve bal)\<bar> * 20000000 \<le> 1"
proof -
  define R :: rat where "R = of_int (max 0 (2 + n + sponsoring - sponsored)) / 2"
  have "computeReserveXlm (of_int n) (of_int sponsoring) (of_int sponsored) = R"
    using computeReserve_exact [of n sponsoring sponsored] assms by (simp add: R_def)
  then have figures: "account_figures acc = (Some (rnd (of_int t / 10000000)),
      Some (js_add (rnd (of_int s / 10000000)) (rnd (of_int b / 10000000))), of_int n, R)"
    using assms by (simp add: account_figures_def Let_def js_sum_def reads_as_def)
  then have bal: "hb_reserve bal = R" "hb_spendable bal = max 0 (js_add (js_add (rnd (of_int t / 10000000)) (- R))
      (- js_add (rnd (of_int s / 10000000)) (rnd (of_int b / 10000000))))"
    using assms(20) by (auto simp: funded_result_def getM_eval Let_def)
  have small: "0 \<le> (of_int v :: rat) / 10000000 \<and> of_int v / 10000000 \<le> (14073749 :: rat)" if "0 \<le> v" "v < 2 ^ 47" for v :: int
  proof -
    have "(of_int v :: rat) \<le> of_int (2 ^ 47)" using that(2) by (intro of_int_leI) simp
    then show ?thesis using that(1) by simp
  qed
  have "0 \<le> R \<and> R \<le> 524288"
  proof -
    have "(of_int (max 0 (2 + n + sponsoring - sponsored)) :: rat) \<le> of_int 1048576" using assms by (intro of_int_leI) simp
    then show ?thesis by (simp add: R_def)
  qed
  then have "\<bar>js_add (js_add (rnd (of_int t / 10000000)) (- R)) (- js_add (rnd (of_int s / 10000000)) (rnd (of_int b / 10000000))) -
      (of_int t / 10000000 - R - (of_int s / 10000000 + of_int b / 10000000))\<bar> * 20000000 \<le> 1"
    using small [of t] small [of s] small [of b] assms by (intro spendable_error) simp_all
  moreover have "of_int (t - s - b) / 10000000 - R = (of_int t / 10000000 - R - (of_int s / 10000000 + of_int b / 10000000) :: rat)"
    by (simp add: field_simps)
  moreover have max_close: "\<bar>max 0 x - max 0 y\<bar> * 20000000 \<le> 1" if "\<bar>x - y\<bar> * 20000000 \<le> 1" for x y :: rat
  proof -
    have "\<bar>max 0 x - max 0 y\<bar> \<le> \<bar>x - y\<bar>" by (simp add: max_def abs_if)
    then have "\<bar>max 0 x - max 0 y\<bar> * 20000000 \<le> \<bar>x - y\<bar> * 20000000" by (rule mult_right_mono) simp
    then show ?thesis using that by (rule order_trans)
  qed
  ultimately have "\<bar>hb_spendable bal - max 0 (of_int (t - s - b) / 10000000 - R)\<bar> * 20000000 \<le> 1"
    unfolding bal(2) by (intro max_close) (simp only:)
  then show ?thesis by (simp add: bal(1) R_def)
qed

definition demo_account :: horizon_account where
  "demo_account = \<lparr>ha_subentries = Some 3, ha_sponsoring = Some 0, ha_sponsored = Some 1,
     ha_balances = [\<lparr>br_asset_type = ''native'', br_balance = ''100.5'', br_buying = Some ''2.0'', br_selling = None\<rparr>]\<rparr>"

definition demo_hz :: hz_env where
  "demo_hz = \<lparr>hz_dep = (\<lambda>_. \<lparr>hd_network = ''testnet'', hd_friendbot = None\<rparr>), hz_now = (\<lambda>_. 7),
     hz_fetch = (\<lambda>log. case last log of
         GetPayments _ _ \<Rightarrow> Inr \<lparr>hr_status = 200, hr_account = Inr demo_account, hr_text = Inr [],
           hr_payments = Inr (Some (replicate 2 \<lparr>po_id = ''1'', po_hash = ''h'', po_created_at = None, po_type = ''payment'',
             po_asset_type = Some ''native'', po_amount = Some ''3'', po_from = Some ''G'', po_to = Some ''D'',
             po_starting_balance = None, po_funder = None, po_account = None\<rparr>)), hr_tx = Inl (JsError ''no'')\<rparr>
       | _ \<Rightarrow> Inr \<lparr>hr_status = 200, hr_account = Inr demo_account, hr_text = Inr [], hr_payments = Inr None,
           hr_tx = Inr \<lparr>tr_memo = Some ''rent'', tr_memo_type = Some ''text''\<rparr>\<rparr>),
     hz_date = (\<lambda>_. None)\<rparr>"

lemma finite_number_small:
  assumes "\<bar>x\<bar> \<le> 2 ^ 60"
  shows "finite_number x = Some (rnd x)"
proof -
  have "\<bar>rnd x\<bar> \<le> 2 ^ 61" using rnd_close [of x] assms by (auto simp: abs_if split: if_splits)
  also have "(2::rat) ^ 61 = 2 powi 61" by simp
  also have "\<dots> < 2 powi 1024" by (rule power_int_strict_increasing) simp_all
  finally show ?thesis by (simp add: finite_number_def)
qed

lemma demo_reads: "reads_as ''100.5'' 1005000000" "reads_as ''0'' 0" "reads_as ''2.0'' 20000000"
proof -
  have parts: "trim ''100.5'' = ''100.5''" "decimal_prefix ''100.5'' = Some (1005 * 10 powi (-1), [])"
    "trim ''0'' = ''0''" "decimal_prefix ''0'' = Some (0, [])" "trim ''2.0'' = ''2.0''" "decimal_prefix ''2.0'' = Some (20 * 10 powi (-1), [])"
    "to_lower ''100.5'' = ''100.5''" "to_lower ''0'' = ''0''" "to_lower ''2.0'' = ''2.0''"
    by (simp_all add: trim_def is_space_def decimal_prefix_def take_exponent_def digits_value_def is_digit_def to_lower_def lower_char_def)
  show "reads_as ''100.5'' 1005000000" "reads_as ''0'' 0" "reads_as ''2.0'' 20000000"
    by (simp_all add: reads_as_def string_number_def Let_def parts split_sign_def finite_number_small power_int_minus)
qed

theorem spendable_to_the_stroop_witness:
  "\<exists>bal. fst (funded_result demo_hz ''G'' demo_account []) = Inr bal \<and> hb_reserve bal = 2 \<and>
    \<bar>hb_spendable bal - 96.5\<bar> * 20000000 \<le> 1"
proof -
  obtain bal where bal: "fst (funded_result demo_hz ''G'' demo_account []) = Inr bal"
    by (simp add: funded_result_def getM_eval)
  from spendable_to_the_stroop [OF _ _ _ _ _ _ _ _ _ _ _ _ _ _ _ _ _ _ _ bal, of _ 1005000000 0 20000000 3 0 1]
  have "hb_reserve bal = 2 \<and> \<bar>hb_spendable bal - 96.5\<bar> * 20000000 \<le> 1"
    using demo_reads by (auto simp: demo_account_def max_def)
  with bal show ?thesis by blast
qed


section \<open>Errors are values\<close>

text \<open>The balance request cannot throw. Whatever the server answers, \<^verbatim>\<open>fetchHorizonBalance\<close> makes one
  request and returns a result for that account: unfunded exactly for a 404, failed with a message
  when the request, the status or the body failed, otherwise funded; the spendable amount is never
  negative, equals the legacy field, and is zero unless the account is funded.\<close>
lemma balance_errors_are_values:
  "\<exists>bal. fetchHorizonBalance H publicKey hs = (Inr bal, hs @ [GetAccount publicKey]) \<and> hb_publicKey bal = publicKey \<and>
    hb_available bal = hb_spendable bal \<and> 0 \<le> hb_spendable bal \<and>
    (hb_state bal = Unfunded \<longleftrightarrow> (\<exists>res. hz_fetch H (hs @ [GetAccount publicKey]) = Inr res \<and> hr_status res = 404)) \<and>
    (hb_state bal = Funded \<longleftrightarrow> (\<exists>res acc. hz_fetch H (hs @ [GetAccount publicKey]) = Inr res \<and> hr_ok res \<and> hr_account res = Inr acc)) \<and>
    (hb_state bal = Failed \<longleftrightarrow> hb_error bal \<noteq> None) \<and>
    (hb_state bal \<noteq> Funded \<longrightarrow> hb_total bal = 0 \<and> hb_reserve bal = 0 \<and> hb_spendable bal = 0)"
proof (cases "hz_fetch H (hs @ [GetAccount publicKey])")
  case (Inl e)
  then show ?thesis by (simp add: fetchHorizonBalance_def hz_ask_def emptyResult_def eff_eval)
next
  case (Inr res)
  then show ?thesis
    by (cases "hr_account res")
      (auto simp: fetchHorizonBalance_def hz_ask_def emptyResult_def funded_result_def eff_eval hr_ok_def Let_def split: prod.splits)
qed

lemma balance_errors_are_values_witness:
  "\<exists>bal. fst (fetchHorizonBalance (demo_hz\<lparr>hz_fetch := \<lambda>_. Inl (JsError ''offline'')\<rparr>) ''G'' []) = Inr bal \<and> hb_state bal = Failed \<and>
    hb_spendable bal = 0"
proof -
  let ?H = "demo_hz\<lparr>hz_fetch := \<lambda>_. Inl (JsError ''offline'')\<rparr>"
  obtain bal where bal: "fetchHorizonBalance ?H ''G'' [] = (Inr bal, [] @ [GetAccount ''G''])" and
    u: "hb_state bal = Unfunded \<longleftrightarrow> (\<exists>res. hz_fetch ?H ([] @ [GetAccount ''G'']) = Inr res \<and> hr_status res = 404)" and
    f: "hb_state bal = Funded \<longleftrightarrow> (\<exists>res acc. hz_fetch ?H ([] @ [GetAccount ''G'']) = Inr res \<and> hr_ok res \<and> hr_account res = Inr acc)" and
    z: "hb_state bal \<noteq> Funded \<longrightarrow> hb_total bal = 0 \<and> hb_reserve bal = 0 \<and> hb_spendable bal = 0"
    using balance_errors_are_values [of ?H "''G''" "[]"] by blast
  from u f z have "hb_state bal = Failed \<and> hb_spendable bal = 0" by (cases "hb_state bal") simp_all
  with bal show ?thesis by simp
qed

section \<open>The payment history\<close>

definition row_of :: "string \<Rightarrow> payment_op \<Rightarrow> wallet_payment \<Rightarrow> bool" where
  "row_of publicKey op p \<longleftrightarrow> wp_id p = po_id op \<and> wp_hash p = po_hash op \<and>
     classify publicKey op = Some (wp_kind p, wp_counterparty p, wp_amount p) \<and> 0 < wp_amount p"

lemma classify_positive: "classify publicKey op = Some (k, c, a) \<Longrightarrow> 0 < a"
  by (auto simp: classify_def Let_def split: option.splits if_splits)

lemma memoFor_run:
  "\<exists>t cache' new. memoFor H cache hash log0 = (Inr (t, cache'), log0 @ new) \<and>
    ((new = [] \<and> cache' = cache \<and> (hash = [] \<or> jm_get cache hash = Some t)) \<or>
     (new = [GetTx hash] \<and> hash \<noteq> [] \<and> jm_get cache hash = None \<and> cache' = jm_set hash t cache))"
  by (auto simp: memoFor_def eff_eval hz_ask_def split: option.splits sum.splits prod.splits)

lemma payments_run:
  "\<exists>out new. payments H publicKey cache ops log0 = (Inr out, log0 @ new) \<and>
    list_all2 (row_of publicKey) (filter (\<lambda>op. classify publicKey op \<noteq> None) ops) out \<and> distinct new \<and>
    (\<forall>q\<in>set new. \<exists>h. q = GetTx h \<and> h \<noteq> [] \<and> jm_get cache h = None \<and> h \<in> po_hash ` set ops)"
proof (induction ops arbitrary: cache log0)
  case (Cons op ops)
  show ?case
  proof (cases "classify publicKey op")
    case None
    then show ?thesis using Cons.IH [of cache log0] by fastforce
  next
    case (Some c)
    obtain t cache' new where m: "memoFor H cache (po_hash op) log0 = (Inr (t, cache'), log0 @ new)"
      and new: "(new = [] \<and> cache' = cache \<and> (po_hash op = [] \<or> jm_get cache (po_hash op) = Some t)) \<or>
       (new = [GetTx (po_hash op)] \<and> po_hash op \<noteq> [] \<and> jm_get cache (po_hash op) = None \<and> cache' = jm_set (po_hash op) t cache)"
      using memoFor_run by blast
    obtain out new2 where ih: "payments H publicKey cache' ops (log0 @ new) = (Inr out, (log0 @ new) @ new2)"
      "list_all2 (row_of publicKey) (filter (\<lambda>op. classify publicKey op \<noteq> None) ops) out" "distinct new2"
      "\<forall>q\<in>set new2. \<exists>h. q = GetTx h \<and> h \<noteq> [] \<and> jm_get cache' h = None \<and> h \<in> po_hash ` set ops"
      using Cons.IH by blast
    have run: "payments H publicKey cache (op # ops) log0 = (Inr (payment_of H op c t # out), log0 @ (new @ new2))"
      using m ih(1) Some by (simp add: eff_eval)
    have row: "row_of publicKey op (payment_of H op c t)"
      using Some classify_positive [of publicKey op] by (cases c) (simp add: row_of_def payment_of_def Let_def)
    have "distinct (new @ new2) \<and> (\<forall>q\<in>set (new @ new2). \<exists>h. q = GetTx h \<and> h \<noteq> [] \<and> jm_get cache h = None \<and> h \<in> po_hash ` set (op # ops))"
      using new ih(3,4) by (fastforce simp: jm_get_set split: if_splits)
    moreover have "filter (\<lambda>op. classify publicKey op \<noteq> None) (op # ops) = op # filter (\<lambda>op. classify publicKey op \<noteq> None) ops"
      by (simp only: filter.simps Some option.distinct not_False_eq_True if_True)
    then have "list_all2 (row_of publicKey) (filter (\<lambda>op. classify publicKey op \<noteq> None) (op # ops)) (payment_of H op c t # out)"
      using row ih(2) by (simp only: list_all2_Cons)
    ultimately show ?thesis using run by blast
  qed
qed (simp add: ret_eval)



end
