(* ===== verification/Word_Arrays.thy ===== *)
theory Word_Arrays imports Secure_Wipe begin

text \<open>
  The byte layout of CryptoJS word arrays: \<^verbatim>\<open>wordsFromBytes\<close> of \<^verbatim>\<open>src/notebook/crypto.ts\<close> (lines
  115 to 126), which packs bytes big-endian into 32-bit words, and its inverse.
\<close>

text \<open>\<^verbatim>\<open>(b0 << 24) | (b1 << 16) | (b2 << 8) | b3\<close> on 32-bit integers.\<close>

definition pack :: "byte \<Rightarrow> byte \<Rightarrow> byte \<Rightarrow> byte \<Rightarrow> 32 word" where
  "pack b0 b1 b2 b3 = push_bit 24 (ucast b0) OR push_bit 16 (ucast b1) OR push_bit 8 (ucast b2) OR ucast b3"

text \<open>The loop in steps of four; a byte past the end is \<^verbatim>\<open>undefined ?? 0\<close>.\<close>

fun pack_bytes :: "byte list \<Rightarrow> 32 word list" where
  "pack_bytes [] = []"
| "pack_bytes [a] = [pack a 0 0 0]"
| "pack_bytes [a, b] = [pack a b 0 0]"
| "pack_bytes [a, b, c] = [pack a b c 0]"
| "pack_bytes (a # b # c # d # bs) = pack a b c d # pack_bytes bs"

definition wordsFromBytes :: "byte list \<Rightarrow> word_array" where
  "wordsFromBytes bs = \<lparr>wa_words = Some (pack_bytes bs), wa_sigBytes = int (length bs), wa_words_frozen = False, wa_frozen = False\<rparr>"

definition unpack :: "32 word \<Rightarrow> byte list" where
  "unpack w = [ucast (drop_bit 24 w), ucast (drop_bit 16 w), ucast (drop_bit 8 w), ucast w]"

text \<open>The bytes a word array stands for: the first \<^verbatim>\<open>sigBytes\<close> of its words.\<close>

definition wa_bytes :: "word_array \<Rightarrow> byte list" where
  "wa_bytes wa = (case wa_words wa of None \<Rightarrow> [] | Some ws \<Rightarrow> take (nat (wa_sigBytes wa)) (concat (map unpack ws)))"

lemma byte_bit_high: "\<not> bit (b :: byte) (8 + n)" "\<not> bit (b :: byte) (16 + n)" "\<not> bit (b :: byte) (24 + n)"
  by (auto dest: bit_imp_le_length)

lemma unpack_pack: "unpack (pack a b c d) = [a, b, c, d]"
proof -
  have "(ucast (drop_bit 24 (pack a b c d)) :: byte) = a" "(ucast (drop_bit 16 (pack a b c d)) :: byte) = b"
    "(ucast (drop_bit 8 (pack a b c d)) :: byte) = c" "(ucast (pack a b c d) :: byte) = d"
    by (auto intro!: bit_word_eqI simp: pack_def bit_simps byte_bit_high)
  then show ?thesis by (simp add: unpack_def)
qed

lemma length_pack_bytes: "length (pack_bytes bs) = (length bs + 3) div 4"
  by (induction bs rule: pack_bytes.induct) simp_all

lemma unpack_pack_bytes: "\<exists>k. concat (map unpack (pack_bytes bs)) = bs @ replicate k 0"
  by (induction bs rule: pack_bytes.induct)
    (auto simp: unpack_pack intro: exI [of _ 0] exI [of _ 1] exI [of _ 2] exI [of _ 3] simp: eval_nat_numeral)

lemma wa_bytes_wordsFromBytes [simp]: "wa_bytes (wordsFromBytes bs) = bs"
  using unpack_pack_bytes [of bs] by (auto simp: wa_bytes_def wordsFromBytes_def)

end
