(* ===== verification/Biometric.thy ===== *)
theory Biometric imports Word_Arrays Soroban_Errors begin

text \<open>
  \<^verbatim>\<open>src/security/biometric.ts\<close>: availability, enrollment and the root secret behind it, and the key
  derivation. The world is the log of the calls made; the platform's answers are functions of it.
  A word array is here its byte string, HMAC-SHA-256 is a parameter.
\<close>

section \<open>The platform\<close>

datatype bio_call =
    HasHardware
  | IsEnrolled
  | Authenticate string
  | RandomBytes nat
  | GetItem string bool
  | SetItem string string bool

type_synonym bio_log = "bio_call list"
type_synonym 'a bio = "(bio_log, thrown, 'a) eff"

text \<open>The store is SecureStore on a device; on the web it is \<^verbatim>\<open>localStorage\<close>, absent or not. The flag of
  \<open>GetItem\<close> and \<open>SetItem\<close> is \<^verbatim>\<open>requireAuthentication\<close>.\<close>

record platform =
  pl_web :: bool
  pl_local :: bool
  pl_bool :: "bio_log \<Rightarrow> thrown + bool"
  pl_random :: "bio_log \<Rightarrow> thrown + byte list"
  pl_get :: "bio_log \<Rightarrow> thrown + string option"
  pl_set :: "bio_log \<Rightarrow> thrown + unit"

definition call :: "bio_call \<Rightarrow> (bio_log \<Rightarrow> thrown + 'a) \<Rightarrow> 'a bio" where
  "call c f = (\<lambda>l. (f (l @ [c]), l @ [c]))"

definition ENROLLED_KEY :: string where
  "ENROLLED_KEY = ''xlm_vault_biometric_enrolled_v1''"

definition ROOT_SECRET_KEY :: string where
  "ROOT_SECRET_KEY = ''xlm_vault_biometric_root_secret_v1''"

definition HKDF_INFO_NOTEBOOK :: string where
  "HKDF_INFO_NOTEBOOK = ''xlm-vault:notebook:aes-256''"

definition HKDF_INFO_TOTP :: string where
  "HKDF_INFO_TOTP = ''xlm-vault:totp:wrap:aes-256''"

section \<open>Enrollment\<close>

datatype availability = Available | NoHardware | NotEnrolled | UnsupportedWeb

definition getBiometricAvailability :: "platform \<Rightarrow> availability bio" where
  "getBiometricAvailability P =
     (if pl_web P then ret UnsupportedWeb
      else catchM
        (seqM (call HasHardware (pl_bool P)) (\<lambda>hasHardware.
          if \<not> hasHardware then ret NoHardware
          else seqM (call IsEnrolled (pl_bool P)) (\<lambda>enrolled.
            ret (if \<not> enrolled then NotEnrolled else Available))))
        (\<lambda>_. ret NoHardware))"

definition isEnrolled :: "platform \<Rightarrow> bool bio" where
  "isEnrolled P =
     catchM
       (if pl_web P \<and> \<not> pl_local P then ret False
        else seqM (call (GetItem ENROLLED_KEY False) (pl_get P)) (\<lambda>v. ret (v = Some ''1'')))
       (\<lambda>_. ret False)"

definition setEnrolledFlag :: "platform \<Rightarrow> bool \<Rightarrow> unit bio" where
  "setEnrolledFlag P v =
     (if pl_web P \<and> \<not> pl_local P then ret ()
      else catchM (call (SetItem ENROLLED_KEY (if v then ''1'' else ''0'') False) (pl_set P)) (\<lambda>_. ret ()))"

definition authenticate :: "platform \<Rightarrow> string \<Rightarrow> bool bio" where
  "authenticate P reason =
     (if pl_web P then ret True
      else catchM (call (Authenticate reason) (pl_bool P)) (\<lambda>_. ret False))"

text \<open>\<^verbatim>\<open>buf[i].toString(16).padStart(2, "0")\<close>, byte by byte.\<close>

definition hex_digit :: "nat \<Rightarrow> char" where
  "hex_digit n = (if n < 10 then char_of (48 + n) else char_of (87 + n))"

definition hex_byte :: "byte \<Rightarrow> string" where
  "hex_byte b = [hex_digit (unat b div 16), hex_digit (unat b mod 16)]"

definition generateRandomHex :: "platform \<Rightarrow> nat \<Rightarrow> string bio" where
  "generateRandomHex P n = seqM (call (RandomBytes n) (pl_random P)) (\<lambda>buf. ret (concat (map hex_byte buf)))"

definition readRootSecret :: "platform \<Rightarrow> string option bio" where
  "readRootSecret P =
     catchM
       (if pl_web P \<and> \<not> pl_local P then ret None
        else call (GetItem ROOT_SECRET_KEY (\<not> pl_web P)) (pl_get P))
       (\<lambda>_. ret None)"

record enrollment =
  er_ok :: bool
  er_reason :: "string option"

definition persist_secret :: "platform \<Rightarrow> string \<Rightarrow> unit bio" where
  "persist_secret P hex =
     (if pl_web P \<and> \<not> pl_local P then ret () else call (SetItem ROOT_SECRET_KEY hex (\<not> pl_web P)) (pl_set P))"

definition enroll :: "platform \<Rightarrow> enrollment bio" where
  "enroll P =
     seqM (getBiometricAvailability P) (\<lambda>availability.
       if availability = NoHardware then ret \<lparr>er_ok = False, er_reason = Some ''This device has no biometric hardware.''\<rparr>
       else if availability = NotEnrolled then
         ret \<lparr>er_ok = False, er_reason = Some ''Add a fingerprint or Face ID in your device settings first.''\<rparr>
       else seqM (authenticate P ''Enable biometric unlock for Stellar TimeLock'') (\<lambda>ok.
         if \<not> ok then ret \<lparr>er_ok = False, er_reason = Some ''Biometric prompt was cancelled or failed.''\<rparr>
         else seqM (readRootSecret P) (\<lambda>existing.
           seqM (if truthy existing then ret None
             else seqM (generateRandomHex P 32) (\<lambda>hex.
               catchM (seqM (persist_secret P hex) (\<lambda>_. ret None))
                 (\<lambda>e. ret (Some (''Could not persist biometric key: '' @ err_text e))))) (\<lambda>failed.
           case failed of
             Some reason \<Rightarrow> ret \<lparr>er_ok = False, er_reason = Some reason\<rparr>
           | None \<Rightarrow> seqM (setEnrolledFlag P True) (\<lambda>_. ret \<lparr>er_ok = True, er_reason = None\<rparr>)))))"

definition unenroll :: "platform \<Rightarrow> unit bio" where
  "unenroll P = setEnrolledFlag P False"

section \<open>Key derivation\<close>

text \<open>\<open>hmac message key\<close>, as CryptoJS orders the arguments.\<close>

type_synonym hmac = "byte list \<Rightarrow> byte list \<Rightarrow> byte list"

text \<open>\<^verbatim>\<open>WordArray.create([i << 24], 1)\<close>: one byte of a 32-bit integer.\<close>

definition counter :: "nat \<Rightarrow> byte list" where
  "counter i = wa_bytes \<lparr>wa_words = Some [push_bit 24 (of_nat i)], wa_sigBytes = 1, wa_words_frozen = False, wa_frozen = False\<rparr>"

text \<open>The loop from \<open>i\<close> over the \<open>n\<close> remaining rounds: the previous block and the output so far.\<close>

fun hkdf_loop :: "hmac \<Rightarrow> byte list \<Rightarrow> byte list \<Rightarrow> nat \<Rightarrow> nat \<Rightarrow> byte list \<Rightarrow> byte list \<Rightarrow> byte list" where
  "hkdf_loop hmac prk infoBytes 0 i t output = output"
| "hkdf_loop hmac prk infoBytes (Suc n) i t output =
     (let block = t @ infoBytes @ counter i; t' = hmac block prk
      in hkdf_loop hmac prk infoBytes n (i + 1) t' (output @ t'))"

definition hkdfSha256 :: "hmac \<Rightarrow> byte list \<Rightarrow> byte list \<Rightarrow> byte list \<Rightarrow> nat \<Rightarrow> byte list" where
  "hkdfSha256 hmac ikm salt infoBytes len =
     (let prk = hmac ikm salt;
          n = (len + 31) div 32;
          output = hkdf_loop hmac prk infoBytes n 1 [] [];
          ws = take ((len + 3) div 4) (pack_bytes output)
      in wa_bytes \<lparr>wa_words = Some ws, wa_sigBytes = int len, wa_words_frozen = False, wa_frozen = False\<rparr>)"

text \<open>\<open>hex\<close> and \<open>utf8\<close> are CryptoJS's parsers.\<close>

definition deriveKey :: "platform \<Rightarrow> hmac \<Rightarrow> (string \<Rightarrow> byte list) \<Rightarrow> (string \<Rightarrow> byte list) \<Rightarrow> string \<Rightarrow> byte list option bio" where
  "deriveKey P hmac hex utf8 label =
     seqM (readRootSecret P) (\<lambda>secret.
       if \<not> truthy secret then ret None
       else ret (Some (hkdfSha256 hmac (hex (the secret)) (utf8 ''xlm-vault:hkdf-salt:v1'') (utf8 label) 32)))"

definition test_hkdfSha256Hex :: "hmac \<Rightarrow> (string \<Rightarrow> byte list) \<Rightarrow> (string \<Rightarrow> byte list) \<Rightarrow> (byte list \<Rightarrow> string) \<Rightarrow>
    string \<Rightarrow> string \<Rightarrow> string \<Rightarrow> nat \<Rightarrow> string" where
  "test_hkdfSha256Hex hmac hex utf8 to_hex ikmHex saltUtf8 label len =
     to_hex (hkdfSha256 hmac (hex ikmHex) (utf8 saltUtf8) (utf8 label) len)"

section \<open>Key derivation follows its specification\<close>

text \<open>RFC 5869: the blocks, and the output as the first \<open>len\<close> bytes of their concatenation.\<close>

fun rfc_block :: "hmac \<Rightarrow> byte list \<Rightarrow> byte list \<Rightarrow> nat \<Rightarrow> byte list" where
  "rfc_block hmac prk label 0 = []"
| "rfc_block hmac prk label (Suc i) = hmac (rfc_block hmac prk label i @ label @ [of_nat (Suc i)]) prk"

definition rfc5869 :: "hmac \<Rightarrow> byte list \<Rightarrow> byte list \<Rightarrow> byte list \<Rightarrow> nat \<Rightarrow> byte list" where
  "rfc5869 hmac ikm salt label len =
     (let prk = hmac ikm salt; n = (len + 31) div 32
      in take len (concat (map (rfc_block hmac prk label) [1..<Suc n])))"

lemma counter_byte: "counter i = [of_nat i]"
proof -
  have "ucast (drop_bit 24 (push_bit 24 (of_nat i :: 32 word))) = (of_nat i :: byte)"
    by (rule bit_word_eqI) (auto simp: bit_simps)
  then show ?thesis by (simp add: counter_def wa_bytes_def unpack_def)
qed

lemma hkdf_loop_blocks:
  "hkdf_loop hmac prk label n (Suc i) (rfc_block hmac prk label i) acc =
    acc @ concat (map (rfc_block hmac prk label) [Suc i..<Suc (i + n)])"
proof (induction n arbitrary: i acc)
  case (Suc n)
  have "hkdf_loop hmac prk label (Suc n) (Suc i) (rfc_block hmac prk label i) acc =
      hkdf_loop hmac prk label n (Suc (Suc i)) (rfc_block hmac prk label (Suc i)) (acc @ rfc_block hmac prk label (Suc i))"
    by (simp add: Let_def counter_byte)
  also have "\<dots> = acc @ rfc_block hmac prk label (Suc i) @ concat (map (rfc_block hmac prk label) [Suc (Suc i)..<Suc (Suc i + n)])"
    by (subst Suc.IH) simp
  also have "[Suc i..<Suc (i + Suc n)] = Suc i # [Suc (Suc i)..<Suc (Suc i + n)]" by (simp add: upt_rec [of "Suc i"])
  ultimately show ?case by simp
qed simp

lemma take_pack_bytes: "take ((len + 3) div 4) (pack_bytes bs) = pack_bytes (take (4 * ((len + 3) div 4)) bs)"
proof -
  have "take k (pack_bytes bs) = pack_bytes (take (4 * k) bs)" for k
  proof (induction bs arbitrary: k rule: pack_bytes.induct)
    case (5 a b c d bs)
    then show ?case by (cases k) (simp_all add: eval_nat_numeral)
  qed (case_tac k; simp add: eval_nat_numeral)+
  then show ?thesis .
qed

lemma wa_bytes_pack:
  "len \<le> length bs \<Longrightarrow> wa_bytes \<lparr>wa_words = Some (pack_bytes bs), wa_sigBytes = int len, wa_words_frozen = False, wa_frozen = False\<rparr> = take len bs"
  using unpack_pack_bytes [of bs] by (auto simp: wa_bytes_def)

text \<open>C33: the key derivation is HKDF of RFC 5869. For an HMAC with 32-byte results, every length of at most
  255 blocks, and any key material, salt and label, \<^verbatim>\<open>hkdfSha256\<close> computes the specified output: the
  first \<open>len\<close> bytes of the chained blocks with their one-byte counters, exactly \<open>len\<close> of them.\<close>
theorem hkdf_rfc5869:
  assumes "\<And>m k. length (hmac m k) = 32" and "len \<le> 255 * 32"
  shows "hkdfSha256 hmac ikm salt label len = rfc5869 hmac ikm salt label len \<and>
    length (hkdfSha256 hmac ikm salt label len) = len"
proof -
  let ?n = "(len + 31) div 32"
  let ?prk = "hmac ikm salt"
  let ?out = "concat (map (rfc_block hmac ?prk label) [1..<Suc ?n])"
  have out: "hkdf_loop hmac ?prk label ?n 1 [] [] = ?out"
    using hkdf_loop_blocks [of hmac ?prk label ?n 0 "[]"] by simp
  have "length (rfc_block hmac ?prk label i) = 32" if "1 \<le> i" for i
    using that by (cases i) (simp_all add: assms(1))
  then have "map (length \<circ> rfc_block hmac ?prk label) [1..<Suc ?n] = map (\<lambda>_. 32) [1..<Suc ?n]"
    by (intro map_cong) auto
  then have long: "length ?out = 32 * ?n" by (simp only: length_concat map_map) (simp add: sum_list_triv)
  have "hkdfSha256 hmac ikm salt label len =
      wa_bytes \<lparr>wa_words = Some (pack_bytes (take (4 * ((len + 3) div 4)) ?out)), wa_sigBytes = int len, wa_words_frozen = False, wa_frozen = False\<rparr>"
    by (simp only: hkdfSha256_def Let_def out take_pack_bytes)
  also have "\<dots> = take len (take (4 * ((len + 3) div 4)) ?out)"
    using long by (intro wa_bytes_pack) simp
  also have "\<dots> = take len ?out" by (simp add: min_def)
  finally show ?thesis using long by (simp add: rfc5869_def Let_def)
qed


definition demo_hmac :: hmac where
  "demo_hmac m k = replicate 32 (of_nat (length m + length k))"

theorem hkdf_rfc5869_witness:
  "length (hkdfSha256 demo_hmac [1, 2] [3] [4] 40) = 40 \<and> hkdfSha256 demo_hmac [1, 2] [3] [4] 40 = rfc5869 demo_hmac [1, 2] [3] [4] 40"
proof -
  have "length (demo_hmac m k) = 32" for m k by (simp add: demo_hmac_def)
  moreover have "(40 :: nat) \<le> 255 * 32" by simp
  ultimately show ?thesis using hkdf_rfc5869 [of demo_hmac 40] by blast
qed

section \<open>Enrollment guards the secret\<close>

definition prompt :: string where
  "prompt = ''Enable biometric unlock for Stellar TimeLock''"

lemma setEnrolledFlag_log:
  "\<exists>new. setEnrolledFlag P v l = (Inr (), l @ new) \<and> (\<forall>c\<in>set new. \<exists>x. c = SetItem ENROLLED_KEY x False)"
  by (auto simp: setEnrolledFlag_def eff_eval call_def split: sum.splits)

lemma keys_differ: "ROOT_SECRET_KEY \<noteq> ENROLLED_KEY"
  by (simp add: ROOT_SECRET_KEY_def ENROLLED_KEY_def)

text \<open>On a device: what an enrollment has done when it reports success, and when it writes the secret.\<close>

definition secret_read :: bio_call where
  "secret_read = GetItem ROOT_SECRET_KEY True"

text \<open>The part of \<open>enroll\<close> after a confirmed prompt.\<close>

definition after_prompt :: "platform \<Rightarrow> enrollment bio" where
  "after_prompt P = seqM (readRootSecret P) (\<lambda>existing.
     seqM (if truthy existing then ret None
       else seqM (generateRandomHex P 32) (\<lambda>hex.
         catchM (seqM (persist_secret P hex) (\<lambda>_. ret None))
           (\<lambda>e. ret (Some (''Could not persist biometric key: '' @ err_text e))))) (\<lambda>failed.
     case failed of
       Some reason \<Rightarrow> ret \<lparr>er_ok = False, er_reason = Some reason\<rparr>
     | None \<Rightarrow> seqM (setEnrolledFlag P True) (\<lambda>_. ret \<lparr>er_ok = True, er_reason = None\<rparr>)))"

lemma read_native:
  "\<not> pl_web P \<Longrightarrow> readRootSecret P l = (Inr (case pl_get P (l @ [secret_read]) of Inr s \<Rightarrow> s | Inl _ \<Rightarrow> None), l @ [secret_read])"
  by (simp add: readRootSecret_def call_def eff_eval secret_read_def split: sum.splits)

lemma after_prompt_kept:
  assumes "\<not> pl_web P" and "after_prompt P l = (r, l')" and "pl_get P (l @ [secret_read]) = Inr (Some s)" and "s \<noteq> []"
  shows "\<exists>new. r = Inr \<lparr>er_ok = True, er_reason = None\<rparr> \<and> l' = l @ secret_read # new \<and>
    (\<forall>c\<in>set new. \<exists>x. c = SetItem ENROLLED_KEY x False)"
proof -
  obtain new where "setEnrolledFlag P True (l @ [secret_read]) = (Inr (), (l @ [secret_read]) @ new)"
    "\<forall>c\<in>set new. \<exists>x. c = SetItem ENROLLED_KEY x False"
    using setEnrolledFlag_log by blast
  then show ?thesis using assms read_native [OF assms(1), of l] by (auto simp: after_prompt_def seqM_eval ret_eval)
qed

lemma after_prompt_fresh:
  assumes "\<not> pl_web P" and run: "after_prompt P l = (r, l')"
    and none: "\<not> (\<exists>s. pl_get P (l @ [secret_read]) = Inr (Some s) \<and> s \<noteq> [])"
  shows "\<exists>new. l' = l @ secret_read # RandomBytes 32 # new \<and>
    (case pl_random P (l @ [secret_read, RandomBytes 32]) of
       Inl e \<Rightarrow> r = Inl e
     | Inr buf \<Rightarrow> SetItem ROOT_SECRET_KEY (concat (map hex_byte buf)) True \<in> set new)"
proof -
  let ?l5 = "l @ [secret_read, RandomBytes 32]"
  have empty: "\<not> truthy (case pl_get P (l @ [secret_read]) of Inr s \<Rightarrow> s | Inl _ \<Rightarrow> None)"
    using none by (cases "pl_get P (l @ [secret_read])") (auto simp: truthy_def split: option.splits)
  note unfold = after_prompt_def seqM_eval catchM_eval ret_eval generateRandomHex_def call_def persist_secret_def
  show ?thesis
  proof (cases "pl_random P ?l5")
    case (Inl e)
    then show ?thesis using run empty read_native [OF assms(1), of l] by (auto simp: unfold)
  next
    case (Inr buf)
    let ?l6 = "?l5 @ [SetItem ROOT_SECRET_KEY (concat (map hex_byte buf)) True]"
    obtain new where new: "setEnrolledFlag P True ?l6 = (Inr (), ?l6 @ new)" using setEnrolledFlag_log by blast
    have "l' = ?l6 \<or> l' = ?l6 @ new"
      using run empty Inr new assms(1) read_native [OF assms(1), of l]
      by (cases "pl_set P ?l6") (auto simp: unfold)
    then show ?thesis using Inr by auto
  qed
qed

lemma enroll_native_cases:
  assumes "\<not> pl_web P" and "enroll P l = (r, l')"
  obtains (refused) new res where "r = Inr res" and "\<not> er_ok res" and "l' = l @ new" and "\<forall>c\<in>set new. \<forall>k x a. c \<noteq> SetItem k x a"
    | (kept) s new res where "pl_bool P (l @ [HasHardware, IsEnrolled, Authenticate prompt]) = Inr True"
      and "pl_get P (l @ [HasHardware, IsEnrolled, Authenticate prompt, secret_read]) = Inr (Some s)" and "s \<noteq> []"
      and "l' = l @ [HasHardware, IsEnrolled, Authenticate prompt, secret_read] @ new"
      and "\<forall>c\<in>set new. \<exists>x. c = SetItem ENROLLED_KEY x False" and "r = Inr res" and "er_ok res"
    | (fresh) new where "pl_bool P (l @ [HasHardware, IsEnrolled, Authenticate prompt]) = Inr True"
      and "\<not> (\<exists>s. pl_get P (l @ [HasHardware, IsEnrolled, Authenticate prompt, secret_read]) = Inr (Some s) \<and> s \<noteq> [])"
      and "l' = l @ [HasHardware, IsEnrolled, Authenticate prompt, secret_read, RandomBytes 32] @ new"
      and "\<forall>buf. pl_random P (l @ [HasHardware, IsEnrolled, Authenticate prompt, secret_read, RandomBytes 32]) = Inr buf \<longrightarrow>
        SetItem ROOT_SECRET_KEY (concat (map hex_byte buf)) True \<in> set new"
      and "\<forall>res. r = Inr res \<and> er_ok res \<longrightarrow>
        (\<exists>buf. pl_random P (l @ [HasHardware, IsEnrolled, Authenticate prompt, secret_read, RandomBytes 32]) = Inr buf)"
proof -
  let ?l3 = "l @ [HasHardware, IsEnrolled, Authenticate prompt]"
  show ?thesis
  proof (cases "pl_bool P (l @ [HasHardware]) = Inr True \<and> pl_bool P (l @ [HasHardware, IsEnrolled]) = Inr True \<and> pl_bool P ?l3 = Inr True")
    case False
    then have "\<exists>new res. r = Inr res \<and> \<not> er_ok res \<and> l' = l @ new \<and> (\<forall>c\<in>set new. \<forall>k x a. c \<noteq> SetItem k x a)"
      using assms by (auto simp: enroll_def getBiometricAvailability_def authenticate_def call_def eff_eval prompt_def split: sum.splits if_splits)
    then show ?thesis using refused by blast
  next
    case True
    then have go: "after_prompt P ?l3 = (r, l')"
      using assms by (simp add: enroll_def after_prompt_def getBiometricAvailability_def authenticate_def call_def seqM_eval catchM_eval ret_eval prompt_def)
    show ?thesis
    proof (cases "\<exists>s. pl_get P (?l3 @ [secret_read]) = Inr (Some s) \<and> s \<noteq> []")
      case some: True
      then obtain s where s: "pl_get P (?l3 @ [secret_read]) = Inr (Some s)" "s \<noteq> []" by blast
      show ?thesis using after_prompt_kept [OF assms(1) go s] kept [of s] True s by fastforce
    next
      case none: False
      show ?thesis
        using after_prompt_fresh [OF assms(1) go none] fresh True none by (fastforce split: sum.splits)
    qed
  qed
qed

text \<open>C34: enrollment is guarded. On a device, \<^verbatim>\<open>enroll\<close> reports success only after the operating system
  confirmed the biometric prompt, and it writes a root secret only when reading the existing one
  did not return a non-empty secret: a secret that can be read is never replaced.\<close>
theorem enroll_guarded:
  assumes "\<not> pl_web P" and "enroll P l = (r, l')"
  shows "(\<forall>res. r = Inr res \<and> er_ok res \<longrightarrow> pl_bool P (l @ [HasHardware, IsEnrolled, Authenticate prompt]) = Inr True) \<and>
    (\<forall>hex a new. l' = l @ new \<and> SetItem ROOT_SECRET_KEY hex a \<in> set new \<longrightarrow>
      \<not> (\<exists>s. pl_get P (l @ [HasHardware, IsEnrolled, Authenticate prompt, secret_read]) = Inr (Some s) \<and> s \<noteq> []))"
  using assms
proof (cases rule: enroll_native_cases)
  case (kept s new res)
  then show ?thesis using keys_differ by (auto simp: secret_read_def)
qed auto

definition demo_platform :: platform where
  "demo_platform = \<lparr>pl_web = False, pl_local = False, pl_bool = (\<lambda>_. Inr True), pl_random = (\<lambda>_. Inr [1, 255]),
     pl_get = (\<lambda>_. Inr (Some ''ab'')), pl_set = (\<lambda>_. Inr ())\<rparr>"

lemmas enroll_unfold = enroll_def getBiometricAvailability_def authenticate_def readRootSecret_def setEnrolledFlag_def call_def
  generateRandomHex_def persist_secret_def demo_platform_def eff_eval

theorem enroll_guarded_witness:
  "\<exists>l'. enroll demo_platform [] = (Inr \<lparr>er_ok = True, er_reason = None\<rparr>, l') \<and>
    (\<forall>hex a. SetItem ROOT_SECRET_KEY hex a \<notin> set l')"
proof -
  have run: "enroll demo_platform [] = (Inr \<lparr>er_ok = True, er_reason = None\<rparr>, snd (enroll demo_platform []))"
    by (simp add: enroll_unfold)
  have "\<not> pl_web demo_platform" by (simp add: demo_platform_def)
  from enroll_guarded [OF this run] have "SetItem ROOT_SECRET_KEY hex a \<notin> set (snd (enroll demo_platform []))" for hex a
    by (auto simp: demo_platform_def)
  with run show ?thesis by blast
qed

text \<open>C35: a secret that cannot be read is replaced. When the prompt of the enrollment is confirmed but the
  read of the existing secret fails (its own prompt cancelled, the keystore busy), \<^verbatim>\<open>enroll\<close> takes the
  secret for absent and overwrites it with fresh random bytes; when the writes succeed it reports
  success. Everything encrypted under the old secret is lost.\<close>
theorem enroll_overwrites_unread_secret:
  assumes "\<not> pl_web P" and "enroll P l = (r, l')"
    and "pl_bool P (l @ [HasHardware]) = Inr True" and "pl_bool P (l @ [HasHardware, IsEnrolled]) = Inr True"
    and "pl_bool P (l @ [HasHardware, IsEnrolled, Authenticate prompt]) = Inr True"
    and "pl_get P (l @ [HasHardware, IsEnrolled, Authenticate prompt, secret_read]) = Inl e"
    and "pl_random P (l @ [HasHardware, IsEnrolled, Authenticate prompt, secret_read, RandomBytes 32]) = Inr buf"
    and "\<And>hs. pl_set P hs = Inr ()"
  shows "r = Inr \<lparr>er_ok = True, er_reason = None\<rparr> \<and> SetItem ROOT_SECRET_KEY (concat (map hex_byte buf)) True \<in> set l'"
  using assms
  by (auto simp: enroll_def getBiometricAvailability_def authenticate_def readRootSecret_def setEnrolledFlag_def call_def
      generateRandomHex_def persist_secret_def eff_eval prompt_def secret_read_def truthy_def)

theorem enroll_overwrites_unread_secret_witness:
  "\<exists>l'. enroll (demo_platform\<lparr>pl_get := \<lambda>_. Inl (JsError ''cancelled'')\<rparr>) [] = (Inr \<lparr>er_ok = True, er_reason = None\<rparr>, l') \<and>
    SetItem ROOT_SECRET_KEY ''01ff'' True \<in> set l'"
proof -
  let ?P = "demo_platform\<lparr>pl_get := \<lambda>_. Inl (JsError ''cancelled'')\<rparr>"
  have run: "enroll ?P [] = (fst (enroll ?P []), snd (enroll ?P []))" by simp
  have "concat (map hex_byte [1, 255]) = ''01ff''" by code_simp
  with enroll_overwrites_unread_secret [of ?P "[]", OF _ run, of "JsError ''cancelled''" "[1, 255]"]
  have "fst (enroll ?P []) = Inr \<lparr>er_ok = True, er_reason = None\<rparr> \<and> SetItem ROOT_SECRET_KEY ''01ff'' True \<in> set (snd (enroll ?P []))"
    by (simp add: demo_platform_def)
  then show ?thesis by (metis prod.collapse)
qed

text \<open>Switching biometrics off does not drop the prompt: the secret is still read under authentication.\<close>

lemma read_after_unenroll:
  assumes "\<not> pl_web P"
  shows "\<exists>new. snd (seqM (unenroll P) (\<lambda>_. readRootSecret P) l) = l @ new @ [GetItem ROOT_SECRET_KEY True]"
  using assms setEnrolledFlag_log [of P False l] by (auto simp: unenroll_def seqM_eval read_native secret_read_def)

end
