(* ===== verification/Notebook_Crypto.thy ===== *)
theory Notebook_Crypto imports Word_Arrays Soroban_Errors begin

text \<open>
  \<^verbatim>\<open>src/notebook/crypto.ts\<close>: the AES key of the notes (derived from the wallet's seed, or random and
  kept in the secure store), its cache, and encryption and decryption of a record. Word arrays and
  byte buffers live in the store of \<^verbatim>\<open>Secure_Wipe\<close>, so that wiping a key changes what its holders
  see. Every operation is split at its awaits; the calls that wait, the answers that have come and
  the results are lists, and a step continues any of them, so that every interleaving is a run.
  CryptoJS, the secure store and the random source are parameters.
\<close>

section \<open>Parameters and state\<close>

type_synonym utf16 = "16 word list"

record crypto =
  cr_pbkdf2 :: "word_array \<Rightarrow> string \<Rightarrow> nat \<Rightarrow> nat \<Rightarrow> thrown + word_array"
  cr_utf8 :: "utf16 \<Rightarrow> thrown + byte list"
  cr_utf8_text :: "byte list \<Rightarrow> thrown + utf16"
  cr_base64 :: "byte list \<Rightarrow> string"
  cr_unbase64 :: "string \<Rightarrow> byte list"
  cr_btoa :: "string \<Rightarrow> string"
  cr_encrypt :: "byte list \<Rightarrow> word_array \<Rightarrow> byte list \<Rightarrow> thrown + byte list"
  cr_decrypt :: "byte list \<Rightarrow> word_array \<Rightarrow> byte list \<Rightarrow> thrown + byte list"
  cr_web :: bool

record wallet_ref =
  wr_publicKey :: string
  wr_secretSeed :: utf16

record notebook =
  nb_heap :: heap
  nb_next :: nat
  nb_cache :: "nat option"
  nb_wallet :: "wallet_ref option"
  nb_local :: "string option option"

definition MASTER_KEY_STORE_KEY :: string where
  "MASTER_KEY_STORE_KEY = ''xlm_vault_notebook_master_key_v1''"

definition WALLET_KDF_SALT :: string where
  "WALLET_KDF_SALT = ''xlm_vault_notebook_v2_salt''"

definition WALLET_KDF_ITERATIONS :: nat where
  "WALLET_KDF_ITERATIONS = 10000"

definition alloc_wa :: "word_array \<Rightarrow> notebook \<Rightarrow> nat \<times> notebook" where
  "alloc_wa wa nb = (nb_next nb, nb\<lparr>nb_heap := (nb_heap nb)\<lparr>h_was := (h_was (nb_heap nb))(nb_next nb := Some wa)\<rparr>, nb_next := nb_next nb + 1\<rparr>)"

definition alloc_bytes :: "byte list \<Rightarrow> notebook \<Rightarrow> nat \<times> notebook" where
  "alloc_bytes bs nb = (nb_next nb, nb\<lparr>nb_heap := (nb_heap nb)\<lparr>h_bufs := (h_bufs (nb_heap nb))(nb_next nb := Some bs)\<rparr>, nb_next := nb_next nb + 1\<rparr>)"

definition wipe_wa :: "nat option \<Rightarrow> notebook \<Rightarrow> notebook" where
  "wipe_wa a nb = nb\<lparr>nb_heap := effect_of (wipeWordArray a) (nb_heap nb)\<rparr>"

definition wipe_view :: "view \<Rightarrow> notebook \<Rightarrow> notebook" where
  "wipe_view v nb = nb\<lparr>nb_heap := effect_of (wipeBytes (Some v)) (nb_heap nb)\<rparr>"

text \<open>The word array of a byte string, as CryptoJS's parsers return it.\<close>

definition parsed :: "byte list \<Rightarrow> word_array" where
  "parsed bs = wordsFromBytes bs"

definition resetKeyCache :: "notebook \<Rightarrow> notebook" where
  "resetKeyCache nb = wipe_wa (nb_cache nb) (nb\<lparr>nb_cache := None\<rparr>)"

definition setActiveWalletForCrypto :: "wallet_ref option \<Rightarrow> notebook \<Rightarrow> notebook" where
  "setActiveWalletForCrypto wallet nb =
     (let prevKey = map_option wr_secretSeed (nb_wallet nb); nextKey = map_option wr_secretSeed wallet;
          nb' = (if prevKey \<noteq> nextKey then resetKeyCache nb else nb)
      in nb'\<lparr>nb_wallet := wallet\<rparr>)"

section \<open>The key derived from the seed\<close>

text \<open>
  \<^verbatim>\<open>utf8ToMutableBytes\<close> encodes into a buffer of four bytes per unit and returns \<^verbatim>\<open>out.slice(0, w)\<close>,
  a copy: both buffers are in the store. The view returned is that of the copy.
\<close>

definition seed_bytes :: "utf16 \<Rightarrow> notebook \<Rightarrow> view \<times> notebook" where
  "seed_bytes seed nb =
     (let bs = utf8ToMutableBytes seed;
          (_, nb1) = alloc_bytes (fst (utf8_loop seed (replicate (length seed * 4) 0) 0)) nb;
          (i, nb2) = alloc_bytes bs nb1
      in (\<lparr>v_buf = i, v_off = 0, v_len = length bs\<rparr>, nb2))"

definition derive_key :: "crypto \<Rightarrow> utf16 \<Rightarrow> notebook \<Rightarrow> (thrown + nat) \<times> notebook" where
  "derive_key C seed nb =
     (let (seedBytes, nb1) = seed_bytes seed nb;
          (seedWords, nb2) = alloc_wa (wordsFromBytes (utf8ToMutableBytes seed)) nb1
      in case cr_pbkdf2 C (wordsFromBytes (utf8ToMutableBytes seed)) WALLET_KDF_SALT 8 WALLET_KDF_ITERATIONS of
           Inl e \<Rightarrow> (Inl e, wipe_view seedBytes (wipe_wa (Some seedWords) nb2))
         | Inr derived \<Rightarrow>
             (let (k, nb3) = alloc_wa derived nb2; nb4 = nb3\<lparr>nb_cache := Some k\<rparr>
              in (Inr k, wipe_view seedBytes (wipe_wa (Some seedWords) nb4))))"

section \<open>Operations, split at their awaits\<close>

datatype goal = Encrypt utf16 | Decrypt string

text \<open>
  What a call waits for: the stored master key, random bytes for a new one, the store of a new one,
  the promise of \<^verbatim>\<open>readOrCreateMasterKey\<close>, the promise of \<^verbatim>\<open>getKey\<close> (each with its value or
  exception), random bytes for an IV. A promise that is settled is answered by \<open>Tick\<close>.
\<close>

datatype nb_await =
    AwaitStored goal
  | AwaitRandom goal
  | AwaitStore goal string
  | AwaitMaster goal "thrown + string"
  | AwaitKey goal "thrown + nat"
  | AwaitIv utf16 nat

datatype nb_answer =
    Text "thrown + string option"
  | Bytes "thrown + byte list"
  | Done "thrown + unit"
  | Tick

datatype nb_outcome =
    Waiting nb_await
  | Encrypted string
  | Decrypted utf16
  | Broken thrown

text \<open>
  \<^verbatim>\<open>readOrCreateMasterKey\<close> up to its first await. On the web it reads \<^verbatim>\<open>localStorage\<close> (absent, or
  holding a key or none) at once; on a device it asks the secure store.
\<close>

definition readOrCreateMasterKey :: "crypto \<Rightarrow> goal \<Rightarrow> notebook \<Rightarrow> nb_outcome" where
  "readOrCreateMasterKey C g nb =
     (if cr_web C then
        (case nb_local nb of
           None \<Rightarrow> Waiting (AwaitMaster g (Inr ''web-fallback-key-plaintext-only''))
         | Some (Some (c # cs)) \<Rightarrow> Waiting (AwaitMaster g (Inr (c # cs)))
         | Some _ \<Rightarrow> Waiting (AwaitRandom g))
      else Waiting (AwaitStored g))"

text \<open>\<^verbatim>\<open>getKey\<close> up to its first await.\<close>

definition getKey :: "crypto \<Rightarrow> goal \<Rightarrow> notebook \<Rightarrow> nb_outcome \<times> notebook" where
  "getKey C g nb = (case nb_cache nb of
      Some k \<Rightarrow> (Waiting (AwaitKey g (Inr k)), nb)
    | None \<Rightarrow>
        (case nb_wallet nb of
           Some w \<Rightarrow>
             if wr_secretSeed w \<noteq> [] then
               (case derive_key C (wr_secretSeed w) nb of (r, nb') \<Rightarrow> (Waiting (AwaitKey g r), nb'))
             else (readOrCreateMasterKey C g nb, nb)
         | None \<Rightarrow> (readOrCreateMasterKey C g nb, nb)))"

text \<open>The end of \<^verbatim>\<open>getKey\<close> on the device-key path: the parsed key is cached and returned.\<close>

definition legacy_key :: "crypto \<Rightarrow> goal \<Rightarrow> string \<Rightarrow> notebook \<Rightarrow> nb_outcome \<times> notebook" where
  "legacy_key C g b64 nb =
     (let (k, nb') = alloc_wa (parsed (cr_unbase64 C b64)) nb
      in (Waiting (AwaitKey g (Inr k)), nb'\<lparr>nb_cache := Some k\<rparr>))"

definition usable_key :: "string option \<Rightarrow> bool" where
  "usable_key s = (case s of None \<Rightarrow> False | Some k \<Rightarrow> k \<noteq> [] \<and> 40 \<le> length k)"

definition encrypt :: "crypto \<Rightarrow> utf16 \<Rightarrow> notebook \<Rightarrow> nb_outcome \<times> notebook" where
  "encrypt C plaintext nb = getKey C (Encrypt plaintext) nb"

definition decrypt :: "crypto \<Rightarrow> string \<Rightarrow> notebook \<Rightarrow> nb_outcome \<times> notebook" where
  "decrypt C payload nb =
     (if payload = [] \<or> CHR ''.'' \<notin> set payload then (Decrypted [], nb) else getKey C (Decrypt payload) nb)"

definition encrypt_with :: "crypto \<Rightarrow> utf16 \<Rightarrow> word_array \<Rightarrow> byte list \<Rightarrow> thrown + string" where
  "encrypt_with C plaintext key ivBytes =
     (case cr_utf8 C plaintext of
        Inl e \<Rightarrow> Inl e
      | Inr pt \<Rightarrow>
          (let iv = take 16 (wa_bytes (wordsFromBytes ivBytes))
           in case cr_encrypt C pt key iv of
                Inl e \<Rightarrow> Inl e
              | Inr ct \<Rightarrow> Inr (cr_base64 C iv @ ''.'' @ cr_base64 C ct)))"

text \<open>\<^verbatim>\<open>payload.split(".", 2)\<close>: the parts before the first and the second dot.\<close>

definition split_payload :: "string \<Rightarrow> string \<times> string" where
  "split_payload p = (takeWhile (\<lambda>c. c \<noteq> CHR ''.'') p, takeWhile (\<lambda>c. c \<noteq> CHR ''.'') (tl (dropWhile (\<lambda>c. c \<noteq> CHR ''.'') p)))"

definition decrypt_with :: "crypto \<Rightarrow> string \<Rightarrow> word_array \<Rightarrow> thrown + utf16" where
  "decrypt_with C payload key =
     (let (ivB64, ctB64) = split_payload payload
      in case cr_decrypt C (cr_unbase64 C ctB64) key (cr_unbase64 C ivB64) of
           Inl e \<Rightarrow> Inl e
         | Inr bs \<Rightarrow> cr_utf8_text C bs)"

text \<open>The word array behind a reference, as it is now.\<close>

definition key_at :: "nat \<Rightarrow> notebook \<Rightarrow> word_array" where
  "key_at k nb = (case h_was (nb_heap nb) k of Some wa \<Rightarrow> wa
     | None \<Rightarrow> \<lparr>wa_words = None, wa_sigBytes = 0, wa_words_frozen = False, wa_frozen = False\<rparr>)"

text \<open>The new key: 32 random bytes as a binary string, through \<^verbatim>\<open>btoa\<close>.\<close>

definition generateMasterKeyBase64 :: "crypto \<Rightarrow> byte list \<Rightarrow> string" where
  "generateMasterKeyBase64 C bytes = cr_btoa C (map (\<lambda>b. char_of (unat b)) bytes)"

text \<open>A call continues with the answer to what it waits for; another answer leaves it waiting.\<close>

fun nb_resume :: "crypto \<Rightarrow> nb_await \<Rightarrow> nb_answer \<Rightarrow> notebook \<Rightarrow> nb_outcome \<times> notebook" where
  "nb_resume C (AwaitStored g) (Text r) nb =
     (case r of
        Inr s \<Rightarrow> if usable_key s then (Waiting (AwaitMaster g (Inr (the s))), nb) else (Waiting (AwaitRandom g), nb)
      | Inl e \<Rightarrow> (Waiting (AwaitRandom g), nb))"
| "nb_resume C (AwaitRandom g) (Bytes r) nb =
     (case r of
        Inl e \<Rightarrow> (Waiting (AwaitMaster g (Inl e)), nb)
      | Inr bs \<Rightarrow>
          (let created = generateMasterKeyBase64 C bs
           in if cr_web C then (Waiting (AwaitMaster g (Inr created)), nb\<lparr>nb_local := Some (Some created)\<rparr>)
              else (Waiting (AwaitStore g created), nb)))"
| "nb_resume C (AwaitStore g created) (Done r) nb = (Waiting (AwaitMaster g (Inr created)), nb)"
| "nb_resume C (AwaitMaster g r) Tick nb =
     (case r of Inl e \<Rightarrow> (Waiting (AwaitKey g (Inl e)), nb) | Inr b64 \<Rightarrow> legacy_key C g b64 nb)"
| "nb_resume C (AwaitKey g r) Tick nb =
     (case r of
        Inl e \<Rightarrow> (Broken e, nb)
      | Inr k \<Rightarrow>
          (case g of
             Encrypt plaintext \<Rightarrow> (Waiting (AwaitIv plaintext k), nb)
           | Decrypt payload \<Rightarrow>
               (case decrypt_with C payload (key_at k nb) of Inl e \<Rightarrow> (Broken e, nb) | Inr t \<Rightarrow> (Decrypted t, nb))))"
| "nb_resume C (AwaitIv plaintext k) (Bytes r) nb =
     (case r of
        Inl e \<Rightarrow> (Broken e, nb)
      | Inr ivBytes \<Rightarrow>
          (case encrypt_with C plaintext (key_at k nb) ivBytes of Inl e \<Rightarrow> (Broken e, nb) | Inr p \<Rightarrow> (Encrypted p, nb)))"
| "nb_resume C w a nb = (Waiting w, nb)"

text \<open>A call run with nothing else in between, its answers given in order.\<close>

fun drive :: "crypto \<Rightarrow> nb_answer list \<Rightarrow> nb_outcome \<times> notebook \<Rightarrow> nb_outcome \<times> notebook" where
  "drive C (a # as) (Waiting w, nb) = drive C as (nb_resume C w a nb)"
| "drive C as x = x"

definition CRYPTO_NOT_READY :: string where
  "CRYPTO_NOT_READY = ''NOTEBOOK_CRYPTO_NOT_READY''"

text \<open>The characters of the base64 alphabet, padding included.\<close>

definition b64_char :: "char \<Rightarrow> bool" where
  "b64_char c = (let n = of_char c :: nat in
     65 \<le> n \<and> n \<le> 90 \<or> 97 \<le> n \<and> n \<le> 122 \<or> 48 \<le> n \<and> n \<le> 57 \<or> c = CHR ''+'' \<or> c = CHR ''/'' \<or> c = CHR ''='')"

definition isEncryptedPayload :: "string \<Rightarrow> bool" where
  "isEncryptedPayload s =
     (let dot = length (takeWhile (\<lambda>c. c \<noteq> CHR ''.'') s);
          b64 = (\<lambda>t. t \<noteq> [] \<and> list_all b64_char t)
      in \<not> length s < 32 \<and> CHR ''.'' \<in> set s \<and> \<not> dot < 8 \<and> b64 (take dot s) \<and> b64 (drop (dot + 1) s))"

section \<open>Interleaved calls\<close>

text \<open>
  The running module: its state, the calls in flight, the results handed out, and whether a call
  has ever taken the device-key path. Calls begin, the wallet is switched, the cache is reset, and
  any call in flight gets an answer, in any order.
\<close>

record nb_sys =
  ns_nb :: notebook
  ns_pending :: "nb_await list"
  ns_done :: "nb_outcome list"
  ns_legacy :: bool

datatype nb_event = Begin goal | Switch "wallet_ref option" | Reset | Answer nat nb_answer

definition device_path :: "nb_outcome \<Rightarrow> bool" where
  "device_path r = (case r of Waiting (AwaitKey g x) \<Rightarrow> False | Waiting (AwaitIv t k) \<Rightarrow> False | Waiting w \<Rightarrow> True | _ \<Rightarrow> False)"

definition settle :: "nb_outcome \<times> notebook \<Rightarrow> nb_sys \<Rightarrow> nb_sys" where
  "settle x y = (case x of (r, nb) \<Rightarrow>
     (case r of
        Waiting w \<Rightarrow> y\<lparr>ns_nb := nb, ns_pending := ns_pending y @ [w], ns_legacy := (ns_legacy y \<or> device_path r)\<rparr>
      | _ \<Rightarrow> y\<lparr>ns_nb := nb, ns_done := ns_done y @ [r]\<rparr>))"

fun nb_event_step :: "crypto \<Rightarrow> nb_event \<Rightarrow> nb_sys \<Rightarrow> nb_sys" where
  "nb_event_step C (Begin g) y =
     settle (case g of Encrypt t \<Rightarrow> encrypt C t (ns_nb y) | Decrypt p \<Rightarrow> decrypt C p (ns_nb y)) y"
| "nb_event_step C (Switch w) y = y\<lparr>ns_nb := setActiveWalletForCrypto w (ns_nb y)\<rparr>"
| "nb_event_step C Reset y = y\<lparr>ns_nb := resetKeyCache (ns_nb y)\<rparr>"
| "nb_event_step C (Answer i a) y =
     (if i < length (ns_pending y) then
        settle (nb_resume C (ns_pending y ! i) a (ns_nb y))
          (y\<lparr>ns_pending := take i (ns_pending y) @ drop (i + 1) (ns_pending y)\<rparr>)
      else y)"

text \<open>The module as loaded: nothing cached, no wallet, an empty store.\<close>

definition fresh_notebook :: "bool \<Rightarrow> string option option \<Rightarrow> notebook" where
  "fresh_notebook timeouts storage =
     \<lparr>nb_heap = \<lparr>h_bufs = Map.empty, h_was = Map.empty, h_kps = Map.empty, h_timers = [], h_now = 0, h_has_timeout = timeouts\<rparr>,
      nb_next = 0, nb_cache = None, nb_wallet = None, nb_local = storage\<rparr>"

inductive nb_reachable :: "crypto \<Rightarrow> nb_sys \<Rightarrow> bool" for C where
  start: "nb_reachable C \<lparr>ns_nb = fresh_notebook ts st, ns_pending = [], ns_done = [], ns_legacy = False\<rparr>"
| step: "nb_reachable C y \<Longrightarrow> nb_reachable C (nb_event_step C ev y)"

definition nb_start :: "nb_sys \<Rightarrow> bool" where
  "nb_start y \<longleftrightarrow> (\<exists>ts st. y = \<lparr>ns_nb = fresh_notebook ts st, ns_pending = [], ns_done = [], ns_legacy = False\<rparr>)"

interpretation notebook_runs: step_system "nb_reachable C" nb_start "\<lambda>x y. \<exists>ev. y = nb_event_step C ev x" for C
proof unfold_locales
  show "nb_reachable C y" if "nb_reachable C x" "\<exists>ev. y = nb_event_step C ev x" for x y
    using that by (blast intro: nb_reachable.step)
  show "I x" if "nb_reachable C x" "\<And>y. nb_start y \<Longrightarrow> I y"
    "\<And>y z. nb_reachable C y \<Longrightarrow> I y \<Longrightarrow> \<exists>ev. z = nb_event_step C ev y \<Longrightarrow> I z" for x I
    using that(1) by induction (use that(2,3) nb_start_def in blast)+
qed

section \<open>What the store looks like after a step\<close>

text \<open>What \<^verbatim>\<open>wipeWordArray\<close> makes of an array.\<close>

definition wiped :: "word_array \<Rightarrow> word_array" where
  "wiped wa = (case wa_words wa of
      None \<Rightarrow> wa
    | Some ws \<Rightarrow>
        if wa_words_frozen wa \<and> ws \<noteq> [] then wa
        else if wa_frozen wa then wa\<lparr>wa_words := Some (replicate (length ws) 0)\<rparr>
        else wa\<lparr>wa_words := Some (replicate (length ws) 0), wa_sigBytes := 0\<rparr>)"

lemma was_wipeWordArray:
  "h_was (snd (wipeWordArray a h)) j = (if a = Some j then map_option wiped (h_was h j) else h_was h j)"
  by (auto simp: wipeWordArray_def wiped_def zero_words_all Let_def split: option.splits)

lemma bufs_wipeWordArray: "h_bufs (snd (wipeWordArray a h)) = h_bufs h"
  by (auto simp: wipeWordArray_def Let_def split: option.splits)

lemma was_wipe_wa:
  "h_was (nb_heap (wipe_wa a nb)) j = (if a = Some j then map_option wiped (h_was (nb_heap nb) j) else h_was (nb_heap nb) j)"
  by (simp add: wipe_wa_def effect_of_def was_wipeWordArray)

lemma wipe_frame [simp]:
  "nb_cache (wipe_wa a nb) = nb_cache nb" "nb_next (wipe_wa a nb) = nb_next nb"
  "nb_wallet (wipe_wa a nb) = nb_wallet nb" "nb_local (wipe_wa a nb) = nb_local nb"
  "h_bufs (nb_heap (wipe_wa a nb)) = h_bufs (nb_heap nb)"
  "nb_cache (wipe_view v nb) = nb_cache nb" "nb_next (wipe_view v nb) = nb_next nb"
  "nb_wallet (wipe_view v nb) = nb_wallet nb" "nb_local (wipe_view v nb) = nb_local nb"
  "h_was (nb_heap (wipe_view v nb)) = h_was (nb_heap nb)"
  by (simp_all add: wipe_wa_def wipe_view_def effect_of_def bufs_wipeWordArray)

lemma bufs_wipe_view:
  "h_bufs (nb_heap nb) (v_buf v) = Some bs \<Longrightarrow>
    h_bufs (nb_heap (wipe_view v nb)) j =
      (if j = v_buf v then Some (fill_range (v_off v) (v_len v) bs) else h_bufs (nb_heap nb) j)"
  by (simp add: wipe_view_def effect_of_def snd_wipeBytes_Some Let_def view_fill_def)

lemma wiped_parsed:
  "wa_words (wiped (wordsFromBytes bs)) = Some (replicate ((length bs + 3) div 4) 0)"
  "wa_bytes (wiped (wordsFromBytes bs)) = []"
  by (simp_all add: wiped_def wordsFromBytes_def length_pack_bytes wa_bytes_def)

lemma fill_range_whole: "fill_range 0 (length bs) bs = replicate (length bs) 0"
  by (rule nth_equalityI) simp_all

text \<open>The derivation allocates four objects: the encoder's buffer, its copy, the word array, the key.\<close>

lemma derive_key_fields:
  assumes "derive_key C seed nb = (r, nb')"
  shows "nb_wallet nb' = nb_wallet nb" "nb_local nb' = nb_local nb"
    "h_bufs (nb_heap nb') = (h_bufs (nb_heap nb))(nb_next nb := Some (fst (utf8_loop seed (replicate (length seed * 4) 0) 0)),
       nb_next nb + 1 := Some (replicate (length (utf8ToMutableBytes seed)) 0))"
  using assms
  by (auto simp: derive_key_def seed_bytes_def alloc_bytes_def alloc_wa_def Let_def bufs_wipe_view fill_range_whole
      intro!: ext split: sum.splits)

lemma derive_key_ok:
  assumes "cr_pbkdf2 C (wordsFromBytes (utf8ToMutableBytes seed)) WALLET_KDF_SALT 8 WALLET_KDF_ITERATIONS = Inr d"
    and "derive_key C seed nb = (r, nb')"
  shows "r = Inr (nb_next nb + 3)" "nb_cache nb' = Some (nb_next nb + 3)" "nb_next nb' = nb_next nb + 4"
    "h_was (nb_heap nb') = (h_was (nb_heap nb))(nb_next nb + 2 := Some (wiped (wordsFromBytes (utf8ToMutableBytes seed))),
       nb_next nb + 3 := Some d)"
  using assms by (auto simp: derive_key_def seed_bytes_def alloc_bytes_def alloc_wa_def Let_def was_wipe_wa intro!: ext)

lemma derive_key_fails:
  assumes "cr_pbkdf2 C (wordsFromBytes (utf8ToMutableBytes seed)) WALLET_KDF_SALT 8 WALLET_KDF_ITERATIONS = Inl e"
    and "derive_key C seed nb = (r, nb')"
  shows "r = Inl e" "nb_cache nb' = nb_cache nb" "nb_next nb' = nb_next nb + 3"
    "h_was (nb_heap nb') = (h_was (nb_heap nb))(nb_next nb + 2 := Some (wiped (wordsFromBytes (utf8ToMutableBytes seed))))"
  using assms by (auto simp: derive_key_def seed_bytes_def alloc_bytes_def alloc_wa_def Let_def was_wipe_wa intro!: ext)

lemma key_at_Some: "h_was (nb_heap nb) k = Some wa \<Longrightarrow> key_at k nb = wa"
  by (simp add: key_at_def)

section \<open>A note and its key\<close>

text \<open>
  What the code relies on in CryptoJS: UTF-8 text and base64 decode to what was encoded, base64 uses
  its alphabet and does not shorten, PBKDF2 with a key size of eight words returns 32 bytes, and
  decryption under the same 32-byte key and 16-byte IV undoes encryption, whose padded output has at
  least a block.
\<close>

definition crypto_laws :: "crypto \<Rightarrow> bool" where
  "crypto_laws C \<longleftrightarrow>
     (\<forall>t bs. cr_utf8 C t = Inr bs \<longrightarrow> cr_utf8_text C bs = Inr t) \<and>
     (\<forall>bs. cr_unbase64 C (cr_base64 C bs) = bs \<and> length bs \<le> length (cr_base64 C bs) \<and> list_all b64_char (cr_base64 C bs)) \<and>
     (\<forall>pw salt n. \<exists>key. cr_pbkdf2 C pw salt 8 n = Inr key \<and> length (wa_bytes key) = 32) \<and>
     (\<forall>bs key iv. length (wa_bytes key) = 32 \<and> length iv = 16 \<longrightarrow>
        (\<exists>ct. cr_encrypt C bs key iv = Inr ct \<and> 16 \<le> length ct \<and> cr_decrypt C ct key iv = Inr bs))"

lemma crypto_lawsD:
  assumes "crypto_laws C"
  shows "cr_utf8 C t = Inr bs \<Longrightarrow> cr_utf8_text C bs = Inr t"
    and "cr_unbase64 C (cr_base64 C bs) = bs" and "length bs \<le> length (cr_base64 C bs)"
    and "list_all b64_char (cr_base64 C bs)"
    and "\<exists>key. cr_pbkdf2 C pw salt 8 n = Inr key \<and> length (wa_bytes key) = 32"
    and "length (wa_bytes key) = 32 \<Longrightarrow> length iv = 16 \<Longrightarrow>
      \<exists>ct. cr_encrypt C bs key iv = Inr ct \<and> 16 \<le> length ct \<and> cr_decrypt C ct key iv = Inr bs"
  using assms unfolding crypto_laws_def by blast+

lemma b64_no_dot: "list_all b64_char s \<Longrightarrow> CHR ''.'' \<notin> set s"
  by (auto simp: list_all_iff b64_char_def)

lemma takeWhile_dot: "CHR ''.'' \<notin> set a \<Longrightarrow> takeWhile (\<lambda>c. c \<noteq> CHR ''.'') (a @ CHR ''.'' # b) = a"
  by (induction a) auto

lemma dropWhile_dot: "CHR ''.'' \<notin> set a \<Longrightarrow> dropWhile (\<lambda>c. c \<noteq> CHR ''.'') (a @ CHR ''.'' # b) = CHR ''.'' # b"
  by (induction a) auto

lemma takeWhile_no_dot: "CHR ''.'' \<notin> set b \<Longrightarrow> takeWhile (\<lambda>c. c \<noteq> CHR ''.'') b = b"
  by (induction b) auto

lemma split_payload_join:
  "CHR ''.'' \<notin> set a \<Longrightarrow> CHR ''.'' \<notin> set b \<Longrightarrow> split_payload (a @ ''.'' @ b) = (a, b)"
  by (simp add: split_payload_def takeWhile_dot dropWhile_dot takeWhile_no_dot)

lemma payload_shape:
  assumes "list_all b64_char a" and "list_all b64_char b" and "16 \<le> length a" and "16 \<le> length b"
  shows "isEncryptedPayload (a @ ''.'' @ b)"
proof -
  have "takeWhile (\<lambda>c. c \<noteq> CHR ''.'') (a @ CHR ''.'' # b) = a"
    by (rule takeWhile_dot [OF b64_no_dot [OF assms(1)]])
  then show ?thesis using assms by (auto simp: isEncryptedPayload_def Let_def)
qed

lemma encrypt_decrypt_with:
  assumes C: "crypto_laws C" and key: "length (wa_bytes key) = 32" and t: "cr_utf8 C t = Inr bs" and iv: "length iv = 16"
  obtains p where "encrypt_with C t key iv = Inr p" "isEncryptedPayload p" "decrypt_with C p key = Inr t"
proof -
  note laws = crypto_lawsD [OF C]
  obtain ct where ct: "cr_encrypt C bs key iv = Inr ct" "16 \<le> length ct" "cr_decrypt C ct key iv = Inr bs"
    using laws(6) [OF key iv] by blast
  let ?p = "cr_base64 C iv @ ''.'' @ cr_base64 C ct"
  have "encrypt_with C t key iv = Inr ?p" by (simp add: encrypt_with_def t ct iv)
  moreover have "isEncryptedPayload ?p"
    using laws(3) [of iv] laws(3) [of ct] iv ct(2) by (intro payload_shape laws(4)) simp_all
  moreover have "decrypt_with C ?p key = Inr t"
    unfolding decrypt_with_def split_payload_join [OF b64_no_dot [OF laws(4)] b64_no_dot [OF laws(4)]]
    by (simp add: laws(2) ct laws(1) [OF t])
  ultimately show thesis by (rule that)
qed

lemma getKey_derived:
  assumes "nb_cache nb = None" and "nb_wallet nb = Some w" and "wr_secretSeed w \<noteq> []"
    and "cr_pbkdf2 C (wordsFromBytes (utf8ToMutableBytes (wr_secretSeed w))) WALLET_KDF_SALT 8 WALLET_KDF_ITERATIONS = Inr d"
  obtains k nb' where "getKey C g nb = (Waiting (AwaitKey g (Inr k)), nb')" "key_at k nb' = d"
proof -
  obtain r nb' where d: "derive_key C (wr_secretSeed w) nb = (r, nb')" by (cases "derive_key C (wr_secretSeed w) nb")
  note ok = derive_key_ok [OF assms(4) d]
  have "getKey C g nb = (Waiting (AwaitKey g (Inr (nb_next nb + 3))), nb')" using assms(1-3) d by (simp add: getKey_def ok(1))
  moreover have "key_at (nb_next nb + 3) nb' = d" by (rule key_at_Some) (simp add: ok(4))
  ultimately show thesis by (rule that)
qed


text \<open>A concrete instance of the parameters: hexadecimal for base64, two bytes per unit for UTF-8, and
  a cipher that appends the first half of its key.\<close>

definition nibble :: "nat \<Rightarrow> char" where
  "nibble n = char_of (97 + n :: nat)"

definition unnibble :: "char \<Rightarrow> nat" where
  "unnibble c = of_char c - 97"

definition hex :: "byte list \<Rightarrow> string" where
  "hex bs = concat (map (\<lambda>b. [nibble (unat b div 16), nibble (unat b mod 16)]) bs)"

fun unhex :: "string \<Rightarrow> byte list" where
  "unhex (a # b # s) = of_nat (unnibble a * 16 + unnibble b) # unhex s"
| "unhex s = []"

fun pair_units :: "byte list \<Rightarrow> utf16" where
  "pair_units (a # b # bs) = word_of_int (uint a * 256 + uint b) # pair_units bs"
| "pair_units bs = []"

definition toy_crypto :: crypto where
  "toy_crypto = \<lparr>
     cr_pbkdf2 = (\<lambda>pw salt size n. Inr (wordsFromBytes (take 32 (wa_bytes pw @ replicate 32 7)))),
     cr_utf8 = (\<lambda>t. Inr (concat (map (\<lambda>u. [word_of_int (uint u div 256), word_of_int (uint u mod 256)]) t))),
     cr_utf8_text = (\<lambda>bs. Inr (pair_units bs)),
     cr_base64 = hex, cr_unbase64 = unhex, cr_btoa = (\<lambda>s. s),
     cr_encrypt = (\<lambda>bs key iv. Inr (bs @ take 16 (wa_bytes key))),
     cr_decrypt = (\<lambda>ct key iv. Inr (take (length ct - length (take 16 (wa_bytes key))) ct)),
     cr_web = False\<rparr>"

lemma nibble_range: "n < 16 \<Longrightarrow> b64_char (nibble n) \<and> unnibble (nibble n) = n"
  by (simp add: nibble_def unnibble_def b64_char_def Let_def)

lemma hex_laws: "unhex (hex bs) = bs \<and> length bs \<le> length (hex bs) \<and> list_all b64_char (hex bs)"
proof (induction bs)
  case Nil
  then show ?case by (simp add: hex_def)
next
  case (Cons b bs)
  have "unat b < 256" using unsigned_less [of b, where ?'a = nat] by simp
  then have "b64_char (nibble (unat b div 16)) \<and> unnibble (nibble (unat b div 16)) = unat b div 16"
    "b64_char (nibble (unat b mod 16)) \<and> unnibble (nibble (unat b mod 16)) = unat b mod 16"
    by (intro nibble_range; simp)+
  moreover have "of_nat (unat b div 16 * 16 + unat b mod 16) = b" by simp
  ultimately show ?case using Cons by (simp add: hex_def)
qed

lemma pair_units_split:
  "pair_units (concat (map (\<lambda>u. [word_of_int (uint u div 256), word_of_int (uint u mod 256)]) t)) = (t :: utf16)"
proof (induction t)
  case (Cons u t)
  have "0 \<le> uint u \<and> uint u < 65536" using uint_lt2p [of u] by simp
  then have u: "uint u div 256 mod 256 = uint u div 256" by (intro mod_pos_pos_trivial) (auto simp: pos_imp_zdiv_nonneg_iff)
  then have "uint (word_of_int (uint u div 256) :: byte) = uint u div 256"
    by (simp add: uint_word_of_int u)
  moreover have "uint (word_of_int (uint u mod 256) :: byte) = uint u mod 256"
    by (simp add: uint_word_of_int take_bit_int_eq_self)
  ultimately show ?case using Cons by simp
qed simp

lemma toy_laws: "crypto_laws toy_crypto"
proof -
  have "length (wa_bytes (wordsFromBytes (take 32 (bs @ replicate 32 7)))) = 32" for bs by simp
  then show ?thesis
    by (auto simp: crypto_laws_def toy_crypto_def hex_laws pair_units_split)
qed

definition with_wallet :: "utf16 \<Rightarrow> notebook" where
  "with_wallet seed = setActiveWalletForCrypto (Some \<lparr>wr_publicKey = ''GA'', wr_secretSeed = seed\<rparr>) (fresh_notebook True None)"

lemma with_wallet_fields:
  "nb_cache (with_wallet seed) = None" "nb_wallet (with_wallet seed) = Some \<lparr>wr_publicKey = ''GA'', wr_secretSeed = seed\<rparr>"
  by (simp_all add: with_wallet_def setActiveWalletForCrypto_def resetKeyCache_def Let_def fresh_notebook_def wipe_wa_def)


section \<open>Copies of the seed\<close>

lemma getKey_derives:
  assumes "nb_cache nb = None" and "nb_wallet nb = Some w" and "wr_secretSeed w \<noteq> []"
  shows "getKey C g nb = (case derive_key C (wr_secretSeed w) nb of (r, nb') \<Rightarrow> (Waiting (AwaitKey g r), nb'))"
  using assms by (simp add: getKey_def)

text \<open>What \<open>getKey\<close> leaves of the seed, whether the derivation returns or throws. The word array
  and the bytes it was made of are zero and nothing else of the store's arrays has changed but the
  new key; but the buffer in which \<open>utf8ToMutableBytes\<close> built those bytes still holds the seed,
  because it returns a copy (\<open>out.slice(0, w)\<close>).\<close>
lemma seed_copy_left:
  assumes "nb_cache nb = None" and "nb_wallet nb = Some w" and "wr_secretSeed w \<noteq> []"
  shows "let seed = wr_secretSeed w; n = nb_next nb; h = nb_heap (snd (getKey C g nb))
    in (\<exists>wa. h_was h (n + 2) = Some wa \<and> wa_bytes wa = [] \<and> wa_words wa = Some (replicate ((length (utf8ToMutableBytes seed) + 3) div 4) 0)) \<and>
      h_bufs h (n + 1) = Some (replicate (length (utf8ToMutableBytes seed)) 0) \<and>
      (\<forall>i. i < n \<longrightarrow> h_was h i = h_was (nb_heap nb) i \<and> h_bufs h i = h_bufs (nb_heap nb) i) \<and>
      map_option (take (length (utf8ToMutableBytes seed))) (h_bufs h n) = Some (utf8ToMutableBytes seed)"
proof -
  let ?seed = "wr_secretSeed w"
  obtain r nb' where d: "derive_key C ?seed nb = (r, nb')" by (cases "derive_key C ?seed nb")
  have snd: "snd (getKey C g nb) = nb'" by (simp add: getKey_derives [OF assms] d)
  have was: "h_was (nb_heap nb') (nb_next nb + 2) = Some (wiped (wordsFromBytes (utf8ToMutableBytes ?seed))) \<and>
      (\<forall>i < nb_next nb. h_was (nb_heap nb') i = h_was (nb_heap nb) i)"
  proof (cases "cr_pbkdf2 C (wordsFromBytes (utf8ToMutableBytes ?seed)) WALLET_KDF_SALT 8 WALLET_KDF_ITERATIONS")
    case (Inl e)
    then show ?thesis using derive_key_fails(4) [OF Inl d] by simp
  next
    case (Inr x)
    then show ?thesis using derive_key_ok(4) [OF Inr d] by simp
  qed
  have loop: "take (length (utf8ToMutableBytes ?seed)) (fst (utf8_loop ?seed (replicate (length ?seed * 4) 0) 0)) = utf8ToMutableBytes ?seed"
    by (simp add: utf8ToMutableBytes_def Let_def case_prod_unfold min_def)
  show ?thesis using was derive_key_fields(3) [OF d] loop
    by (simp add: Let_def snd wiped_parsed)
qed

lemma seed_copy_left_witness:
  "h_bufs (nb_heap (snd (getKey toy_crypto (Encrypt []) (with_wallet [83, 65])))) 1 = Some [0, 0] \<and>
    map_option (take 2) (h_bufs (nb_heap (snd (getKey toy_crypto (Encrypt []) (with_wallet [83, 65])))) 0) = Some [83, 65]"
proof -
  have e: "utf8ToMutableBytes [83, 65] = [83, 65]" by code_simp
  have n: "nb_next (with_wallet [83, 65]) = 0"
    by (simp add: with_wallet_def setActiveWalletForCrypto_def resetKeyCache_def Let_def fresh_notebook_def)
  show ?thesis
    using seed_copy_left [of "with_wallet [83, 65]" "\<lparr>wr_publicKey = ''GA'', wr_secretSeed = [83, 65]\<rparr>" toy_crypto "Encrypt []"]
    by (simp add: with_wallet_fields e n Let_def numeral_2_eq_2)
qed

section \<open>A key wiped, or cached, under a call in flight\<close>

text \<open>C28: a cache reset while an encryption waits for its IV. The call keeps its reference to the
  cached key, the reset zeroes that key in place, and the record is encrypted under an empty key
  (no significant bytes, every word zero) that does not depend on the key it replaces.\<close>
theorem reset_empties_key_in_use:
  assumes "nb_cache nb = Some k" and "h_was (nb_heap nb) k = Some key"
    and "wa_words key = Some ws" and "\<not> wa_words_frozen key" and "\<not> wa_frozen key"
  shows "drive C [Tick] (encrypt C t nb) = (Waiting (AwaitIv t k), nb) \<and>
    fst (drive C [Bytes (Inr iv)] (Waiting (AwaitIv t k), resetKeyCache nb)) =
      (case encrypt_with C t \<lparr>wa_words = Some (replicate (length ws) 0), wa_sigBytes = 0, wa_words_frozen = False, wa_frozen = False\<rparr> iv of
         Inl e \<Rightarrow> Broken e | Inr p \<Rightarrow> Encrypted p)"
proof -
  have "wiped key = \<lparr>wa_words = Some (replicate (length ws) 0), wa_sigBytes = 0, wa_words_frozen = False, wa_frozen = False\<rparr>"
    using assms(3-5) by (simp add: wiped_def)
  moreover have "key_at k (resetKeyCache nb) = wiped key"
    using assms(1,2) by (intro key_at_Some) (simp add: resetKeyCache_def was_wipe_wa [where a = "Some k"])
  ultimately show ?thesis using assms(1) by (simp add: encrypt_def getKey_def split: sum.splits)
qed

lemma wa_bytes_empty:
  "wa_bytes \<lparr>wa_words = Some ws, wa_sigBytes = 0, wa_words_frozen = f, wa_frozen = g\<rparr> = []"
  by (simp add: wa_bytes_def)

lemmas toy_eval = encrypt_with_def toy_crypto_def parsed_def hex_laws

definition one_key :: notebook where
  "one_key = (fresh_notebook True None)\<lparr>
     nb_heap := (nb_heap (fresh_notebook True None))\<lparr>h_was := [0 \<mapsto> wordsFromBytes [1, 2, 3, 4]]\<rparr>, nb_next := 1, nb_cache := Some 0\<rparr>"

theorem reset_empties_key_in_use_witness:
  "fst (drive toy_crypto [Bytes (Inr [5])] (Waiting (AwaitIv [104] 0), one_key)) = Encrypted (hex [5] @ ''.'' @ hex [0, 104, 1, 2, 3, 4]) \<and>
    fst (drive toy_crypto [Bytes (Inr [5])] (Waiting (AwaitIv [104] 0), resetKeyCache one_key)) = Encrypted (hex [5] @ ''.'' @ hex [0, 104])"
proof
  show "fst (drive toy_crypto [Bytes (Inr [5])] (Waiting (AwaitIv [104] 0), one_key)) = Encrypted (hex [5] @ ''.'' @ hex [0, 104, 1, 2, 3, 4])"
    by (simp add: toy_eval one_key_def key_at_def)
  have "encrypt_with toy_crypto [104] \<lparr>wa_words = Some (replicate 1 0), wa_sigBytes = 0, wa_words_frozen = False, wa_frozen = False\<rparr> [5] = Inr (hex [5] @ ''.'' @ hex [0, 104])"
    by (simp add: toy_eval wa_bytes_empty)
  then show "fst (drive toy_crypto [Bytes (Inr [5])] (Waiting (AwaitIv [104] 0), resetKeyCache one_key)) = Encrypted (hex [5] @ ''.'' @ hex [0, 104])"
    using reset_empties_key_in_use [of one_key 0 "wordsFromBytes [1, 2, 3, 4]" "pack_bytes [1, 2, 3, 4]" toy_crypto "[104]" "[5]"]
    by (simp add: one_key_def wordsFromBytes_def)
qed

text \<open>A read of the device key pending while the wallet is set. The switch finds no cached key to
  drop; when the read comes back its key is cached over the active wallet, and from then on every
  text is encrypted under the device key, not under the wallet's.\<close>
lemma device_key_outlives_switch:
  assumes "\<not> cr_web C" and "nb_cache nb = None" and "nb_wallet nb = None"
    and "40 \<le> length b64"
  shows "encrypt C t nb = (Waiting (AwaitStored (Encrypt t)), nb) \<and>
    (let nb' = snd (drive C [Text (Inr (Some b64)), Tick] (Waiting (AwaitStored (Encrypt t)), setActiveWalletForCrypto (Some w) nb))
     in nb_wallet nb' = Some w \<and>
        fst (drive C [Tick, Bytes (Inr iv)] (encrypt C u nb')) =
          (case encrypt_with C u (parsed (cr_unbase64 C b64)) iv of Inl e \<Rightarrow> Broken e | Inr p \<Rightarrow> Encrypted p))"
proof -
  have "b64 \<noteq> []" using assms(4) by auto
  then show ?thesis using assms
    by (simp add: encrypt_def getKey_def readOrCreateMasterKey_def setActiveWalletForCrypto_def resetKeyCache_def
        legacy_key_def alloc_wa_def usable_key_def key_at_def Let_def split: sum.splits)
qed

lemma device_key_outlives_switch_witness:
  "let w = \<lparr>wr_publicKey = ''GA'', wr_secretSeed = [83]\<rparr>;
       nb' = snd (drive toy_crypto [Text (Inr (Some (hex (replicate 20 1)))), Tick]
         (Waiting (AwaitStored (Encrypt [])), setActiveWalletForCrypto (Some w) (fresh_notebook True None)))
   in nb_wallet nb' = Some w \<and>
      fst (drive toy_crypto [Tick, Bytes (Inr [5])] (encrypt toy_crypto [] nb')) = Encrypted (hex [5] @ ''.'' @ hex (replicate 16 1))"
proof -
  have e: "encrypt_with toy_crypto [] (parsed (cr_unbase64 toy_crypto (hex (replicate 20 1)))) [5] = Inr (hex [5] @ ''.'' @ hex (replicate 16 1))"
    by (simp add: toy_eval)
  have l: "40 \<le> length (hex (replicate 20 1))" by (simp add: hex_def length_concat sum_list_replicate)
  have p: "\<not> cr_web toy_crypto" "nb_cache (fresh_notebook True None) = None" "nb_wallet (fresh_notebook True None) = None"
    by (simp_all add: toy_crypto_def fresh_notebook_def)
  show ?thesis
    using device_key_outlives_switch [OF p l, of "[]" "\<lparr>wr_publicKey = ''GA'', wr_secretSeed = [83]\<rparr>" "[5]" "[]"]
    unfolding e Let_def sum.case by (rule conjunct2)
qed

section \<open>Invariants of the interleaved calls\<close>

text \<open>The key a call in flight refers to.\<close>

definition key_ref :: "nb_await \<Rightarrow> nat option" where
  "key_ref w = (case w of AwaitKey g (Inr k) \<Rightarrow> Some k | AwaitIv t k \<Rightarrow> Some k | _ \<Rightarrow> None)"

text \<open>
  References are live: a cached key is an array of the store, and so is the key a call waits to use;
  nothing is stored at or above the next free address.
\<close>

definition live :: "notebook \<Rightarrow> nat option \<Rightarrow> bool" where
  "live nb r = (case r of None \<Rightarrow> True | Some k \<Rightarrow> h_was (nb_heap nb) k \<noteq> None)"

definition store_ok :: "notebook \<Rightarrow> bool" where
  "store_ok nb \<longleftrightarrow> live nb (nb_cache nb) \<and> (\<forall>i \<ge> nb_next nb. h_was (nb_heap nb) i = None \<and> h_bufs (nb_heap nb) i = None)"

text \<open>The key of the active wallet's seed.\<close>

definition wallet_key :: "crypto \<Rightarrow> notebook \<Rightarrow> word_array \<Rightarrow> bool" where
  "wallet_key C nb key \<longleftrightarrow> (\<exists>w. nb_wallet nb = Some w \<and> wr_secretSeed w \<noteq> [] \<and>
     cr_pbkdf2 C (wordsFromBytes (utf8ToMutableBytes (wr_secretSeed w))) WALLET_KDF_SALT 8 WALLET_KDF_ITERATIONS = Inr key)"

definition cache_ok :: "crypto \<Rightarrow> notebook \<Rightarrow> bool" where
  "cache_ok C nb \<longleftrightarrow> (\<forall>k. nb_cache nb = Some k \<longrightarrow> wallet_key C nb (key_at k nb))"

text \<open>What a synchronous piece of the code does to the store: nothing live goes, the store stays well
  formed, and a call that comes out waiting waits for a live key.\<close>

definition nb_keeps :: "notebook \<Rightarrow> notebook \<Rightarrow> bool" where
  "nb_keeps nb nb' \<longleftrightarrow> store_ok nb' \<and> (\<forall>r. live nb r \<longrightarrow> live nb' r)"

definition outcome_ref :: "nb_outcome \<Rightarrow> nat option" where
  "outcome_ref r = (case r of Waiting w \<Rightarrow> key_ref w | _ \<Rightarrow> None)"

lemma nb_keepsI: "store_ok nb' \<Longrightarrow> (\<And>r. live nb r \<Longrightarrow> live nb' r) \<Longrightarrow> nb_keeps nb nb'"
  by (simp add: nb_keeps_def)

lemma nb_keeps_refl [simp]: "nb_keeps nb nb \<longleftrightarrow> store_ok nb"
  by (simp add: nb_keeps_def)

lemma live_None [simp]: "live nb None"
  by (simp add: live_def)

lemma live_wipe_wa [simp]: "live (wipe_wa a nb) r \<longleftrightarrow> live nb r"
  by (cases r) (simp_all add: live_def was_wipe_wa)

lemma live_frame [simp]:
  "live (nb\<lparr>nb_cache := c\<rparr>) r = live nb r" "live (nb\<lparr>nb_wallet := w\<rparr>) r = live nb r" "live (nb\<lparr>nb_local := l\<rparr>) r = live nb r"
  by (simp_all add: live_def split: option.split)

lemma resetKeyCache_keeps: "store_ok nb \<Longrightarrow> nb_keeps nb (resetKeyCache nb)"
  by (rule nb_keepsI) (simp_all add: store_ok_def resetKeyCache_def was_wipe_wa)

lemma setActiveWallet_keeps: "store_ok nb \<Longrightarrow> nb_keeps nb (setActiveWalletForCrypto w nb)"
  using resetKeyCache_keeps [of nb] by (auto simp: setActiveWalletForCrypto_def Let_def nb_keeps_def store_ok_def)

lemma legacy_key_keeps:
  assumes "store_ok nb" and "legacy_key C g b64 nb = (r, nb')"
  shows "nb_keeps nb nb' \<and> live nb' (outcome_ref r)"
proof -
  have r: "r = Waiting (AwaitKey g (Inr (nb_next nb)))" "nb_cache nb' = Some (nb_next nb)" "nb_next nb' = nb_next nb + 1"
    "h_bufs (nb_heap nb') = h_bufs (nb_heap nb)" "h_was (nb_heap nb') = (h_was (nb_heap nb))(nb_next nb := Some (parsed (cr_unbase64 C b64)))"
    using assms(2) by (auto simp: legacy_key_def alloc_wa_def)
  have "live nb' q" if "live nb q" for q using that by (auto simp: live_def r split: option.splits)
  moreover have "store_ok nb'" using assms(1) by (auto simp: store_ok_def r live_def)
  ultimately show ?thesis by (auto simp: nb_keeps_def outcome_ref_def key_ref_def r(1) live_def r(5))
qed

lemma derive_key_keeps:
  assumes "store_ok nb" and "derive_key C seed nb = (r, nb')"
  shows "nb_keeps nb nb' \<and> live nb' (case r of Inl e \<Rightarrow> None | Inr k \<Rightarrow> Some k)"
proof (cases "cr_pbkdf2 C (wordsFromBytes (utf8ToMutableBytes seed)) WALLET_KDF_SALT 8 WALLET_KDF_ITERATIONS")
  case (Inl e)
  note f = derive_key_fails [OF Inl assms(2)] derive_key_fields(3) [OF assms(2)]
  have l: "live nb' q" if "live nb q" for q using that by (auto simp: live_def f(4) split: option.splits)
  moreover have "store_ok nb'" using assms(1) l by (auto simp: store_ok_def f)
  ultimately show ?thesis by (simp add: nb_keeps_def f(1))
next
  case (Inr d)
  note f = derive_key_ok [OF Inr assms(2)] derive_key_fields(3) [OF assms(2)]
  have "live nb' q" if "live nb q" for q using that by (auto simp: live_def f(4) split: option.splits)
  moreover have "store_ok nb'" using assms(1) by (auto simp: store_ok_def f live_def)
  ultimately show ?thesis by (simp add: nb_keeps_def f(1) live_def f(4))
qed

lemma master_ref [simp]: "outcome_ref (readOrCreateMasterKey C g nb) = None"
  by (auto simp: readOrCreateMasterKey_def outcome_ref_def key_ref_def split: option.splits list.splits)

lemma getKey_keeps:
  assumes "store_ok nb" and "getKey C g nb = (r, nb')"
  shows "nb_keeps nb nb' \<and> live nb' (outcome_ref r)"
proof (cases "nb_cache nb")
  case (Some k)
  then show ?thesis using assms by (auto simp: getKey_def outcome_ref_def key_ref_def store_ok_def)
next
  case None
  show ?thesis
  proof (cases "\<exists>w. nb_wallet nb = Some w \<and> wr_secretSeed w \<noteq> []")
    case True
    then obtain w where w: "nb_wallet nb = Some w" "wr_secretSeed w \<noteq> []" by blast
    obtain x nb'' where d: "derive_key C (wr_secretSeed w) nb = (x, nb'')" by (cases "derive_key C (wr_secretSeed w) nb")
    have "r = Waiting (AwaitKey g x)" "nb' = nb''" using assms(2) by (simp_all add: getKey_derives [OF None w] d)
    then show ?thesis using derive_key_keeps [OF assms(1) d] by (auto simp: outcome_ref_def key_ref_def split: sum.splits)
  next
    case False
    then show ?thesis using assms None by (auto simp: getKey_def split: option.splits if_splits)
  qed
qed

lemma nb_resume_keeps:
  assumes "store_ok nb" and "live nb (key_ref w)" and "nb_resume C w a nb = (r, nb')"
  shows "nb_keeps nb nb' \<and> live nb' (outcome_ref r)"
  using assms
proof (induction C w a nb rule: nb_resume.induct)
  case (4 C g x nb)
  then show ?case using legacy_key_keeps by (fastforce simp: outcome_ref_def key_ref_def split: sum.splits)
qed (auto simp: outcome_ref_def key_ref_def Let_def nb_keeps_def store_ok_def split: sum.splits if_splits goal.splits)

definition refs_ok :: "nb_sys \<Rightarrow> bool" where
  "refs_ok y \<longleftrightarrow> store_ok (ns_nb y) \<and> (\<forall>w \<in> set (ns_pending y). live (ns_nb y) (key_ref w))"

lemma settle_ok:
  assumes "nb_keeps (ns_nb y) nb'" and "live nb' (outcome_ref r)" and "\<And>w. w \<in> set (ns_pending y) \<Longrightarrow> live (ns_nb y) (key_ref w)"
  shows "refs_ok (settle (r, nb') y)"
  using assms by (auto simp: refs_ok_def settle_def nb_keeps_def outcome_ref_def split: nb_outcome.splits)

lemma refs_ok_step:
  assumes "refs_ok y"
  shows "refs_ok (nb_event_step C ev y)"
proof -
  have ok: "store_ok (ns_nb y)" and p: "\<And>w. w \<in> set (ns_pending y) \<Longrightarrow> live (ns_nb y) (key_ref w)"
    using assms by (auto simp: refs_ok_def)
  show ?thesis
  proof (cases ev)
    case (Begin g)
    obtain r nb' where r: "(case g of Encrypt t \<Rightarrow> encrypt C t (ns_nb y) | Decrypt q \<Rightarrow> decrypt C q (ns_nb y)) = (r, nb')"
      by (meson surj_pair)
    have "nb_keeps (ns_nb y) nb' \<and> live nb' (outcome_ref r)"
      using r getKey_keeps [OF ok] ok
      by (auto simp: encrypt_def decrypt_def outcome_ref_def split: goal.splits if_splits)
    then show ?thesis using settle_ok [of y nb' r] p by (simp add: Begin r)
  next
    case (Switch w)
    then show ?thesis using setActiveWallet_keeps [OF ok, of w] p by (auto simp: refs_ok_def nb_keeps_def)
  next
    case Reset
    then show ?thesis using resetKeyCache_keeps [OF ok] p by (auto simp: refs_ok_def nb_keeps_def)
  next
    case (Answer i a)
    show ?thesis
    proof (cases "i < length (ns_pending y)")
      case True
      obtain r nb' where r: "nb_resume C (ns_pending y ! i) a (ns_nb y) = (r, nb')" by (meson surj_pair)
      have "nb_keeps (ns_nb y) nb' \<and> live nb' (outcome_ref r)"
        by (rule nb_resume_keeps [OF ok p [OF nth_mem [OF True]] r])
      then show ?thesis
        using settle_ok [of "y\<lparr>ns_pending := take i (ns_pending y) @ drop (i + 1) (ns_pending y)\<rparr>" nb' r] p
        by (auto simp: Answer True r dest: in_set_takeD in_set_dropD)
    next
      case False
      then show ?thesis using assms by (simp add: Answer)
    qed
  qed
qed

text \<open>A wallet is set, an encryption begins, and its key is ready.\<close>

definition wallet_run :: nb_sys where
  "wallet_run = fold (nb_event_step toy_crypto)
     [Switch (Some \<lparr>wr_publicKey = ''GA'', wr_secretSeed = [83]\<rparr>), Begin (Encrypt [104]), Answer 0 Tick]
     \<lparr>ns_nb = fresh_notebook True None, ns_pending = [], ns_done = [], ns_legacy = False\<rparr>"

lemma wallet_run_reachable: "nb_reachable toy_crypto wallet_run"
  unfolding wallet_run_def by (rule notebook_runs.run) (auto intro: nb_reachable.start)

lemma wallet_run_fields:
  "nb_cache (ns_nb wallet_run) = Some 3" "ns_pending wallet_run = [AwaitIv [104] 3]" "\<not> ns_legacy wallet_run"
  "nb_wallet (ns_nb wallet_run) = Some \<lparr>wr_publicKey = ''GA'', wr_secretSeed = [83]\<rparr>"
proof -
  let ?w = "\<lparr>wr_publicKey = ''GA'', wr_secretSeed = [83]\<rparr>"
  define nb where "nb = setActiveWalletForCrypto (Some ?w) (fresh_notebook True None)"
  have nb: "nb_cache nb = None" "nb_wallet nb = Some ?w" "nb_next nb = 0"
    by (simp_all add: nb_def setActiveWalletForCrypto_def resetKeyCache_def Let_def fresh_notebook_def)
  have pb: "cr_pbkdf2 toy_crypto (wordsFromBytes (utf8ToMutableBytes [83])) WALLET_KDF_SALT 8 WALLET_KDF_ITERATIONS
      = Inr (wordsFromBytes (take 32 (utf8ToMutableBytes [83] @ replicate 32 7)))"
    by (simp add: toy_crypto_def)
  obtain r nb' where d: "derive_key toy_crypto [83] nb = (r, nb')" by (cases "derive_key toy_crypto [83] nb")
  note ok = derive_key_ok [OF pb d] derive_key_fields(1) [OF d]
  have b: "encrypt toy_crypto [104] nb = (Waiting (AwaitKey (Encrypt [104]) (Inr 3)), nb')"
    by (simp add: encrypt_def getKey_derives [OF nb(1,2)] d ok(1) nb(3))
  have e: "wallet_run = \<lparr>ns_nb = nb', ns_pending = [AwaitIv [104] 3], ns_done = [], ns_legacy = False\<rparr>"
    using b by (simp add: wallet_run_def settle_def device_path_def flip: nb_def)
  then show "nb_cache (ns_nb wallet_run) = Some 3" "ns_pending wallet_run = [AwaitIv [104] 3]" "\<not> ns_legacy wallet_run"
    "nb_wallet (ns_nb wallet_run) = Some ?w"
    by (simp_all add: e ok nb)
qed



text \<open>Steps that stay off the device-key path keep the cached key that of the active wallet.\<close>

lemma resetKeyCache_cache [simp]: "nb_cache (resetKeyCache nb) = None"
  by (simp add: resetKeyCache_def)

lemma setActiveWallet_cache_ok: "cache_ok C nb \<Longrightarrow> cache_ok C (setActiveWalletForCrypto w nb)"
  by (cases w) (auto simp: cache_ok_def setActiveWalletForCrypto_def wallet_key_def key_at_def Let_def)

lemma getKey_cache_ok:
  assumes "cache_ok C nb" and "getKey C g nb = (r, nb')" and "\<not> device_path r"
  shows "cache_ok C nb'"
proof (cases "nb_cache nb = None \<and> (\<exists>w. nb_wallet nb = Some w \<and> wr_secretSeed w \<noteq> [])")
  case True
  then obtain w where w: "nb_cache nb = None" "nb_wallet nb = Some w" "wr_secretSeed w \<noteq> []" by blast
  obtain x nb'' where d: "derive_key C (wr_secretSeed w) nb = (x, nb'')" by (cases "derive_key C (wr_secretSeed w) nb")
  have nb': "nb' = nb''" using assms(2) by (simp add: getKey_derives [OF w] d)
  show ?thesis
  proof (cases "cr_pbkdf2 C (wordsFromBytes (utf8ToMutableBytes (wr_secretSeed w))) WALLET_KDF_SALT 8 WALLET_KDF_ITERATIONS")
    case (Inl e)
    then show ?thesis using derive_key_fails(2) [OF Inl d] w(1) by (simp add: cache_ok_def nb')
  next
    case (Inr k)
    have "key_at (nb_next nb + 3) nb'' = k" by (rule key_at_Some) (simp add: derive_key_ok(4) [OF Inr d])
    then show ?thesis
      using derive_key_ok(2) [OF Inr d] derive_key_fields(1) [OF d] w(2,3) Inr by (simp add: cache_ok_def nb' wallet_key_def)
  qed
next
  case False
  then have "nb' = nb"
    using assms(2,3) by (auto simp: getKey_def readOrCreateMasterKey_def device_path_def split: option.splits if_splits list.splits)
  then show ?thesis using assms(1) by simp
qed

lemma nb_resume_cache_ok:
  assumes "cache_ok C nb" and "\<not> device_path (Waiting w)" and "nb_resume C w a nb = (r, nb')"
  shows "cache_ok C nb' \<and> \<not> device_path r"
  using assms
  by (cases "(C, w, a, nb)" rule: nb_resume.cases)
    (auto simp: device_path_def split: sum.splits goal.splits)

definition wallet_only :: "crypto \<Rightarrow> nb_sys \<Rightarrow> bool" where
  "wallet_only C y \<longleftrightarrow> ns_legacy y \<or> cache_ok C (ns_nb y) \<and> (\<forall>w \<in> set (ns_pending y). \<not> device_path (Waiting w))"

lemma settle_wallet_only:
  assumes "\<not> device_path r \<Longrightarrow> cache_ok C nb'" and "\<And>w. w \<in> set (ns_pending y) \<Longrightarrow> \<not> device_path (Waiting w)"
  shows "wallet_only C (settle (r, nb') y)"
  using assms by (cases r) (auto simp: wallet_only_def settle_def device_path_def [of "Encrypted _"]
    device_path_def [of "Decrypted _"] device_path_def [of "Broken _"])

lemma wallet_only_step:
  assumes "wallet_only C y"
  shows "wallet_only C (nb_event_step C ev y)"
proof (cases "ns_legacy y")
  case True
  then show ?thesis
    by (cases ev) (auto simp: wallet_only_def settle_def split: prod.splits nb_outcome.splits)
next
  case False
  then have ok: "cache_ok C (ns_nb y)" and p: "\<And>w. w \<in> set (ns_pending y) \<Longrightarrow> \<not> device_path (Waiting w)"
    using assms by (auto simp: wallet_only_def)
  show ?thesis
  proof (cases ev)
    case (Begin g)
    obtain r nb' where r: "(case g of Encrypt t \<Rightarrow> encrypt C t (ns_nb y) | Decrypt q \<Rightarrow> decrypt C q (ns_nb y)) = (r, nb')"
      by (meson surj_pair)
    have "cache_ok C nb'" if "\<not> device_path r"
      using r getKey_cache_ok [OF ok _ that] ok by (auto simp: encrypt_def decrypt_def split: goal.splits if_splits)
    then show ?thesis using settle_wallet_only [of r C nb' y] p by (simp add: Begin r)
  next
    case (Switch w)
    then show ?thesis using setActiveWallet_cache_ok [OF ok] p by (simp add: wallet_only_def)
  next
    case Reset
    then show ?thesis using p by (simp add: wallet_only_def cache_ok_def)
  next
    case (Answer i a)
    show ?thesis
    proof (cases "i < length (ns_pending y)")
      case True
      obtain r nb' where r: "nb_resume C (ns_pending y ! i) a (ns_nb y) = (r, nb')" by (meson surj_pair)
      have "cache_ok C nb'" using nb_resume_cache_ok [OF ok p [OF nth_mem [OF True]] r] by simp
      then show ?thesis
        using settle_wallet_only [of r C nb' "y\<lparr>ns_pending := take i (ns_pending y) @ drop (i + 1) (ns_pending y)\<rparr>"] p
        by (auto simp: Answer True r dest: in_set_takeD in_set_dropD)
    next
      case False
      then show ?thesis using assms by (simp add: Answer)
    qed
  qed
qed

text \<open>C26: in every interleaving in which no call has taken the device-key path (every call began with a
  wallet active or a key cached), a cached key is the one that PBKDF2 derives from the seed of the
  wallet that is active now, whatever switches and resets came before.\<close>
theorem cached_key_of_active_wallet:
  assumes "nb_reachable C y" and "\<not> ns_legacy y" and "nb_cache (ns_nb y) = Some k"
  shows "\<exists>w. nb_wallet (ns_nb y) = Some w \<and> wr_secretSeed w \<noteq> [] \<and>
    cr_pbkdf2 C (wordsFromBytes (utf8ToMutableBytes (wr_secretSeed w))) WALLET_KDF_SALT 8 WALLET_KDF_ITERATIONS = Inr (key_at k (ns_nb y))"
proof -
  have "wallet_only C y"
    by (rule notebook_runs.invariant [OF _ _ assms(1)])
      (auto simp: nb_start_def fresh_notebook_def intro: wallet_only_step, simp add: wallet_only_def cache_ok_def)
  then show ?thesis using assms(2,3) by (auto simp: wallet_only_def cache_ok_def wallet_key_def)
qed

theorem cached_key_of_active_wallet_witness:
  "cr_pbkdf2 toy_crypto (wordsFromBytes (utf8ToMutableBytes [83])) WALLET_KDF_SALT 8 WALLET_KDF_ITERATIONS =
    Inr (key_at 3 (ns_nb wallet_run))"
  using cached_key_of_active_wallet [OF wallet_run_reachable wallet_run_fields(3,1)] by (simp add: wallet_run_fields(4))

end
