(* ===== verification/Event_Pages.thy ===== *)
theory Event_Pages imports Vault_Events begin

text \<open>
  \<^verbatim>\<open>fetchContractEvents\<close> against a server that does what its documentation says: it hands out the
  contract's events oldest first, at most a page at a time, each page with a cursor to its end.
\<close>

section \<open>The server\<close>

text \<open>The page from position \<open>k\<close>; \<open>cur\<close> writes a position as a cursor.\<close>

definition page_at :: "(nat \<Rightarrow> string) \<Rightarrow> event_response list \<Rightarrow> nat \<Rightarrow> events_page" where
  "page_at cur evs k = \<lparr>ep_events = take EVENT_PAGE_LIMIT (drop k evs),
     ep_cursor = Some (cur (min (k + EVENT_PAGE_LIMIT) (length evs)))\<rparr>"

text \<open>\<open>evs\<close> are the events of the contract \<open>cid\<close> from the ledger \<open>start\<close> on; the network is not
  switched meanwhile.\<close>

definition serves_events :: "env \<Rightarrow> (nat \<Rightarrow> string) \<Rightarrow> string \<Rightarrow> nat \<Rightarrow> event_response list \<Rightarrow> bool" where
  "serves_events E cur cid start evs \<longleftrightarrow> inj cur \<and> (\<forall>k. cur k \<noteq> []) \<and> (\<forall>hs. d_contractId (e_dep E hs) = cid) \<and>
     (\<forall>hs server h.
       e_getEvents E (hs @ [(AGetEvents server cid (FromLedger start) EVENT_PAGE_LIMIT, h)]) = Inr (page_at cur evs 0) \<and>
       (\<forall>k. e_getEvents E (hs @ [(AGetEvents server cid (FromCursor (cur k)) EVENT_PAGE_LIMIT, h)]) = Inr (page_at cur evs k)))"

section \<open>Reading its pages\<close>

definition parses :: "env \<Rightarrow> event_response \<Rightarrow> parsed_event \<Rightarrow> bool" where
  "parses E ev p \<longleftrightarrow> parseEvent E ev = Inr (Some p)"

lemma parse_page_all: "list_all2 (parses E) evs ps \<Longrightarrow> parse_page E evs = Inr ps"
  by (induction rule: list_all2_induct) (simp_all add: parses_def)

lemma failover_first: "m w = (Inr x, v) \<Longrightarrow> with_failover E dep wrap fin m w = (Inr x, v)"
  by (simp add: with_failover_def rpc_total_def Let_def catchM_eval max_def)

lemma get_page_served:
  assumes "serves_events E cur cid start evs" and "c = None \<and> k = 0 \<or> c = Some (cur k)"
  shows "\<exists>v. get_page E dep start c w = (Inr (Inr (page_at cur evs k)), v)"
proof -
  let ?m = "seqM (getActiveDeployment E) (\<lambda>d. seqM (rpcServer E) (\<lambda>server.
    ask (AGetEvents server (d_contractId d) (events_from start c) EVENT_PAGE_LIMIT) (e_getEvents E)))"
  have "\<exists>v. ?m w = (Inr (page_at cur evs k), v)"
    using assms by (auto simp: serves_events_def events_from_def getActiveDeployment_def rpcServer_def eff_eval)
  then obtain v where "?m w = (Inr (page_at cur evs k), v)" by blast
  from failover_first [of ?m, OF this] show ?thesis by (simp add: get_page_def attemptM_eval)
qed

text \<open>One round of the loop at position \<open>k\<close>: it ends, or goes on at the end of the page.\<close>

lemma read_pages_round:
  assumes srv: "serves_events E cur cid start evs" and all: "list_all2 (parses E) evs ps"
    and c: "c = None \<and> k = 0 \<or> c = Some (cur k)" and k: "k \<le> length evs" "k < MAX_EVENTS"
  defines "k' \<equiv> min (k + EVENT_PAGE_LIMIT) (length evs)"
  obtains v where "read_pages E dep start (Suc n) c (take k ps) w =
    (if c = Some (cur k') then (Inr (AllPages (take k' ps)), v) else read_pages E dep start n (Some (cur k')) (take k' ps) v)"
proof -
  have len: "length ps = length evs" using all by (simp add: list_all2_lengthD)
  obtain v where g: "get_page E dep start c w = (Inr (Inr (page_at cur evs k)), v)"
    using get_page_served [OF srv c] by blast
  have p: "parse_page E (ep_events (page_at cur evs k)) = Inr (take EVENT_PAGE_LIMIT (drop k ps))"
    using all by (intro parse_page_all) (simp add: page_at_def list_all2_takeI list_all2_dropI)
  have t: "take k ps @ take EVENT_PAGE_LIMIT (drop k ps) = take k' ps"
    using k len by (simp add: k'_def take_add [symmetric] min_def)
  have "truthy (Some (cur k'))" using srv by (simp add: serves_events_def)
  then show thesis using g p t k len that [of v]
    by (auto simp: seqM_eval liftM_eval ret_eval page_at_def k'_def)
qed

lemma read_pages_served:
  assumes srv: "serves_events E cur cid start evs" and all: "list_all2 (parses E) evs ps"
  shows "c = None \<and> k = 0 \<or> c = Some (cur k) \<Longrightarrow> k \<le> length evs \<Longrightarrow> k \<le> MAX_EVENTS \<Longrightarrow>
    EVENT_PAGE_LIMIT dvd k \<or> k = length evs \<Longrightarrow> MAX_EVENTS \<le> k + EVENT_PAGE_LIMIT * n \<or> k = length evs \<Longrightarrow>
    \<exists>v. read_pages E dep start n c (take k ps) w = (Inr (AllPages (take MAX_EVENTS ps)), v)"
proof (induction n arbitrary: c k w)
  case 0
  have "length ps = length evs" using all by (simp add: list_all2_lengthD)
  then show ?case using 0 by (auto simp: ret_eval)
next
  case (Suc n)
  have len: "length ps = length evs" using all by (simp add: list_all2_lengthD)
  show ?case
  proof (cases "k = MAX_EVENTS")
    case True
    then show ?thesis using Suc.prems(2) len by (simp add: ret_eval)
  next
    case False
    then have k: "k < MAX_EVENTS" using Suc.prems(3) by simp
    let ?k' = "min (k + EVENT_PAGE_LIMIT) (length evs)"
    obtain v where r: "read_pages E dep start (Suc n) c (take k ps) w =
        (if c = Some (cur ?k') then (Inr (AllPages (take ?k' ps)), v) else read_pages E dep start n (Some (cur ?k')) (take ?k' ps) v)"
      using read_pages_round [OF srv all Suc.prems(1,2) k] by blast
    show ?thesis
    proof (cases "c = Some (cur ?k')")
      case True
      then have "?k' = k" using Suc.prems(1) srv by (auto simp: serves_events_def dest: injD)
      then have "k = length evs" by (auto simp: EVENT_PAGE_LIMIT_def min_def split: if_splits)
      then show ?thesis using r True k len by simp
    next
      case False
      have "?k' \<le> MAX_EVENTS"
        using Suc.prems(4) k by (auto simp: EVENT_PAGE_LIMIT_def MAX_EVENTS_def elim!: dvdE)
      moreover have "EVENT_PAGE_LIMIT dvd ?k' \<or> ?k' = length evs"
        using Suc.prems(2,4) by (auto simp: min_def)
      moreover have "MAX_EVENTS \<le> ?k' + EVENT_PAGE_LIMIT * n \<or> ?k' = length evs"
        using Suc.prems(2,5) by (auto simp: min_def)
      ultimately show ?thesis using Suc.IH [of "Some (cur ?k')" ?k' v] r False by simp
    qed
  qed
qed

text \<open>The whole read. What it returns is cached in memory, and on disk under the contract of the network
  that is active at the end, whichever contract it was requested from.\<close>

lemma fetch_stored:
  assumes "serves_events E cur cid (max 1 (latest - EVENT_LEDGERS_WINDOW)) evs" and "list_all2 (parses E) evs ps"
    and "\<And>hs. e_getLedger E hs = Inr latest" and "w_eventCache w = None"
  shows "\<exists>w' hs h p. fetchContractEvents E w = (Inr (take MAX_EVENTS ps), w') \<and>
    w_log w' = hs @ [(ASetItem (eventDiskKey (e_dep E hs)) (StEvents p), h)] \<and> ps_contractId p = d_contractId (e_dep E hs) \<and>
    ps_events p = take MAX_EVENTS ps \<and> w_eventCache w' = Some (e_now E hs, take MAX_EVENTS ps)"
proof -
  let ?start = "max 1 (latest - EVENT_LEDGERS_WINDOW)"
  let ?m = "seqM (rpcServer E) (\<lambda>server. ask (AGetLedger server) (e_getLedger E))"
  have m: "?m v = (Inr latest, record_action (AGetLedger (e_url E (w_log v))) v)" for v
    using assms(3) by (simp add: rpcServer_def eff_eval)
  obtain u where pages: "read_pages E (e_dep E (w_log w)) ?start MAX_PAGES None [] (record_action (AGetLedger (e_url E (w_log w))) w) =
      (Inr (AllPages (take MAX_EVENTS ps)), u)"
    using read_pages_served [OF assms(1,2), of None 0 MAX_PAGES "e_dep E (w_log w)" "record_action (AGetLedger (e_url E (w_log w))) w"]
    by (auto simp: MAX_EVENTS_def EVENT_PAGE_LIMIT_def MAX_PAGES_def)
  have "fetchContractEvents E w = fetch_events E (e_dep E (w_log w)) w"
    using assms(4) by (simp add: fetchContractEvents_def seqM_eval getM_eval)
  also have "\<dots> = (Inr (take MAX_EVENTS ps), record_action (ASetItem (eventDiskKey (e_dep E (w_log u)))
      (StEvents \<lparr>ps_contractId = d_contractId (e_dep E (w_log u)), ps_fetchedAt = e_now E (w_log u), ps_latestLedger = latest,
        ps_startLedger = ?start, ps_events = take MAX_EVENTS ps\<rparr>)) (u\<lparr>w_eventCache := Some (e_now E (w_log u), take MAX_EVENTS ps)\<rparr>))"
    using pages
    by (simp add: fetch_events_def seqM_eval [of "attemptM _"] attemptM_eval failover_first [OF m] Let_def
          seqM_eval [of "read_pages _ _ _ _ _ _"] seqM_eval [of "updM _"] seqM_eval [of "getM _"] getM_eval
          setEventCache_def updM_eval writeDiskCache_def getActiveDeployment_def ask_eval ret_eval seqM_eval)
  finally show ?thesis by (intro exI conjI) (auto simp: record_action_def)
qed

lemma fetch_served:
  assumes "serves_events E cur cid (max 1 (latest - EVENT_LEDGERS_WINDOW)) evs" and "list_all2 (parses E) evs ps"
    and "\<And>hs. e_getLedger E hs = Inr latest" and "w_eventCache w = None"
  shows "fst (fetchContractEvents E w) = Inr (take MAX_EVENTS ps)"
  using fetch_stored [OF assms] by auto

text \<open>Until it is stale, the memory cache answers, whichever network is active by then.\<close>

lemma fetch_cached:
  assumes "w_eventCache w = Some (at_ms, data)" and "e_now E (w_log w) - at_ms < EVENT_CACHE_MS"
  shows "fetchContractEvents E w = (Inr data, w)"
  using assms by (simp add: fetchContractEvents_def seqM_eval getM_eval ret_eval)

text \<open>C17: the history stops at a thousand events, and keeps the oldest. Against a server that serves the
  events of the window in order, from whatever network, \<^verbatim>\<open>fetchContractEvents\<close> without a fresh cache
  returns exactly the first \<open>MAX_EVENTS\<close> of them: all of them in their order when there are no more,
  and otherwise without the newest ones, whoever they belong to.\<close>
theorem events_cut_at_thousand:
  assumes "serves_events E cur cid (max 1 (latest - EVENT_LEDGERS_WINDOW)) evs" and "list_all2 (parses E) evs ps"
    and "\<And>hs. e_getLedger E hs = Inr latest" and "w_eventCache w = None"
  shows "fst (fetchContractEvents E w) = Inr (take MAX_EVENTS ps)"
  using assms by (rule fetch_served)

text \<open>A server with 1001 equal deposits, and cursors that are positions in unary.\<close>

definition busy_events :: "event_response list" where
  "busy_events = replicate 1001 \<lparr>er_topic = [''d'', ''o''], er_data = ''v'', er_txHash = ''h'', er_closedAt = ''t'', er_closed_sec = 9\<rparr>"

definition unary :: "nat \<Rightarrow> string" where
  "unary k = replicate (Suc k) (CHR ''1'')"

definition busy_env :: env where
  "busy_env = demo_env\<lparr>
     e_getEvents := \<lambda>hs. case fst (last hs) of
         AGetEvents _ _ (FromLedger _) _ \<Rightarrow> Inr (page_at unary busy_events 0)
       | AGetEvents _ _ (FromCursor c) _ \<Rightarrow> Inr (page_at unary busy_events (length c - 1))
       | _ \<Rightarrow> Inl (JsError ''no''),
     e_native := \<lambda>x. if x = ''d'' then Inr (NStr ''deposit'') else if x = ''v'' then Inr (NVec [NInt 3, NInt 10000000])
       else Inr (NStr ''G'')\<rparr>"

lemma busy_serves: "serves_events busy_env unary ''C'' start busy_events"
  by (auto simp: serves_events_def busy_env_def demo_env_def unary_def intro!: injI)

theorem events_cut_at_thousand_witness:
  "\<exists>ps. fst (fetchContractEvents busy_env demo_world) = Inr ps \<and> length ps = 1000"
proof -
  define p where "p = \<lparr>ev_tx_id = ''h'', ev_vault_id = int_string 3, ev_owner = ''G'', ev_kind = KDeposit, ev_amount = stroopsToXlm 10000000,
    ev_note = [], ev_timestamp = 9, ev_created_at = ''t''\<rparr>"
  have "parses busy_env \<lparr>er_topic = [''d'', ''o''], er_data = ''v'', er_txHash = ''h'', er_closedAt = ''t'', er_closed_sec = 9\<rparr> p"
    by (simp add: parses_def parseEvent_def busy_env_def decodeKind_def js_BigInt_def js_at_def p_def Let_def)
  then have "list_all2 (parses busy_env) busy_events (replicate 1001 p)"
    by (simp add: busy_events_def list_all2_conv_all_nth)
  then have "fst (fetchContractEvents busy_env demo_world) = Inr (take MAX_EVENTS (replicate 1001 p))"
    by (rule events_cut_at_thousand [OF busy_serves]) (simp_all add: busy_env_def demo_env_def demo_world_def)
  then show ?thesis by (simp add: MAX_EVENTS_def)
qed

end
