(* ===== verification/Vault_Contract.thy ===== *)
theory Vault_Contract imports Xlm_Vault "HOL-Library.Word" begin

text \<open>
  \<^verbatim>\<open>contracts/xlm_vault/src/lib.rs\<close>: the deployed contract. Its storage is a record, its functions are
  effects that return, fail with an \<^verbatim>\<open>Error\<close> or trap (a failed authorisation, a panic, an overflow
  under \<^verbatim>\<open>overflow-checks\<close>); an invocation that does not return leaves the ledger as it was. The
  token contract and the host's clock and authorisations are parameters. Identifiers and times are
  64-bit words, amounts are integers whose range the additions check.
\<close>

section \<open>Storage\<close>

type_synonym address = string
type_synonym u64 = "64 word"

record chain_vault =
  vault_id :: u64
  owner :: address
  vname :: string
  balance :: int
  unlock_timestamp :: u64
  created_timestamp :: u64
  withdrawn :: bool

datatype chain_event =
    CreateEvent address u64 int u64
  | DepositEvent address u64 int
  | ExtendEvent address u64 u64
  | WithdrawEvent address u64 int

text \<open>Instance storage (\<^verbatim>\<open>Token\<close>, \<^verbatim>\<open>NextId\<close>), persistent storage (\<^verbatim>\<open>Vault\<close>, \<^verbatim>\<open>Owned\<close>), the published
  events and the state of the token contracts.\<close>

record 'tok ledger =
  lg_token :: "address option"
  lg_next :: "u64 option"
  lg_vaults :: "u64 \<Rightarrow> chain_vault option"
  lg_owned :: "address \<Rightarrow> u64 list option"
  lg_events :: "chain_event list"
  lg_tok :: 'tok

text \<open>The token contracts and this contract's own address; the clock and the authorisations of one
  invocation.\<close>

record 'tok site =
  st_transfer :: "address \<Rightarrow> address \<Rightarrow> address \<Rightarrow> int \<Rightarrow> 'tok \<Rightarrow> 'tok option"
  st_balance :: "address \<Rightarrow> address \<Rightarrow> 'tok \<Rightarrow> int"
  st_self :: address

record invocation =
  in_now :: u64
  in_auth :: "address \<Rightarrow> bool"

datatype abort = Trap | Fail contract_error

type_synonym ('tok, 'a) chain = "('tok ledger, abort, 'a) eff"

section \<open>Helpers\<close>

definition require_auth :: "invocation \<Rightarrow> address \<Rightarrow> ('tok, unit) chain" where
  "require_auth I a = (if in_auth I a then ret () else throw Trap)"

definition guard :: "bool \<Rightarrow> contract_error \<Rightarrow> ('tok, unit) chain" where
  "guard b e = (if b then throw (Fail e) else ret ())"

text \<open>\<^verbatim>\<open>load\<close>\<close>

definition load_vault :: "u64 \<Rightarrow> ('tok, chain_vault) chain" where
  "load_vault i = seqM (getM (\<lambda>s. lg_vaults s i)) (\<lambda>r. case r of None \<Rightarrow> throw (Fail VaultNotFound) | Some v \<Rightarrow> ret v)"

definition save_vault :: "u64 \<Rightarrow> chain_vault \<Rightarrow> ('tok, unit) chain" where
  "save_vault i v = updM (\<lambda>s. s\<lparr>lg_vaults := (lg_vaults s)(i := Some v)\<rparr>)"

definition publish :: "chain_event \<Rightarrow> ('tok, unit) chain" where
  "publish e = updM (\<lambda>s. s\<lparr>lg_events := lg_events s @ [e]\<rparr>)"

definition token_of :: "('tok, address) chain" where
  "token_of = seqM (getM lg_token) (\<lambda>r. case r of None \<Rightarrow> throw Trap | Some t \<Rightarrow> ret t)"

definition transfer :: "'tok site \<Rightarrow> address \<Rightarrow> address \<Rightarrow> int \<Rightarrow> ('tok, unit) chain" where
  "transfer P src dst amount =
     seqM token_of (\<lambda>t s. case st_transfer P t src dst amount (lg_tok s) of
        None \<Rightarrow> (Inl Trap, s)
      | Some tok \<Rightarrow> (Inr (), s\<lparr>lg_tok := tok\<rparr>))"

definition pull :: "'tok site \<Rightarrow> address \<Rightarrow> int \<Rightarrow> ('tok, unit) chain" where
  "pull P src amount = transfer P src (st_self P) amount"

definition push :: "'tok site \<Rightarrow> address \<Rightarrow> int \<Rightarrow> ('tok, unit) chain" where
  "push P dst amount = transfer P (st_self P) dst amount"

definition checked_add :: "u64 \<Rightarrow> u64 \<Rightarrow> u64 option" where
  "checked_add a b = (if unat a + unat b < 2 ^ 64 then Some (a + b) else None)"

definition I128_MAX :: int where
  "I128_MAX = 2 ^ 127 - 1"

section \<open>Functions\<close>

definition init :: "address \<Rightarrow> ('tok, unit) chain" where
  "init token =
     seqM (getM lg_token) (\<lambda>t.
     seqM (guard (t \<noteq> None) AlreadyInitialised) (\<lambda>_.
     updM (\<lambda>s. s\<lparr>lg_token := Some token, lg_next := Some 0\<rparr>)))"

definition create_vault :: "'tok site \<Rightarrow> invocation \<Rightarrow> address \<Rightarrow> string \<Rightarrow> int \<Rightarrow> u64 \<Rightarrow> ('tok, u64) chain" where
  "create_vault P I own nm initial_deposit unlock =
     seqM (require_auth I own) (\<lambda>_.
     seqM (guard (initial_deposit \<le> 0) InvalidAmount) (\<lambda>_.
     seqM (guard (unlock \<le> in_now I) InvalidTimestamp) (\<lambda>_.
     seqM (pull P own initial_deposit) (\<lambda>_.
     seqM (getM (\<lambda>s. case lg_next s of None \<Rightarrow> 0 | Some n \<Rightarrow> n)) (\<lambda>i.
     case checked_add i 1 of
       None \<Rightarrow> throw (Fail InvalidAmount)
     | Some next \<Rightarrow>
       seqM (updM (\<lambda>s. s\<lparr>lg_next := Some next\<rparr>)) (\<lambda>_.
       seqM (save_vault i \<lparr>vault_id = i, owner = own, vname = nm, balance = initial_deposit,
          unlock_timestamp = unlock, created_timestamp = in_now I, withdrawn = False\<rparr>) (\<lambda>_.
       seqM (updM (\<lambda>s. s\<lparr>lg_owned := (lg_owned s)(own := Some ((case lg_owned s own of None \<Rightarrow> [] | Some is \<Rightarrow> is) @ [i]))\<rparr>)) (\<lambda>_.
       seqM (publish (CreateEvent own i initial_deposit unlock)) (\<lambda>_.
       ret i)))))))))"

definition deposit_into :: "'tok site \<Rightarrow> invocation \<Rightarrow> address \<Rightarrow> u64 \<Rightarrow> int \<Rightarrow> ('tok, unit) chain" where
  "deposit_into P I caller i amount =
     seqM (require_auth I caller) (\<lambda>_.
     seqM (guard (amount \<le> 0) InvalidAmount) (\<lambda>_.
     seqM (load_vault i) (\<lambda>v.
     seqM (guard (owner v \<noteq> caller) NotOwner) (\<lambda>_.
     seqM (guard (withdrawn v) AlreadyWithdrawn) (\<lambda>_.
     seqM (pull P caller amount) (\<lambda>_.
     if balance v + amount > I128_MAX then throw Trap
     else seqM (save_vault i (v\<lparr>balance := balance v + amount\<rparr>)) (\<lambda>_.
          publish (DepositEvent caller i amount))))))))"

definition extend_lock :: "invocation \<Rightarrow> address \<Rightarrow> u64 \<Rightarrow> u64 \<Rightarrow> ('tok, u64) chain" where
  "extend_lock I caller i additional_seconds =
     seqM (require_auth I caller) (\<lambda>_.
     seqM (guard (additional_seconds = 0) ShortenForbidden) (\<lambda>_.
     seqM (load_vault i) (\<lambda>v.
     seqM (guard (owner v \<noteq> caller) NotOwner) (\<lambda>_.
     seqM (guard (withdrawn v) AlreadyWithdrawn) (\<lambda>_.
     case checked_add (unlock_timestamp v) additional_seconds of
       None \<Rightarrow> throw (Fail InvalidTimestamp)
     | Some u \<Rightarrow>
       seqM (save_vault i (v\<lparr>unlock_timestamp := u\<rparr>)) (\<lambda>_.
       seqM (publish (ExtendEvent caller i u)) (\<lambda>_.
       ret u)))))))"

definition withdraw_all :: "'tok site \<Rightarrow> invocation \<Rightarrow> address \<Rightarrow> u64 \<Rightarrow> ('tok, int) chain" where
  "withdraw_all P I caller i =
     seqM (require_auth I caller) (\<lambda>_.
     seqM (load_vault i) (\<lambda>v.
     seqM (guard (owner v \<noteq> caller) NotOwner) (\<lambda>_.
     seqM (guard (withdrawn v) AlreadyWithdrawn) (\<lambda>_.
     seqM (guard (in_now I < unlock_timestamp v) StillLocked) (\<lambda>_.
     seqM (save_vault i (v\<lparr>balance := 0, withdrawn := True\<rparr>)) (\<lambda>_.
     seqM (push P caller (balance v)) (\<lambda>_.
     seqM (publish (WithdrawEvent caller i (balance v))) (\<lambda>_.
     ret (balance v)))))))))"

definition get_vault :: "u64 \<Rightarrow> ('tok, chain_vault) chain" where
  "get_vault i = load_vault i"

definition list_owned :: "address \<Rightarrow> ('tok, u64 list) chain" where
  "list_owned a = getM (\<lambda>s. case lg_owned s a of None \<Rightarrow> [] | Some is \<Rightarrow> is)"

section \<open>Invocations and the ledger's history\<close>

datatype contract_call =
    Init address
  | CreateVault address string int u64
  | Deposit address u64 int
  | ExtendLock address u64 u64
  | Withdraw address u64
  | GetVault u64
  | ListOwned address

datatype contract_value = VUnit | VId u64 | VTime u64 | VAmount int | VVault chain_vault | VIds "u64 list"

definition mapM :: "('a \<Rightarrow> 'b) \<Rightarrow> ('w, 'e, 'a) eff \<Rightarrow> ('w, 'e, 'b) eff" where
  "mapM f m = seqM m (\<lambda>x. ret (f x))"

fun dispatch :: "'tok site \<Rightarrow> invocation \<Rightarrow> contract_call \<Rightarrow> ('tok, contract_value) chain" where
  "dispatch P I (Init t) = mapM (\<lambda>_. VUnit) (init t)"
| "dispatch P I (CreateVault a nm amount u) = mapM VId (create_vault P I a nm amount u)"
| "dispatch P I (Deposit a i amount) = mapM (\<lambda>_. VUnit) (deposit_into P I a i amount)"
| "dispatch P I (ExtendLock a i secs) = mapM VTime (extend_lock I a i secs)"
| "dispatch P I (Withdraw a i) = mapM VAmount (withdraw_all P I a i)"
| "dispatch P I (GetVault i) = mapM VVault (get_vault i)"
| "dispatch P I (ListOwned a) = mapM VIds (list_owned a)"

text \<open>The host commits the effects of an invocation only when it returns.\<close>

definition invoke :: "'tok site \<Rightarrow> invocation \<Rightarrow> contract_call \<Rightarrow> ('tok, contract_value) chain" where
  "invoke P I c = (\<lambda>s. case dispatch P I c s of (Inr x, s') \<Rightarrow> (Inr x, s') | (Inl e, _) \<Rightarrow> (Inl e, s))"

text \<open>
  The ledger over time: the contract is invoked by anyone, with any arguments and any authorisation
  but its own (it never calls itself), the clock does not go back, and between invocations the token
  contracts run as they like, except that the contract's own balance does not shrink without it.
\<close>

inductive chain_step :: "'tok site \<Rightarrow> u64 \<times> 'tok ledger \<Rightarrow> u64 \<times> 'tok ledger \<Rightarrow> bool" for P where
  call: "t \<le> in_now I \<Longrightarrow> \<not> in_auth I (st_self P) \<Longrightarrow> chain_step P (t, s) (in_now I, snd (invoke P I c s))"
| outside: "t \<le> t' \<Longrightarrow> (\<And>k. st_balance P k (st_self P) (lg_tok s) \<le> st_balance P k (st_self P) tok) \<Longrightarrow>
    chain_step P (t, s) (t', s\<lparr>lg_tok := tok\<rparr>)"

definition deployed :: "'tok \<Rightarrow> 'tok ledger" where
  "deployed tok = \<lparr>lg_token = None, lg_next = None, lg_vaults = (\<lambda>_. None), lg_owned = (\<lambda>_. None), lg_events = [], lg_tok = tok\<rparr>"

inductive on_chain :: "'tok site \<Rightarrow> u64 \<times> 'tok ledger \<Rightarrow> bool" for P where
  start: "(\<And>k. 0 \<le> st_balance P k (st_self P) tok) \<Longrightarrow> on_chain P (t, deployed tok)"
| step: "on_chain P x \<Longrightarrow> chain_step P x y \<Longrightarrow> on_chain P y"

inductive_cases chain_stepE: "chain_step P (t, s) (t', s')"

definition chain_start :: "'tok site \<Rightarrow> u64 \<times> 'tok ledger \<Rightarrow> bool" where
  "chain_start P x \<longleftrightarrow> (\<exists>t tok. x = (t, deployed tok) \<and> (\<forall>k. 0 \<le> st_balance P k (st_self P) tok))"

interpretation chain: step_system "on_chain P" "chain_start P" "chain_step P" for P :: "'tok site"
proof unfold_locales
  show "on_chain P y" if "on_chain P x" "chain_step P x y" for x y
    using that by (rule on_chain.step)
  show "I x" if "on_chain P x" "\<And>y. chain_start P y \<Longrightarrow> I y" "\<And>y z. on_chain P y \<Longrightarrow> I y \<Longrightarrow> chain_step P y z \<Longrightarrow> I z" for x I
    using that(1) by induction (use that(2,3) chain_start_def in blast)+
qed

section \<open>What a returning function did\<close>

lemmas chain_eval = eff_eval require_auth_def guard_def load_vault_def save_vault_def publish_def token_of_def
  transfer_def pull_def push_def mapM_def

lemma invoke_cases:
  assumes "invoke P I c s = (r, s')"
  obtains (returned) x where "r = Inr x" "dispatch P I c s = (Inr x, s')" | (aborted) e where "r = Inl e" "s' = s"
  using assms by (auto simp: invoke_def split: prod.splits sum.splits)

lemma init_returns:
  assumes "init t s = (Inr x, s')"
  shows "lg_token s = None" "s' = s\<lparr>lg_token := Some t, lg_next := Some 0\<rparr>"
  using assms by (auto simp: init_def chain_eval split: if_splits)

definition next_id :: "'tok ledger \<Rightarrow> u64" where
  "next_id s = (case lg_next s of None \<Rightarrow> 0 | Some n \<Rightarrow> n)"

lemma create_vault_returns:
  assumes "create_vault P I own nm amount u s = (Inr i, s')"
  shows "in_auth I own" "0 < amount" "in_now I < u" "i = next_id s" "unat i + 1 < 2 ^ 64"
    "\<exists>k tok. lg_token s = Some k \<and> st_transfer P k own (st_self P) amount (lg_tok s) = Some tok \<and>
       s' = s\<lparr>lg_tok := tok, lg_next := Some (i + 1),
          lg_vaults := (lg_vaults s)(i := Some \<lparr>vault_id = i, owner = own, vname = nm, balance = amount,
            unlock_timestamp = u, created_timestamp = in_now I, withdrawn = False\<rparr>),
          lg_owned := (lg_owned s)(own := Some ((case lg_owned s own of None \<Rightarrow> [] | Some is \<Rightarrow> is) @ [i])),
          lg_events := lg_events s @ [CreateEvent own i amount u]\<rparr>"
  using assms
  by (auto simp: create_vault_def chain_eval checked_add_def next_id_def not_le split: if_splits option.splits prod.splits sum.splits)

lemma deposit_returns:
  assumes "deposit_into P I a i amount s = (Inr x, s')"
  shows "in_auth I a" "0 < amount"
    "\<exists>v k tok. lg_vaults s i = Some v \<and> owner v = a \<and> \<not> withdrawn v \<and> balance v + amount \<le> I128_MAX \<and>
       lg_token s = Some k \<and> st_transfer P k a (st_self P) amount (lg_tok s) = Some tok \<and>
       s' = s\<lparr>lg_tok := tok, lg_vaults := (lg_vaults s)(i := Some (v\<lparr>balance := balance v + amount\<rparr>)),
          lg_events := lg_events s @ [DepositEvent a i amount]\<rparr>"
  using assms by (auto simp: deposit_into_def chain_eval not_le split: if_splits option.splits prod.splits sum.splits)

lemma extend_returns:
  assumes "extend_lock I a i secs s = (Inr x, s')"
  shows "in_auth I a" "secs \<noteq> 0"
    "\<exists>v. lg_vaults s i = Some v \<and> owner v = a \<and> \<not> withdrawn v \<and> unat (unlock_timestamp v) + unat secs < 2 ^ 64 \<and>
       x = unlock_timestamp v + secs \<and>
       s' = s\<lparr>lg_vaults := (lg_vaults s)(i := Some (v\<lparr>unlock_timestamp := unlock_timestamp v + secs\<rparr>)),
          lg_events := lg_events s @ [ExtendEvent a i (unlock_timestamp v + secs)]\<rparr>"
  using assms by (auto simp: extend_lock_def chain_eval checked_add_def split: if_splits option.splits prod.splits sum.splits)

lemma withdraw_returns:
  assumes "withdraw_all P I a i s = (Inr x, s')"
  shows "in_auth I a"
    "\<exists>v k tok. lg_vaults s i = Some v \<and> owner v = a \<and> \<not> withdrawn v \<and> unlock_timestamp v \<le> in_now I \<and> x = balance v \<and>
       lg_token s = Some k \<and> st_transfer P k (st_self P) a (balance v) (lg_tok s) = Some tok \<and>
       s' = s\<lparr>lg_tok := tok, lg_vaults := (lg_vaults s)(i := Some (v\<lparr>balance := 0, withdrawn := True\<rparr>)),
          lg_events := lg_events s @ [WithdrawEvent a i (balance v)]\<rparr>"
  using assms by (auto simp: withdraw_all_def chain_eval not_less split: if_splits option.splits prod.splits sum.splits)

lemma read_returns:
  "snd (get_vault i s) = s" "snd (list_owned a s) = s"
  by (simp_all add: get_vault_def list_owned_def chain_eval split: option.splits)

lemma mapM_returns: "mapM f m s = (Inr y, s') \<longleftrightarrow> (\<exists>x. m s = (Inr x, s') \<and> y = f x)"
  by (auto simp: mapM_def chain_eval split: prod.splits sum.splits)

text \<open>Every invocation leaves the ledger as it was or does what one of the five writing functions does.\<close>

lemma invoke_effect:
  assumes "invoke P I c s = (r, s')"
  obtains (same) "s' = s"
  | (init) t where "c = Init t" "lg_token s = None" "s' = s\<lparr>lg_token := Some t, lg_next := Some 0\<rparr>"
  | (create) own nm amount u i where "c = CreateVault own nm amount u" "create_vault P I own nm amount u s = (Inr i, s')" "r = Inr (VId i)"
  | (deposit) a i amount x where "c = Deposit a i amount" "deposit_into P I a i amount s = (Inr x, s')"
  | (extend) a i secs x where "c = ExtendLock a i secs" "extend_lock I a i secs s = (Inr x, s')"
  | (withdraw) a i x where "c = Withdraw a i" "withdraw_all P I a i s = (Inr x, s')" "r = Inr (VAmount x)"
  using assms
proof (cases rule: invoke_cases)
  case (returned x)
  show thesis
  proof (cases c)
    case (Init t)
    then show thesis using returned init_returns [of t s] by (intro that(2)) (auto simp: mapM_returns)
  next
    case (CreateVault own nm amount u)
    then show thesis using returned by (auto simp: mapM_returns intro: that(3))
  next
    case (Deposit a i amount)
    then show thesis using returned by (auto simp: mapM_returns intro: that(4))
  next
    case (ExtendLock a i secs)
    then show thesis using returned by (auto simp: mapM_returns intro: that(5))
  next
    case (Withdraw a i)
    then show thesis using returned by (auto simp: mapM_returns intro: that(6))
  next
    case (GetVault i)
    then show thesis using returned read_returns(1) [of i s] by (intro that(1)) (auto simp: mapM_returns)
  next
    case (ListOwned a)
    then show thesis using returned read_returns(2) [of a s] by (intro that(1)) (auto simp: mapM_returns)
  qed
qed (rule that(1))

section \<open>The invariant of the ledger\<close>

definition locked_in :: "'tok ledger \<Rightarrow> u64 \<Rightarrow> int" where
  "locked_in s i = (case lg_vaults s i of None \<Rightarrow> 0 | Some v \<Rightarrow> balance v)"

definition owned_by :: "'tok ledger \<Rightarrow> address \<Rightarrow> u64 list" where
  "owned_by s a = (case lg_owned s a of None \<Rightarrow> [] | Some is \<Rightarrow> is)"

text \<open>What the vaults hold together.\<close>

definition total_locked :: "'tok ledger \<Rightarrow> int" where
  "total_locked s = (\<Sum>i\<in>UNIV. locked_in s i)"

definition vault_ok :: "u64 \<Rightarrow> u64 \<Rightarrow> chain_vault \<Rightarrow> bool" where
  "vault_ok t i v \<longleftrightarrow> vault_id v = i \<and> created_timestamp v \<le> t \<and> created_timestamp v < unlock_timestamp v \<and>
     (if withdrawn v then balance v = 0 else 0 < balance v)"

definition ledger_ok :: "'tok site \<Rightarrow> u64 \<times> 'tok ledger \<Rightarrow> bool" where
  "ledger_ok P x \<longleftrightarrow> (case x of (t, s) \<Rightarrow>
     (lg_next s = None \<longleftrightarrow> lg_token s = None) \<and>
     (\<forall>i v. lg_vaults s i = Some v \<longrightarrow> vault_ok t i v) \<and>
     (\<forall>i. lg_vaults s i \<noteq> None \<longleftrightarrow> i < next_id s) \<and>
     (\<forall>a. distinct (owned_by s a) \<and> set (owned_by s a) = {i. \<exists>v. lg_vaults s i = Some v \<and> owner v = a}) \<and>
     (\<forall>k. lg_token s = None \<or> lg_token s = Some k \<longrightarrow> total_locked s \<le> st_balance P k (st_self P) (lg_tok s)))"

text \<open>What a token transfer does to the contract's own balance: it gains what others send and pays what
  it sends.\<close>

definition token_laws :: "'tok site \<Rightarrow> bool" where
  "token_laws P \<longleftrightarrow> (\<forall>k a b amount tok tok'. st_transfer P k a b amount tok = Some tok' \<longrightarrow>
     (\<forall>c. st_balance P k c tok' = st_balance P k c tok - (if c = a then amount else 0) + (if c = b then amount else 0)))"

lemma token_lawsD:
  "token_laws P \<Longrightarrow> st_transfer P k a b amount tok = Some tok' \<Longrightarrow>
    st_balance P k c tok' = st_balance P k c tok - (if c = a then amount else 0) + (if c = b then amount else 0)"
  by (auto simp: token_laws_def)

lemma locked_upd: "locked_in (s\<lparr>lg_vaults := (lg_vaults s)(i := Some v)\<rparr>) = (locked_in s)(i := balance v)"
  by (auto simp: locked_in_def)

lemma sum_upd: "(\<Sum>i\<in>UNIV. (f(k := x)) i) = (\<Sum>i\<in>UNIV. f i) - f k + (x :: int)" for k :: u64
proof -
  have "(\<Sum>i\<in>UNIV. (f(k := x)) i) = x + (\<Sum>i\<in>UNIV - {k}. f i)" by (simp add: sum.remove [of UNIV k])
  moreover have "(\<Sum>i\<in>UNIV. f i) = f k + (\<Sum>i\<in>UNIV - {k}. f i)" by (simp add: sum.remove [of UNIV k])
  ultimately show ?thesis by simp
qed

lemma total_upd:
  assumes "lg_vaults s' = (lg_vaults s)(i := Some v)"
  shows "total_locked s' = total_locked s - locked_in s i + balance v"
proof -
  have "locked_in s' = (locked_in s)(i := balance v)" using assms by (auto simp: locked_in_def)
  then show ?thesis by (simp only: total_locked_def sum_upd)
qed

lemma less_next: "unat i + 1 < 2 ^ 64 \<Longrightarrow> j < i + 1 \<longleftrightarrow> j < i \<or> j = i" for i j :: u64
proof -
  assume "unat i + 1 < 2 ^ 64"
  then have "unat (i + 1) = unat i + 1" by (subst unat_add_lem [THEN iffD1]) simp_all
  then show ?thesis by (auto simp: word_less_nat_alt word_unat_eq_iff less_Suc_eq)
qed

lemma ledger_okD:
  assumes "ledger_ok P (t, s)"
  shows "lg_next s = None \<longleftrightarrow> lg_token s = None" "lg_vaults s i = Some v \<Longrightarrow> vault_ok t i v"
    "lg_vaults s i \<noteq> None \<longleftrightarrow> i < next_id s"
    "distinct (owned_by s a)"
    "set (owned_by s a) = {i. \<exists>v. lg_vaults s i = Some v \<and> owner v = a}"
    "lg_token s = None \<or> lg_token s = Some k \<Longrightarrow> total_locked s \<le> st_balance P k (st_self P) (lg_tok s)"
  using assms unfolding ledger_ok_def prod.case Let_def by blast+

lemma ledger_okI:
  assumes "lg_next s = None \<longleftrightarrow> lg_token s = None" "\<And>i v. lg_vaults s i = Some v \<Longrightarrow> vault_ok t i v"
    "\<And>i. lg_vaults s i \<noteq> None \<longleftrightarrow> i < next_id s"
    "\<And>a. distinct (owned_by s a)"
    "\<And>a. set (owned_by s a) = {i. \<exists>v. lg_vaults s i = Some v \<and> owner v = a}"
    "\<And>k. lg_token s = None \<or> lg_token s = Some k \<Longrightarrow> total_locked s \<le> st_balance P k (st_self P) (lg_tok s)"
  shows "ledger_ok P (t, s)"
  using assms unfolding ledger_ok_def prod.case Let_def by blast

lemma vault_ok_later: "vault_ok t i v \<Longrightarrow> t \<le> t' \<Longrightarrow> vault_ok t' i v"
  by (auto simp: vault_ok_def)

lemma ledger_ok_later: "ledger_ok P (t, s) \<Longrightarrow> t \<le> t' \<Longrightarrow> ledger_ok P (t', s)"
  by (rule ledger_okI) (auto dest: ledger_okD intro: vault_ok_later)

lemma token_of_vault: "ledger_ok P (t, s) \<Longrightarrow> lg_vaults s i = Some v \<Longrightarrow> lg_token s \<noteq> None"
  using ledger_okD(1) [of P t s] ledger_okD(3) [of P t s i] by (auto simp: next_id_def)

text \<open>An update of one vault that keeps its owner.\<close>

lemma ledger_ok_upd:
  assumes ok: "ledger_ok P (t, s)" and v: "lg_vaults s i = Some v" and v': "vault_ok t i v'" "owner v' = owner v"
    and s': "lg_vaults s' = (lg_vaults s)(i := Some v')" "lg_owned s' = lg_owned s" "lg_next s' = lg_next s" "lg_token s' = lg_token s"
    and tok: "\<And>k. lg_token s = Some k \<Longrightarrow>
      st_balance P k (st_self P) (lg_tok s') \<ge> st_balance P k (st_self P) (lg_tok s) - balance v + balance v'"
  shows "ledger_ok P (t, s')"
proof (rule ledger_okI)
  fix k assume "lg_token s' = None \<or> lg_token s' = Some k"
  then have k: "lg_token s' = Some k" using token_of_vault [OF ok v] s'(4) by simp
  have "locked_in s i = balance v" by (simp add: locked_in_def v)
  then have "total_locked s' = total_locked s - balance v + balance v'" by (simp add: total_upd [OF s'(1)])
  then show "total_locked s' \<le> st_balance P k (st_self P) (lg_tok s')"
    using tok [of k] ledger_okD(6) [OF ok, of k] k s'(4) by simp
next
  fix j show "lg_vaults s' j \<noteq> None \<longleftrightarrow> j < next_id s'"
    using ledger_okD(3) [OF ok, of j] ledger_okD(3) [OF ok, of i] v s' by (simp add: next_id_def)
next
  fix a show "set (owned_by s' a) = {j. \<exists>v. lg_vaults s' j = Some v \<and> owner v = a}"
    using ledger_okD(5) [OF ok, of a] v v'(2) s' by (auto simp: owned_by_def)
qed (use ledger_okD(1,2,4) [OF ok] s' v' in \<open>auto simp: owned_by_def split: if_splits\<close>)

lemma ledger_ok_create:
  assumes ok: "ledger_ok P (t, s)" and laws: "token_laws P" and t: "t = in_now I" and self: "\<not> in_auth I (st_self P)"
    and run: "create_vault P I own nm amount u s = (Inr i, s')"
  shows "ledger_ok P (t, s')"
proof -
  note r = create_vault_returns [OF run]
  let ?v = "\<lparr>vault_id = i, owner = own, vname = nm, balance = amount, unlock_timestamp = u, created_timestamp = in_now I, withdrawn = False\<rparr>"
  obtain k tok where k: "lg_token s = Some k" "st_transfer P k own (st_self P) amount (lg_tok s) = Some tok"
    and s': "lg_tok s' = tok" "lg_next s' = Some (i + 1)" "lg_vaults s' = (lg_vaults s)(i := Some ?v)"
      "lg_owned s' = (lg_owned s)(own := Some (owned_by s own @ [i]))" "lg_token s' = lg_token s"
    using r(6) by (auto simp: owned_by_def)
  have fresh: "lg_vaults s i = None" using ledger_okD(3) [OF ok, of i] r(4) by auto
  have own: "own \<noteq> st_self P" using r(1) self by auto
  show ?thesis
  proof (rule ledger_okI)
    fix j show "lg_vaults s' j \<noteq> None \<longleftrightarrow> j < next_id s'"
      using ledger_okD(3) [OF ok, of j] r(4) less_next [OF r(5), of j] by (simp add: next_id_def s'(2,3))
  next
    fix j v assume "lg_vaults s' j = Some v"
    then show "vault_ok t j v" using ledger_okD(2) [OF ok, of j v] r(2,3) t by (auto simp: s'(3) vault_ok_def split: if_splits)
  next
    fix a
    have "i \<notin> set (owned_by s own)" using ledger_okD(5) [OF ok, of own] fresh by auto
    then show "distinct (owned_by s' a)" using ledger_okD(4) [OF ok, of a] ledger_okD(4) [OF ok, of own]
      by (auto simp: owned_by_def [of s'] s'(4)) (simp add: owned_by_def)
    have "owned_by s' a = owned_by s a @ (if a = own then [i] else [])" by (simp add: owned_by_def s'(4))
    then show "set (owned_by s' a) = {j. \<exists>v. lg_vaults s' j = Some v \<and> owner v = a}"
      using ledger_okD(5) [OF ok, of a] fresh by (auto simp: s'(3))
  next
    fix k' assume "lg_token s' = None \<or> lg_token s' = Some k'"
    then have k': "k' = k" using s'(5) k(1) by simp
    have "st_balance P k (st_self P) tok = st_balance P k (st_self P) (lg_tok s) + amount"
      using token_lawsD [OF laws k(2), of "st_self P"] own by auto
    moreover have "total_locked s' = total_locked s + amount"
      using total_upd [OF s'(3)] fresh by (simp add: locked_in_def)
    ultimately show "total_locked s' \<le> st_balance P k' (st_self P) (lg_tok s')"
      using ledger_okD(6) [OF ok disjI2 [OF k(1)]] by (simp add: k' s'(1))
  qed (simp add: s'(2,5) k(1))
qed

lemma extend_later: "unat u + unat secs < 2 ^ 64 \<Longrightarrow> u \<le> u + secs" for u secs :: u64
  by (subst word_le_nat_alt, subst unat_add_lem [THEN iffD1]) simp_all

lemma ledger_ok_deposit:
  assumes ok: "ledger_ok P (in_now I, s)" and laws: "token_laws P" and self: "\<not> in_auth I (st_self P)"
    and run: "deposit_into P I a i amount s = (Inr x, s')"
  shows "ledger_ok P (in_now I, s')"
proof -
  note r = deposit_returns [OF run]
  obtain v k tok where v: "lg_vaults s i = Some v" "owner v = a" "\<not> withdrawn v"
    and k: "lg_token s = Some k" "st_transfer P k a (st_self P) amount (lg_tok s) = Some tok"
    and s': "s' = s\<lparr>lg_tok := tok, lg_vaults := (lg_vaults s)(i := Some (v\<lparr>balance := balance v + amount\<rparr>)),
        lg_events := lg_events s @ [DepositEvent a i amount]\<rparr>"
    using r(3) by blast
  have "st_balance P k (st_self P) tok = st_balance P k (st_self P) (lg_tok s) + amount"
    using token_lawsD [OF laws k(2), of "st_self P"] r(1) self by auto
  moreover have "vault_ok (in_now I) i (v\<lparr>balance := balance v + amount\<rparr>)"
    using ledger_okD(2) [OF ok v(1)] v(3) r(2) by (simp add: vault_ok_def)
  ultimately show ?thesis
    using k(1) by (intro ledger_ok_upd [OF ok v(1), where v' = "v\<lparr>balance := balance v + amount\<rparr>"]) (simp_all add: s')
qed

lemma ledger_ok_extend:
  assumes ok: "ledger_ok P (in_now I, s)" and run: "extend_lock I a i secs s = (Inr x, s')"
  shows "ledger_ok P (in_now I, s')"
proof -
  note r = extend_returns [OF run]
  obtain v where v: "lg_vaults s i = Some v" "unat (unlock_timestamp v) + unat secs < 2 ^ 64"
    and s': "s' = s\<lparr>lg_vaults := (lg_vaults s)(i := Some (v\<lparr>unlock_timestamp := unlock_timestamp v + secs\<rparr>)),
        lg_events := lg_events s @ [ExtendEvent a i (unlock_timestamp v + secs)]\<rparr>"
    using r(3) by blast
  have "unlock_timestamp v \<le> unlock_timestamp v + secs" by (rule extend_later [OF v(2)])
  then have "vault_ok (in_now I) i (v\<lparr>unlock_timestamp := unlock_timestamp v + secs\<rparr>)"
    using ledger_okD(2) [OF ok v(1)] by (auto simp: vault_ok_def)
  then show ?thesis
    by (intro ledger_ok_upd [OF ok v(1), where v' = "v\<lparr>unlock_timestamp := unlock_timestamp v + secs\<rparr>"]) (simp_all add: s')
qed

lemma ledger_ok_withdraw:
  assumes ok: "ledger_ok P (in_now I, s)" and laws: "token_laws P" and self: "\<not> in_auth I (st_self P)"
    and run: "withdraw_all P I a i s = (Inr x, s')"
  shows "ledger_ok P (in_now I, s')"
proof -
  note r = withdraw_returns [OF run]
  obtain v k tok where v: "lg_vaults s i = Some v" "owner v = a"
    and k: "lg_token s = Some k" "st_transfer P k (st_self P) a (balance v) (lg_tok s) = Some tok"
    and s': "s' = s\<lparr>lg_tok := tok, lg_vaults := (lg_vaults s)(i := Some (v\<lparr>balance := 0, withdrawn := True\<rparr>)),
        lg_events := lg_events s @ [WithdrawEvent a i (balance v)]\<rparr>"
    using r(2) by blast
  have "st_balance P k (st_self P) tok = st_balance P k (st_self P) (lg_tok s) - balance v"
    using token_lawsD [OF laws k(2), of "st_self P"] r(1) self v(2) by auto
  moreover have "vault_ok (in_now I) i (v\<lparr>balance := 0, withdrawn := True\<rparr>)"
    using ledger_okD(2) [OF ok v(1)] by (simp add: vault_ok_def)
  ultimately show ?thesis
    using k(1) by (intro ledger_ok_upd [OF ok v(1), where v' = "v\<lparr>balance := 0, withdrawn := True\<rparr>"]) (simp_all add: s')
qed

lemma ledger_ok_init:
  assumes ok: "ledger_ok P (u, s)" and run: "lg_token s = None" "s' = s\<lparr>lg_token := Some t, lg_next := Some 0\<rparr>"
  shows "ledger_ok P (u, s')"
proof -
  have n: "next_id s = 0" using ledger_okD(1) [OF ok] run(1) by (simp add: next_id_def)
  have none: "lg_vaults s i = None" for i using ledger_okD(3) [OF ok, of i] n by (simp add: not_less_iff_gr_or_eq)
  have v: "lg_vaults s' = lg_vaults s" "lg_owned s' = lg_owned s" "lg_next s' = Some 0" "lg_token s' = Some t" "lg_tok s' = lg_tok s"
    by (simp_all add: run(2))
  have "total_locked s' = total_locked s" "owned_by s' = owned_by s"
    by (auto simp: total_locked_def locked_in_def owned_by_def v)
  then show ?thesis
    using ledger_okD(4,5) [OF ok] ledger_okD(6) [OF ok, of t] run(1)
    by (intro ledger_okI) (simp_all add: v none next_id_def)
qed

lemma ledger_ok_invoke:
  assumes ok: "ledger_ok P (in_now I, s)" and laws: "token_laws P" and self: "\<not> in_auth I (st_self P)"
  shows "ledger_ok P (in_now I, snd (invoke P I c s))"
proof -
  obtain r s' where run: "invoke P I c s = (r, s')" by (cases "invoke P I c s")
  have "ledger_ok P (in_now I, s')" using run
    by (cases rule: invoke_effect)
      (use ok in \<open>auto intro: ledger_ok_init ledger_ok_create [OF ok laws refl self] ledger_ok_deposit [OF ok laws self]
         ledger_ok_extend [OF ok] ledger_ok_withdraw [OF ok laws self]\<close>)
  then show ?thesis by (simp add: run)
qed

lemma ledger_ok_step:
  assumes "ledger_ok P (t, s)" and laws: "token_laws P" and "chain_step P (t, s) (t', s')"
  shows "ledger_ok P (t', s')"
  using assms(3)
proof cases
  case (call I c)
  then show ?thesis using assms(1) by (auto intro!: ledger_ok_invoke [OF _ laws] elim: ledger_ok_later)
next
  case (outside tok)
  have ok: "ledger_ok P (t', s)" using assms(1) outside by (auto elim: ledger_ok_later)
  have "total_locked (s\<lparr>lg_tok := tok\<rparr>) = total_locked s" "owned_by (s\<lparr>lg_tok := tok\<rparr>) = owned_by s" "next_id (s\<lparr>lg_tok := tok\<rparr>) = next_id s"
    by (auto simp: total_locked_def locked_in_def owned_by_def next_id_def)
  then show ?thesis
    using ledger_okD(1-5) [OF ok] order_trans [OF ledger_okD(6) [OF ok] outside(3)]
    unfolding outside(1) by (intro ledger_okI) simp_all
qed

lemma ledger_ok_start: "chain_start P x \<Longrightarrow> ledger_ok P x"
proof -
  assume "chain_start P x"
  then obtain t tok where x: "x = (t, deployed tok)" "\<And>k. 0 \<le> st_balance P k (st_self P) tok"
    unfolding chain_start_def by blast
  have "total_locked (deployed tok) = 0" by (simp add: total_locked_def locked_in_def deployed_def)
  then show ?thesis using x by (auto intro!: ledger_okI simp: deployed_def next_id_def owned_by_def)
qed

text \<open>The invariant holds at every moment of the ledger's history.\<close>

lemma on_chain_ok: "on_chain P x \<Longrightarrow> token_laws P \<Longrightarrow> ledger_ok P x"
  by (rule chain.invariant [where P = P]) (use ledger_ok_start ledger_ok_step in fastforce)+

section \<open>How a vault evolves\<close>

text \<open>From a vault to what it is at a later time \<open>t\<close>.\<close>

definition evolves :: "u64 \<Rightarrow> chain_vault \<Rightarrow> chain_vault \<Rightarrow> bool" where
  "evolves t v v' \<longleftrightarrow> vault_id v' = vault_id v \<and> owner v' = owner v \<and> vname v' = vname v \<and>
     created_timestamp v' = created_timestamp v \<and> unlock_timestamp v \<le> unlock_timestamp v' \<and>
     (withdrawn v \<longrightarrow> v' = v) \<and>
     (\<not> withdrawn v \<and> (balance v' < balance v \<or> withdrawn v') \<longrightarrow> withdrawn v' \<and> unlock_timestamp v \<le> t)"

lemma evolves_refl: "evolves t v v"
  by (simp add: evolves_def)

lemma evolves_trans: "evolves t u v \<Longrightarrow> evolves t' v w \<Longrightarrow> t \<le> t' \<Longrightarrow> evolves t' u w"
  unfolding evolves_def by (cases "withdrawn u"; cases "withdrawn v") (auto dest: order_trans)

text \<open>The call that changes a vault comes with its owner's authorisation.\<close>

definition owner_call :: "invocation \<Rightarrow> contract_call \<Rightarrow> u64 \<Rightarrow> chain_vault \<Rightarrow> bool" where
  "owner_call I c i v \<longleftrightarrow> in_auth I (owner v) \<and> \<not> withdrawn v \<and>
     (c = Withdraw (owner v) i \<and> unlock_timestamp v \<le> in_now I \<or> (\<exists>amount. c = Deposit (owner v) i amount) \<or>
      (\<exists>secs. c = ExtendLock (owner v) i secs))"

lemma evolves_update:
  assumes "lg_vaults s i = Some v" and "lg_vaults s j = Some w" and "lg_vaults s' = (lg_vaults s)(j := Some w')"
    and "evolves t w w'" and "j = i \<Longrightarrow> owner_call I c i w"
  shows "\<exists>v'. lg_vaults s' i = Some v' \<and> evolves t v v' \<and> (v' = v \<or> owner_call I c i v)"
  using assms by (cases "j = i") (auto simp: evolves_refl)

lemma invoke_evolves:
  assumes ok: "ledger_ok P (t, s)" and v: "lg_vaults s i = Some v" and run: "invoke P I c s = (r, s')"
  shows "\<exists>v'. lg_vaults s' i = Some v' \<and> evolves (in_now I) v v' \<and> (v' = v \<or> owner_call I c i v)"
  using run
proof (cases rule: invoke_effect)
  case (create own nm amount u j)
  note r = create_vault_returns [OF create(2)]
  have "j \<noteq> i" using ledger_okD(3) [OF ok, of j] r(4) v by auto
  then have "lg_vaults s' i = Some v" using r(6) v by auto
  then show ?thesis using evolves_refl by blast
next
  case (deposit a j amount x)
  note r = deposit_returns [OF deposit(2)]
  obtain w where w: "lg_vaults s j = Some w" "owner w = a" "\<not> withdrawn w"
    and s': "lg_vaults s' = (lg_vaults s)(j := Some (w\<lparr>balance := balance w + amount\<rparr>))"
    using r(3) by fastforce
  show ?thesis
    by (rule evolves_update [OF v w(1) s']) (use r(1,2) w deposit(1) in \<open>auto simp: evolves_def owner_call_def\<close>)
next
  case (extend a j secs x)
  note r = extend_returns [OF extend(2)]
  obtain w where w: "lg_vaults s j = Some w" "owner w = a" "\<not> withdrawn w" "unat (unlock_timestamp w) + unat secs < 2 ^ 64"
    and s': "lg_vaults s' = (lg_vaults s)(j := Some (w\<lparr>unlock_timestamp := unlock_timestamp w + secs\<rparr>))"
    using r(3) by fastforce
  show ?thesis
    by (rule evolves_update [OF v w(1) s'])
      (use r(1) w extend(1) extend_later [OF w(4)] in \<open>auto simp: evolves_def owner_call_def\<close>)
next
  case (withdraw a j x)
  note r = withdraw_returns [OF withdraw(2)]
  obtain w where w: "lg_vaults s j = Some w" "owner w = a" "\<not> withdrawn w" "unlock_timestamp w \<le> in_now I"
    and s': "lg_vaults s' = (lg_vaults s)(j := Some (w\<lparr>balance := 0, withdrawn := True\<rparr>))"
    using r(2) by fastforce
  show ?thesis
    by (rule evolves_update [OF v w(1) s']) (use r(1) w withdraw(1) in \<open>auto simp: evolves_def owner_call_def\<close>)
qed (use v evolves_refl in auto)

lemma chain_step_evolves:
  assumes "ledger_ok P (t, s)" and v: "lg_vaults s i = Some v" and "chain_step P (t, s) (t', s')"
  shows "t \<le> t' \<and> (\<exists>v'. lg_vaults s' i = Some v' \<and> evolves t' v v')"
  using assms(3)
proof cases
  case (call I c)
  then show ?thesis using invoke_evolves [OF assms(1,2) surjective_pairing, of I c] by auto
next
  case (outside tok)
  then show ?thesis using v by (simp add: evolves_refl)
qed

lemma chain_steps_evolve:
  assumes laws: "token_laws P" and "(chain_step P)\<^sup>*\<^sup>* (t, s) (t', s')" and "on_chain P (t, s)" and v: "lg_vaults s i = Some v"
  shows "\<exists>v'. lg_vaults s' i = Some v' \<and> evolves t' v v'"
proof -
  let ?R = "\<lambda>(u, w). t \<le> u \<and> (\<exists>v'. lg_vaults w i = Some v' \<and> evolves u v v')"
  have "on_chain P (t', s') \<and> ?R (t', s')"
  proof (rule chain.future [OF assms(3,2)])
    show "?R (t, s)" using v evolves_refl by auto
    fix y z assume y: "on_chain P y" "?R y" "chain_step P y z"
    obtain u w u' w' where yz: "y = (u, w)" "z = (u', w')" by (meson surj_pair)
    obtain v' where v': "t \<le> u" "lg_vaults w i = Some v'" "evolves u v v'" using y(2) yz by auto
    have "u \<le> u' \<and> (\<exists>v''. lg_vaults w' i = Some v'' \<and> evolves u' v' v'')"
      using chain_step_evolves [OF _ v'(2)] on_chain_ok [OF y(1) laws] y(3) yz by blast
    then show "?R z" using v' yz by (auto intro: evolves_trans)
  qed
  then show ?thesis by simp
qed

section \<open>Properties of the contract\<close>

text \<open>C29: solvency. In every history of the ledger the contract holds at least what its vaults record
  together, an open vault holds a positive amount and a withdrawn one nothing, every unlock time is
  later than its creation, and the index of an owner lists exactly the vaults of that owner, each once.\<close>
theorem contract_solvent:
  assumes "token_laws P" and "on_chain P (t, s)"
  shows "(\<forall>k. lg_token s = Some k \<longrightarrow> total_locked s \<le> st_balance P k (st_self P) (lg_tok s)) \<and>
    (\<forall>i v. lg_vaults s i = Some v \<longrightarrow> vault_id v = i \<and> created_timestamp v < unlock_timestamp v \<and>
       (if withdrawn v then balance v = 0 else 0 < balance v)) \<and>
    (\<forall>a. distinct (owned_by s a) \<and> set (owned_by s a) = {i. \<exists>v. lg_vaults s i = Some v \<and> owner v = a})"
  using ledger_okD [OF on_chain_ok [OF assms(2,1)]] unfolding vault_ok_def by blast

text \<open>C30: the lock. Take any vault of the ledger and any later history, whoever invokes what: its
  owner, name and creation time stay, its unlock time never goes back, a withdrawn vault stays as it
  is, and an open one loses money only by being withdrawn, not before the unlock time it has now.\<close>
theorem lock_holds:
  assumes "token_laws P" and "on_chain P (t, s)" and "(chain_step P)\<^sup>*\<^sup>* (t, s) (t', s')" and "lg_vaults s i = Some v"
  shows "\<exists>v'. lg_vaults s' i = Some v' \<and> owner v' = owner v \<and> vname v' = vname v \<and>
    created_timestamp v' = created_timestamp v \<and> unlock_timestamp v \<le> unlock_timestamp v' \<and>
    (withdrawn v \<longrightarrow> v' = v) \<and>
    (\<not> withdrawn v \<and> (balance v' < balance v \<or> withdrawn v') \<longrightarrow> withdrawn v' \<and> unlock_timestamp v \<le> t')"
  using chain_steps_evolve [OF assms(1,3,2,4)] unfolding evolves_def by blast

text \<open>The token's transfer succeeds when the sender can pay another account.\<close>

definition token_pays :: "'tok site \<Rightarrow> bool" where
  "token_pays P \<longleftrightarrow> (\<forall>k a b amount tok. a \<noteq> b \<and> 0 \<le> amount \<and> amount \<le> st_balance P k a tok \<longrightarrow>
     st_transfer P k a b amount tok \<noteq> None)"

lemma locked_le_total:
  assumes "ledger_ok P (t, s)"
  shows "locked_in s i \<le> total_locked s"
proof -
  have "0 \<le> locked_in s j" for j
    using ledger_okD(2) [OF assms, of j] by (cases "lg_vaults s j") (auto simp: locked_in_def vault_ok_def split: if_splits)
  then show ?thesis unfolding total_locked_def by (intro member_le_sum) auto
qed

lemma withdraw_transfer:
  assumes ok: "ledger_ok P (t, s)" and laws: "token_laws P" and pays: "token_pays P"
    and v: "lg_vaults s i = Some v" "\<not> withdrawn v" and other: "owner v \<noteq> st_self P"
  obtains k tok where "lg_token s = Some k" "st_transfer P k (st_self P) (owner v) (balance v) (lg_tok s) = Some tok"
    "0 < balance v" "st_balance P k (owner v) tok = st_balance P k (owner v) (lg_tok s) + balance v"
proof -
  obtain k where k: "lg_token s = Some k" using token_of_vault [OF ok v(1)] by blast
  have pos: "0 < balance v" using ledger_okD(2) [OF ok v(1)] v(2) by (simp add: vault_ok_def)
  have "balance v \<le> st_balance P k (st_self P) (lg_tok s)"
    using locked_le_total [OF ok, of i] ledger_okD(6) [OF ok disjI2 [OF k]] v(1) by (simp add: locked_in_def)
  then obtain tok where tok: "st_transfer P k (st_self P) (owner v) (balance v) (lg_tok s) = Some tok"
    using pays pos other unfolding token_pays_def by (metis less_imp_le not_None_eq)
  show thesis using k tok pos token_lawsD [OF laws tok, of "owner v"] other by (intro that) simp_all
qed

text \<open>What an authorised withdrawal by the owner comes to.\<close>

lemma withdraw_outcome:
  assumes "on_chain P (in_now I, s)" and "token_laws P" and "token_pays P" and v: "lg_vaults s i = Some v"
    and "in_auth I (owner v)" and "owner v \<noteq> st_self P"
  shows "fst (invoke P I (Withdraw (owner v) i) s) =
    (if withdrawn v then Inl (Fail AlreadyWithdrawn) else if in_now I < unlock_timestamp v then Inl (Fail StillLocked)
     else Inr (VAmount (balance v)))"
proof (cases "withdrawn v")
  case True
  then show ?thesis using assms(5) v by (simp add: invoke_def withdraw_all_def chain_eval)
next
  case False
  obtain k tok where "lg_token s = Some k" "st_transfer P k (st_self P) (owner v) (balance v) (lg_tok s) = Some tok"
    by (rule withdraw_transfer [OF on_chain_ok [OF assms(1,2)] assms(2,3) v False assms(6)])
  then show ?thesis using False assms(5) v by (simp add: invoke_def withdraw_all_def chain_eval)
qed

text \<open>The payment and the state that it leaves.\<close>

lemma withdrawal:
  assumes laws: "token_laws P" and pays: "token_pays P" and "on_chain P (in_now I, s)"
    and v: "lg_vaults s i = Some v" "\<not> withdrawn v" "unlock_timestamp v \<le> in_now I"
    and auth: "in_auth I (owner v)" "owner v \<noteq> st_self P"
  shows "\<exists>k s'. invoke P I (Withdraw (owner v) i) s = (Inr (VAmount (balance v)), s') \<and> 0 < balance v \<and>
    lg_token s = Some k \<and> st_balance P k (owner v) (lg_tok s') = st_balance P k (owner v) (lg_tok s) + balance v \<and>
    lg_vaults s' i = Some (v\<lparr>balance := 0, withdrawn := True\<rparr>)"
proof -
  obtain k tok where k: "lg_token s = Some k" "st_transfer P k (st_self P) (owner v) (balance v) (lg_tok s) = Some tok"
    "0 < balance v" "st_balance P k (owner v) tok = st_balance P k (owner v) (lg_tok s) + balance v"
    by (rule withdraw_transfer [OF on_chain_ok [OF assms(3) laws] laws pays v(1,2) auth(2)])
  then show ?thesis using v auth(1) by (intro exI [of _ k]) (simp add: invoke_def withdraw_all_def chain_eval not_less)
qed

text \<open>C31: funds are never stuck. Once the unlock time has come, the owner's withdrawal of an open vault
  returns: it pays the whole balance, which is positive, to the owner, and closes the vault.\<close>
theorem withdraw_pays:
  assumes laws: "token_laws P" and pays: "token_pays P" and "on_chain P (in_now I, s)"
    and v: "lg_vaults s i = Some v" "\<not> withdrawn v" "unlock_timestamp v \<le> in_now I"
    and auth: "in_auth I (owner v)" "owner v \<noteq> st_self P"
  shows "\<exists>k s'. invoke P I (Withdraw (owner v) i) s = (Inr (VAmount (balance v)), s') \<and> 0 < balance v \<and>
    lg_token s = Some k \<and> st_balance P k (owner v) (lg_tok s') = st_balance P k (owner v) (lg_tok s) + balance v \<and>
    lg_vaults s' i = Some (v\<lparr>balance := 0, withdrawn := True\<rparr>)"
  using assms by (rule withdrawal)

section \<open>The events tell the vaults\<close>

text \<open>The abstract contract: what an observer of the events alone knows of a vault.\<close>

record vault_view =
  vw_owner :: address
  vw_balance :: int
  vw_unlock :: u64
  vw_withdrawn :: bool

definition view_of :: "chain_vault \<Rightarrow> vault_view" where
  "view_of v = \<lparr>vw_owner = owner v, vw_balance = balance v, vw_unlock = unlock_timestamp v, vw_withdrawn = withdrawn v\<rparr>"

fun observe :: "chain_event \<Rightarrow> (u64 \<Rightarrow> vault_view option) \<Rightarrow> u64 \<Rightarrow> vault_view option" where
  "observe (CreateEvent a i amount u) m = m(i := Some \<lparr>vw_owner = a, vw_balance = amount, vw_unlock = u, vw_withdrawn = False\<rparr>)"
| "observe (DepositEvent a i amount) m = m(i := map_option (\<lambda>w. w\<lparr>vw_balance := vw_balance w + amount\<rparr>) (m i))"
| "observe (ExtendEvent a i u) m = m(i := map_option (\<lambda>w. w\<lparr>vw_unlock := u\<rparr>) (m i))"
| "observe (WithdrawEvent a i amount) m = m(i := map_option (\<lambda>w. w\<lparr>vw_balance := vw_balance w - amount, vw_withdrawn := True\<rparr>) (m i))"

definition observed :: "'tok ledger \<Rightarrow> u64 \<Rightarrow> vault_view option" where
  "observed s = fold observe (lg_events s) (\<lambda>_. None)"

definition told :: "'tok ledger \<Rightarrow> bool" where
  "told s \<longleftrightarrow> observed s = (\<lambda>i. map_option view_of (lg_vaults s i))"

lemma observed_snoc: "lg_events s' = lg_events s @ [e] \<Longrightarrow> observed s' = observe e (observed s)"
  by (simp add: observed_def)

lemma told_invoke:
  assumes "told s" and run: "invoke P I c s = (r, s')"
  shows "told s'"
  using run
proof (cases rule: invoke_effect)
  case (init t)
  then show ?thesis using assms(1) by (simp add: told_def observed_def)
next
  case (create own nm amount u i)
  note r = create_vault_returns(6) [OF create(2)]
  then have "observed s' = observe (CreateEvent own i amount u) (observed s)" by (intro observed_snoc) auto
  then show ?thesis using assms(1) r by (auto simp: told_def view_of_def)
next
  case (deposit a i amount x)
  note r = deposit_returns(3) [OF deposit(2)]
  then have "observed s' = observe (DepositEvent a i amount) (observed s)" by (intro observed_snoc) auto
  then show ?thesis using assms(1) r by (auto simp: told_def view_of_def)
next
  case (extend a i secs x)
  note r = extend_returns(3) [OF extend(2)]
  then obtain v where "lg_vaults s i = Some v" "lg_vaults s' = (lg_vaults s)(i := Some (v\<lparr>unlock_timestamp := unlock_timestamp v + secs\<rparr>))"
    "lg_events s' = lg_events s @ [ExtendEvent a i (unlock_timestamp v + secs)]" by auto
  then show ?thesis using assms(1) observed_snoc [of s' s "ExtendEvent a i (unlock_timestamp v + secs)"] by (auto simp: told_def view_of_def)
next
  case (withdraw a i x)
  note r = withdraw_returns(2) [OF withdraw(2)]
  then obtain v where "lg_vaults s i = Some v" "lg_vaults s' = (lg_vaults s)(i := Some (v\<lparr>balance := 0, withdrawn := True\<rparr>))"
    "lg_events s' = lg_events s @ [WithdrawEvent a i (balance v)]" by auto
  then show ?thesis using assms(1) observed_snoc [of s' s "WithdrawEvent a i (balance v)"] by (auto simp: told_def view_of_def)
qed (use assms(1) in simp)

lemma told_step: "told s \<Longrightarrow> chain_step P (t, s) (t', s') \<Longrightarrow> told s'"
  by (erule chain_stepE) (auto simp: told_def observed_def intro: told_invoke [unfolded told_def observed_def, OF _ surjective_pairing])

lemma told_always: "on_chain P (t, s) \<Longrightarrow> told s"
  using chain.invariant [of P "\<lambda>x. told (snd x)" "(t, s)"] told_step
  by (fastforce simp: chain_start_def told_def observed_def deployed_def)

text \<open>C32: refinement. The contract implements the account book that its events spell out: at every
  moment, replaying the published events from nothing (a create event opens a vault, deposits add, an
  extension sets the unlock time, a withdrawal takes its amount and closes) gives exactly the vaults
  of the storage with their owners, balances and unlock times.\<close>
theorem events_tell_vaults:
  assumes "on_chain P (t, s)"
  shows "fold observe (lg_events s) (\<lambda>_. None) i = map_option view_of (lg_vaults s i)"
  using told_always [OF assms] by (simp add: told_def observed_def)

section \<open>A history\<close>

text \<open>Balances of one token as the state of the token contracts; a transfer needs the sender's funds.\<close>

definition book_site :: "(address \<Rightarrow> int) site" where
  "book_site = \<lparr>st_transfer = (\<lambda>k a b amount f. if 0 \<le> amount \<and> amount \<le> f a
       then Some (let g = f(a := f a - amount) in g(b := g b + amount)) else None),
     st_balance = (\<lambda>k a f. f a), st_self = ''C''\<rparr>"

lemma book_laws: "token_laws book_site" "token_pays book_site"
  by (auto simp: token_laws_def token_pays_def book_site_def Let_def split: if_splits)

definition book :: "address \<Rightarrow> int" where
  "book a = (if a = ''alice'' then 100 else 0)"

definition at_time :: "u64 \<Rightarrow> invocation" where
  "at_time t = \<lparr>in_now = t, in_auth = (\<lambda>a. a = ''alice'')\<rparr>"

definition ledger1 :: "(address \<Rightarrow> int) ledger" where
  "ledger1 = snd (invoke book_site (at_time 5) (Init ''XLM'') (deployed book))"

definition ledger2 :: "(address \<Rightarrow> int) ledger" where
  "ledger2 = snd (invoke book_site (at_time 10) (CreateVault ''alice'' ''trip'' 40 50) ledger1)"

definition trip :: chain_vault where
  "trip = \<lparr>vault_id = 0, owner = ''alice'', vname = ''trip'', balance = 40, unlock_timestamp = 50, created_timestamp = 10, withdrawn = False\<rparr>"

lemma ledger1_eq: "ledger1 = (deployed book)\<lparr>lg_token := Some ''XLM'', lg_next := Some 0\<rparr>"
  by (simp add: ledger1_def invoke_def init_def deployed_def chain_eval)

lemma ledger2_eq: "lg_token ledger2 = Some ''XLM''" "lg_vaults ledger2 = [0 \<mapsto> trip]"
  "lg_events ledger2 = [CreateEvent ''alice'' 0 40 50]" "lg_tok ledger2 = book(''alice'' := 60, ''C'' := 40)"
  by (simp_all add: ledger2_def ledger1_eq invoke_def create_vault_def chain_eval deployed_def book_site_def book_def
      at_time_def checked_add_def trip_def Let_def)

lemma call_from: "on_chain P (t, s) \<Longrightarrow> t \<le> in_now I \<Longrightarrow> \<not> in_auth I (st_self P) \<Longrightarrow> on_chain P (in_now I, snd (invoke P I c s))"
  by (blast intro: on_chain.step chain_step.call)

lemma on_chain1: "on_chain book_site (5, ledger1)"
proof -
  have "on_chain book_site (0, deployed book)" by (rule on_chain.start) (simp add: book_site_def book_def)
  then show ?thesis
    using call_from [of book_site 0 "deployed book" "at_time 5" "Init ''XLM''"] by (simp add: ledger1_def at_time_def book_site_def)
qed

lemma on_chain2: "on_chain book_site (10, ledger2)"
  using call_from [of book_site 5 ledger1 "at_time 10" "CreateVault ''alice'' ''trip'' 40 50"] on_chain1
  by (simp add: ledger2_def at_time_def book_site_def)

theorem contract_solvent_witness:
  "total_locked ledger2 \<le> st_balance book_site ''XLM'' ''C'' (lg_tok ledger2) \<and> owned_by ledger2 ''bob'' = []"
proof -
  note c = contract_solvent [OF book_laws(1) on_chain2]
  have "set (owned_by ledger2 ''bob'') = {}"
    using c [THEN conjunct2, THEN conjunct2, THEN spec, of "''bob''"] by (auto simp: ledger2_eq(2) trip_def)
  moreover have "total_locked ledger2 \<le> st_balance book_site ''XLM'' ''C'' (lg_tok ledger2)"
    using c [THEN conjunct1] by (simp add: ledger2_eq(1) book_site_def)
  ultimately show ?thesis by simp
qed

theorem events_tell_vaults_witness:
  "fold observe [CreateEvent ''alice'' 0 40 50] (\<lambda>_. None) 0 = Some (view_of trip)"
  using events_tell_vaults [OF on_chain2, of 0] by (simp add: ledger2_eq)

text \<open>Withdrawing at 60 works, at 49 it does not.\<close>

lemma on_chain_later: "on_chain P (t, s) \<Longrightarrow> t \<le> t' \<Longrightarrow> on_chain P (t', s)"
  using on_chain.step [of P "(t, s)" "(t', s)"] chain_step.outside [of t t' P s "lg_tok s"] by simp

lemma on_chain_at: "10 \<le> t \<Longrightarrow> on_chain book_site (t, ledger2)"
  by (rule on_chain_later [OF on_chain2])

theorem withdraw_pays_witness:
  "\<exists>s'. invoke book_site (at_time 60) (Withdraw ''alice'' 0) ledger2 = (Inr (VAmount 40), s') \<and> lg_tok s' ''alice'' = 100"
  using withdraw_pays [OF book_laws, of "at_time 60" ledger2 0 trip] on_chain_at [of 60]
  by (auto simp: ledger2_eq at_time_def trip_def book_site_def)

theorem lock_holds_witness:
  "\<exists>v'. lg_vaults (snd (invoke book_site (at_time 49) (Withdraw ''alice'' 0) ledger2)) 0 = Some v' \<and>
    \<not> withdrawn v' \<and> 40 \<le> balance v' \<and> owner v' = ''alice''"
proof -
  have "chain_step book_site (10, ledger2) (in_now (at_time 49), snd (invoke book_site (at_time 49) (Withdraw ''alice'' 0) ledger2))"
    by (rule chain_step.call) (simp_all add: at_time_def book_site_def)
  then have "(chain_step book_site)\<^sup>*\<^sup>* (10, ledger2) (49, snd (invoke book_site (at_time 49) (Withdraw ''alice'' 0) ledger2))"
    by (intro r_into_rtranclp) (simp add: at_time_def)
  then show ?thesis
    using lock_holds [OF book_laws(1) on_chain2, of 49 "snd (invoke book_site (at_time 49) (Withdraw ''alice'' 0) ledger2)" 0 trip]
    by (auto simp: ledger2_eq trip_def not_less)
qed

end
