(* ===== verification/Chain_Events.thy ===== *)
theory Chain_Events imports Event_Pages Vault_Contract begin

text \<open>
  The contract and the client composed over the event stream: what \<^verbatim>\<open>lib.rs\<close> publishes, as the RPC
  server reports it, parsed and replayed by \<^verbatim>\<open>soroban-client.ts\<close>. A simulation relates the account
  book that the events spell out (\<open>observe\<close>) to the accumulators of the client (\<open>replay_event\<close>).
\<close>

section \<open>Vault ids as text\<close>

lemma digits_value_snoc: "digits_value (s @ [c]) = 10 * digits_value s + (of_char c - 48)"
  by (simp add: digits_value_def)

lemma digits_nat_string: "digits_value (nat_string n) = n"
proof (induction n rule: nat_string.induct)
  case (1 n)
  have "(of_char (char_of (48 + n mod 10) :: char) :: nat) = 48 + n mod 10" by simp
  moreover have "n < 10 \<Longrightarrow> (of_char (char_of (48 + n) :: char) :: nat) = 48 + n" by simp
  ultimately show ?case using 1
    by (subst nat_string.simps) (auto simp: digits_value_snoc digits_value_def)
qed

definition vid :: "u64 \<Rightarrow> string" where
  "vid i = int_string (uint i)"

lemma vid_inject [simp]: "vid i = vid j \<longleftrightarrow> i = j"
proof
  assume "vid i = vid j"
  then have "nat_string (nat (uint i)) = nat_string (nat (uint j))" by (simp add: vid_def int_string_def)
  then have "nat (uint i) = nat (uint j)" by (metis digits_nat_string)
  then show "i = j" by (simp add: word_unat_eq_iff)
qed simp

section \<open>The events on the wire\<close>

text \<open>The topics and the data of \<^verbatim>\<open>env.events().publish\<close>, as \<^verbatim>\<open>scValToNative\<close> gives them back: symbols and
  addresses are strings, a tuple is an array, 64- and 128-bit integers are \<^verbatim>\<open>bigint\<close>s.\<close>

fun event_topics :: "chain_event \<Rightarrow> string \<times> address" where
  "event_topics (CreateEvent a _ _ _) = (''create'', a)"
| "event_topics (DepositEvent a _ _) = (''deposit'', a)"
| "event_topics (ExtendEvent a _ _) = (''extend'', a)"
| "event_topics (WithdrawEvent a _ _) = (''withdraw'', a)"

fun event_data :: "chain_event \<Rightarrow> native" where
  "event_data (CreateEvent _ i amount u) = NVec [NInt (uint i), NInt amount, NInt (uint u)]"
| "event_data (DepositEvent _ i amount) = NVec [NInt (uint i), NInt amount]"
| "event_data (ExtendEvent _ i u) = NVec [NInt (uint i), NInt (uint u)]"
| "event_data (WithdrawEvent _ i amount) = NVec [NInt (uint i), NInt amount]"

definition reports :: "env \<Rightarrow> chain_event \<Rightarrow> event_response \<Rightarrow> bool" where
  "reports E e r \<longleftrightarrow> length (er_topic r) = 2 \<and> e_native E (er_topic r ! 0) = Inr (NStr (fst (event_topics e))) \<and>
     e_native E (er_topic r ! 1) = Inr (NStr (snd (event_topics e))) \<and> e_native E (er_data r) = Inr (event_data e)"

fun event_vault :: "chain_event \<Rightarrow> u64" where
  "event_vault (CreateEvent _ i _ _) = i"
| "event_vault (DepositEvent _ i _) = i"
| "event_vault (ExtendEvent _ i _) = i"
| "event_vault (WithdrawEvent _ i _) = i"

fun event_unlock :: "chain_event \<Rightarrow> u64 option" where
  "event_unlock (CreateEvent _ _ _ u) = Some u"
| "event_unlock (ExtendEvent _ _ u) = Some u"
| "event_unlock _ = None"

fun kind_of :: "chain_event \<Rightarrow> event_kind" where
  "kind_of (CreateEvent _ _ _ _) = KCreate"
| "kind_of (DepositEvent _ _ _) = KDeposit"
| "kind_of (ExtendEvent _ _ _) = KExtend"
| "kind_of (WithdrawEvent _ _ _) = KWithdraw"

fun event_amount :: "chain_event \<Rightarrow> int" where
  "event_amount (CreateEvent _ _ amount _) = amount"
| "event_amount (DepositEvent _ _ amount) = amount"
| "event_amount (ExtendEvent _ _ _) = 0"
| "event_amount (WithdrawEvent _ _ amount) = amount"

text \<open>Midnight UTC of the day of a time, and the unlock times whose year the notes can carry.\<close>

definition day_start :: "u64 \<Rightarrow> int" where
  "day_start u = uint u - uint u mod 86400"

definition datable :: "chain_event \<Rightarrow> bool" where
  "datable e \<longleftrightarrow> (case event_unlock e of None \<Rightarrow> True | Some u \<Rightarrow> 1577836800 \<le> uint u \<and> uint u < 4133980800)"

text \<open>What the client's row of an event is to say.\<close>

definition row_for :: "env \<Rightarrow> chain_event \<Rightarrow> event_response \<Rightarrow> parsed_event \<Rightarrow> bool" where
  "row_for E e r p \<longleftrightarrow> ev_vault_id p = vid (event_vault e) \<and> ev_owner p = snd (event_topics e) \<and> ev_kind p = kind_of e \<and>
     ev_amount p = stroopsToXlm (event_amount e) \<and> ev_timestamp p = er_closed_sec r \<and>
     (\<forall>u. event_unlock e = Some u \<longrightarrow> dateNoteToSec E (ev_note p) = day_start u)"

lemma stroopsToXlm_0 [simp]: "stroopsToXlm 0 = 0"
  by (simp add: stroopsToXlm_def js_div_def js_of_int_def rnd_def)

lemma parse_report:
  assumes "reports E e r" and "datable e"
  shows "\<exists>p. parseEvent E r = Inr (Some p) \<and> row_for E e r p"
proof -
  have dated: "\<exists>d. date_of (NInt (uint u)) = Inr d \<and> dateNoteToSec E (pre @ d) = day_start u"
    if "event_unlock e = Some u" "list_all (\<lambda>c. \<not> is_digit c) pre" for u pre
    using that assms(2) unlock_note_roundtrip [of "uint u" pre E] by (simp add: datable_def day_start_def)
  have pre: "list_all (\<lambda>c. \<not> is_digit c) ''unlock ''" "list_all (\<lambda>c. \<not> is_digit c) ''new unlock ''"
    by (simp_all add: is_digit_def)
  note parse = assms(1) [unfolded reports_def] parseEvent_def decodeKind_def js_BigInt_def js_at_def row_for_def vid_def
  show ?thesis
  proof (cases e)
    case (CreateEvent a i amount u)
    then show ?thesis using dated [OF _ pre(1), of u] parse by auto
  next
    case (ExtendEvent a i u)
    then show ?thesis using dated [OF _ pre(2), of u] parse by auto
  qed (use parse in auto)
qed

section \<open>Legal histories\<close>

text \<open>When an event may follow what the events before it told. A vault is created once; deposits,
  extensions and the one withdrawal name its owner, an extension never goes back, and a withdrawal
  takes what is there.\<close>

fun legal :: "(u64 \<Rightarrow> vault_view option) \<Rightarrow> chain_event \<Rightarrow> bool" where
  "legal m (CreateEvent a i amount u) \<longleftrightarrow> m i = None \<and> 0 < amount"
| "legal m (DepositEvent a i amount) \<longleftrightarrow> (case m i of None \<Rightarrow> False | Some w \<Rightarrow> vw_owner w = a \<and> \<not> vw_withdrawn w \<and> 0 < amount)"
| "legal m (ExtendEvent a i u) \<longleftrightarrow> (case m i of None \<Rightarrow> False | Some w \<Rightarrow> vw_owner w = a \<and> \<not> vw_withdrawn w \<and> vw_unlock w \<le> u)"
| "legal m (WithdrawEvent a i amount) \<longleftrightarrow> (case m i of None \<Rightarrow> False | Some w \<Rightarrow> vw_owner w = a \<and> \<not> vw_withdrawn w \<and> amount = vw_balance w)"

fun legal_run :: "(u64 \<Rightarrow> vault_view option) \<Rightarrow> chain_event list \<Rightarrow> bool" where
  "legal_run m [] \<longleftrightarrow> True"
| "legal_run m (e # es) \<longleftrightarrow> legal m e \<and> legal_run (observe e m) es"

lemma legal_run_snoc: "legal_run m (es @ [e]) \<longleftrightarrow> legal_run m es \<and> legal (fold observe es m) e"
  by (induction es arbitrary: m) auto

definition legal_ledger :: "'tok ledger \<Rightarrow> bool" where
  "legal_ledger s \<longleftrightarrow> legal_run (\<lambda>_. None) (lg_events s)"

lemma legal_ledger_snoc:
  assumes "told s" and "legal_ledger s" and "lg_events s' = lg_events s @ [e]"
    and "legal (\<lambda>i. map_option view_of (lg_vaults s i)) e"
  shows "legal_ledger s'"
  using assms by (simp add: legal_ledger_def legal_run_snoc told_def observed_def)

lemma legal_invoke:
  assumes ok: "ledger_ok P (t, s)" and t: "told s" and l: "legal_ledger s" and run: "invoke P I c s = (r, s')"
  shows "legal_ledger s'"
  using run
proof (cases rule: invoke_effect)
  case (init k)
  then show ?thesis using l by (simp add: legal_ledger_def)
next
  case (create own nm amount u i)
  note r = create_vault_returns [OF create(2)]
  have "lg_vaults s i = None" using ledger_okD(3) [OF ok, of i] r(4) by auto
  moreover have "lg_events s' = lg_events s @ [CreateEvent own i amount u]" using r(6) by auto
  ultimately show ?thesis using r(2) by (intro legal_ledger_snoc [OF t l]) (assumption | simp)+
next
  case (deposit a i amount x)
  note r = deposit_returns [OF deposit(2)]
  obtain v where "lg_vaults s i = Some v" "owner v = a" "\<not> withdrawn v" "lg_events s' = lg_events s @ [DepositEvent a i amount]"
    using r(3) by auto
  then show ?thesis using r(2) by (intro legal_ledger_snoc [OF t l]) (assumption | simp add: view_of_def)+
next
  case (extend a i secs x)
  note r = extend_returns(3) [OF extend(2)]
  then obtain v where "lg_vaults s i = Some v" "owner v = a" "\<not> withdrawn v" "unat (unlock_timestamp v) + unat secs < 2 ^ 64"
    "lg_events s' = lg_events s @ [ExtendEvent a i (unlock_timestamp v + secs)]" by auto
  then show ?thesis using extend_later by (intro legal_ledger_snoc [OF t l]) (assumption | simp add: view_of_def)+
next
  case (withdraw a i x)
  note r = withdraw_returns(2) [OF withdraw(2)]
  then obtain v where "lg_vaults s i = Some v" "owner v = a" "\<not> withdrawn v" "lg_events s' = lg_events s @ [WithdrawEvent a i (balance v)]"
    by auto
  then show ?thesis by (intro legal_ledger_snoc [OF t l]) (assumption | simp add: view_of_def)+
qed (use l in simp)

lemma legal_always:
  assumes "token_laws P" and "on_chain P x"
  shows "legal_ledger (snd x)"
  using assms(2)
proof (rule chain.reach_induct)
  show "legal_ledger (snd y)" if "chain_start P y" for y
    using that by (auto simp: chain_start_def legal_ledger_def deployed_def)
  fix y z assume y: "on_chain P y" "legal_ledger (snd y)" and step: "chain_step P y z"
  from step show "legal_ledger (snd z)"
  proof cases
    case (call t I s c)
    have "ledger_ok P (t, s)" "told s" using y(1) call(1) on_chain_ok [OF _ assms(1)] told_always by blast+
    then show ?thesis using legal_invoke [OF _ _ _ surjective_pairing] y(2) call by simp
  next
    case (outside t t' s tok)
    then show ?thesis using y(2) by (simp add: legal_ledger_def)
  qed
qed

section \<open>Payments into a vault\<close>

fun payment :: "u64 \<Rightarrow> chain_event \<Rightarrow> int list" where
  "payment i (CreateEvent _ j amount _) = (if j = i then [amount] else [])"
| "payment i (DepositEvent _ j amount) = (if j = i then [amount] else [])"
| "payment i _ = []"

definition paid_in :: "u64 \<Rightarrow> chain_event list \<Rightarrow> int list" where
  "paid_in i es = concat (map (payment i) es)"

lemma paid_in_simps [simp]: "paid_in i [] = []" "paid_in i (es @ [e]) = paid_in i es @ payment i e"
  by (simp_all add: paid_in_def)

section \<open>The simulation\<close>

text \<open>Payments so few and so small that the rounding errors of adding them stay below half a stroop.\<close>

definition bounded :: "int \<Rightarrow> int list \<Rightarrow> bool" where
  "bounded B ps \<longleftrightarrow> sum_list ps \<le> B \<and> int (length ps) * B \<le> 2 ^ 48"

lemma bounded_append:
  assumes "bounded B (ps @ qs)" and "0 \<le> sum_list ps" and "0 \<le> sum_list qs"
  shows "bounded B ps" and "qs \<noteq> [] \<Longrightarrow> B \<le> 2 ^ 48"
proof -
  have B: "0 \<le> B" using assms by (simp add: bounded_def)
  have "int (length ps) * B \<le> int (length (ps @ qs)) * B" using B by (intro mult_right_mono) simp_all
  then show "bounded B ps" using assms by (simp add: bounded_def)
  have "1 * B \<le> int (length (ps @ qs)) * B" if "qs \<noteq> []"
    using B that by (intro mult_right_mono) (cases qs, simp_all)
  then show "qs \<noteq> [] \<Longrightarrow> B \<le> 2 ^ 48" using assms(1) by (simp add: bounded_def)
qed

text \<open>An accumulator of the client against the view of the same vault after the payments \<open>ps\<close>: the flag is
  the same, the unlock time is that of the day, and the balance is off by at most \<open>length ps\<close> times
  the error of one payment, for amounts up to \<open>B\<close>.\<close>

definition tracks :: "int \<Rightarrow> int list \<Rightarrow> vault_view \<Rightarrow> accum \<Rightarrow> bool" where
  "tracks B ps w v \<longleftrightarrow> a_withdrawn v = vw_withdrawn w \<and> a_unlock v = day_start (vw_unlock w) \<and>
     0 \<le> vw_balance w \<and> vw_balance w \<le> sum_list ps \<and>
     (bounded B ps \<longrightarrow> \<bar>a_balance v * 10000000 - of_int (vw_balance w)\<bar> * 2 ^ 51 \<le> of_int (int (length ps) * B))"

definition simulates :: "u64 \<Rightarrow> address \<Rightarrow> int \<Rightarrow> int list \<Rightarrow> (u64 \<Rightarrow> vault_view option) \<Rightarrow> (string, accum) jsmap \<Rightarrow> bool" where
  "simulates i a B ps m M \<longleftrightarrow> (case m i of
      None \<Rightarrow> ps = [] \<and> jm_get M (vid i) = None
    | Some w \<Rightarrow> if vw_owner w = a then (\<exists>v. jm_get M (vid i) = Some v \<and> tracks B ps w v) else jm_get M (vid i) = None)"

lemma day_start_mono: "u \<le> v \<Longrightarrow> day_start u \<le> day_start v"
proof -
  assume "u \<le> v"
  then have "uint u div 86400 \<le> uint v div 86400" by (intro zdiv_mono1) (simp_all add: word_le_def)
  then show ?thesis by (simp add: day_start_def minus_mod_eq_div_mult)
qed

text \<open>The error of adding one payment.\<close>

lemma three_roundings:
  fixes x y r b p N B :: rat
  assumes "\<bar>x - b\<bar> * 2251799813685248 \<le> N" and "N \<le> 281474976710656"
    and "\<bar>y - p\<bar> * 9007199254740992 \<le> p" and "\<bar>r - (x + y)\<bar> * 9007199254740992 \<le> \<bar>x + y\<bar>"
    and "b + p \<le> B" "1 \<le> B" "0 \<le> b" "0 < p"
  shows "\<bar>r - (b + p)\<bar> * 2251799813685248 \<le> N + B"
proof -
  have "\<bar>x + y\<bar> \<le> 2 * B" using assms(1-3,5-8) by (auto simp: abs_if split: if_splits)
  then have "\<bar>r - (x + y)\<bar> * 9007199254740992 \<le> 2 * B" using assms(4) by linarith
  moreover have "\<bar>r - (b + p)\<bar> \<le> \<bar>r - (x + y)\<bar> + \<bar>x - b\<bar> + \<bar>y - p\<bar>" by (simp add: abs_if)
  moreover have "d * 2251799813685248 \<le> N + B"
    if "e * 9007199254740992 \<le> 2 * B" "d \<le> e + f + g" "f * 2251799813685248 \<le> N" "g * 9007199254740992 \<le> p" for d e f g :: rat
    using that assms(5-8) by linarith
  ultimately show ?thesis using assms(1,3) by blast
qed

lemma add_payment:
  fixes x :: number
  assumes e: "\<bar>x * 10000000 - of_int b\<bar> * 2 ^ 51 \<le> of_int (n * B)" and n: "0 \<le> n" "n * B \<le> 2 ^ 48"
    and b: "0 \<le> b" "0 < p" "b + p \<le> B" "B \<le> 2 ^ 48"
  shows "\<bar>js_add x (stroopsToXlm p) * 10000000 - of_int (b + p)\<bar> * 2 ^ 51 \<le> of_int ((n + 1) * B)"
proof -
  define y where "y = stroopsToXlm p"
  have p: "js_of_int p = of_int p" using b by (intro js_of_int_exact) simp
  have "\<bar>rnd (of_int p / 10000000) - of_int p / 10000000\<bar> \<le> \<bar>of_int p / 10000000\<bar> / 2 ^ 53" by (rule rnd_error)
  then have y: "\<bar>y * 10000000 - of_int p\<bar> * 2 ^ 53 \<le> of_int p"
    using b by (simp add: y_def stroopsToXlm_def js_div_def p abs_if field_simps split: if_splits)
  have r: "\<bar>js_add x y - (x + y)\<bar> \<le> \<bar>x + y\<bar> / 2 ^ 53" unfolding js_add_def by (rule rnd_error)
  have "(of_int (n * B) :: rat) \<le> of_int (2 ^ 48)" using n by (intro of_int_leI)
  moreover have "(of_int b :: rat) + of_int p \<le> of_int B" "(1 :: rat) \<le> of_int B" "(0 :: rat) \<le> of_int b" "(0 :: rat) < of_int p"
    using b of_int_leI [of "b + p" B] of_int_leI [of 1 B] by simp_all
  moreover have scaled: "\<bar>js_add x y * 10000000 - (x * 10000000 + y * 10000000)\<bar> * 9007199254740992 \<le> \<bar>x * 10000000 + y * 10000000\<bar>"
    using r by (auto simp: abs_if split: if_splits)
  ultimately have "\<bar>js_add x y * 10000000 - (of_int b + of_int p)\<bar> * 2251799813685248 \<le> of_int (n * B) + of_int B"
    using e y r scaled by (intro three_roundings [of "x * 10000000" "of_int b" "of_int (n * B)" "y * 10000000"]) simp_all
  then show ?thesis by (simp add: y_def algebra_simps)
qed

text \<open>One lemma per event.\<close>

lemma tracks_create:
  assumes "row_for E (CreateEvent a i amount u) r p" and "0 < amount"
  shows "tracks B [amount] \<lparr>vw_owner = a, vw_balance = amount, vw_unlock = u, vw_withdrawn = False\<rparr> (apply_event E p (seed_accum E p))"
  using add_payment [of 0 0 0 B amount] assms by (simp add: tracks_def row_for_def apply_event_def seed_accum_def bounded_def)

lemma tracks_deposit:
  assumes "row_for E (DepositEvent a i amount) r p" and t: "tracks B ps w v" and "0 < amount"
  shows "tracks B (ps @ [amount]) (w\<lparr>vw_balance := vw_balance w + amount\<rparr>) (apply_event E p v)"
proof -
  have "\<bar>js_add (a_balance v) (stroopsToXlm amount) * 10000000 - of_int (vw_balance w + amount)\<bar> * 2 ^ 51 \<le>
      of_int ((int (length ps) + 1) * B)" if b: "bounded B (ps @ [amount])"
  proof (rule add_payment)
    note sums = t [unfolded tracks_def] assms(3)
    show "\<bar>a_balance v * 10000000 - of_int (vw_balance w)\<bar> * 2 ^ 51 \<le> of_int (int (length ps) * B)"
      "int (length ps) * B \<le> 2 ^ 48"
      using bounded_append(1) [OF b] sums by (auto simp: bounded_def)
    show "B \<le> 2 ^ 48" using bounded_append(2) [OF b] sums by simp
    show "0 \<le> vw_balance w" "0 < amount" "vw_balance w + amount \<le> B" "0 \<le> int (length ps)"
      using sums b by (auto simp: bounded_def)
  qed
  then show ?thesis using assms by (simp add: tracks_def row_for_def apply_event_def add.commute)
qed

lemma tracks_extend:
  assumes "row_for E (ExtendEvent a i u) r p" and "tracks B ps w v" and "vw_unlock w \<le> u"
  shows "tracks B ps (w\<lparr>vw_unlock := u\<rparr>) (apply_event E p v)"
  using assms day_start_mono [of "vw_unlock w" u] by (auto simp: tracks_def row_for_def apply_event_def Let_def)

lemma tracks_withdraw:
  assumes "row_for E (WithdrawEvent a i (vw_balance w)) r p" and "tracks B ps w v"
  shows "tracks B ps (w\<lparr>vw_balance := vw_balance w - vw_balance w, vw_withdrawn := True\<rparr>) (apply_event E p v)"
proof -
  have "bounded B ps \<Longrightarrow> 0 \<le> int (length ps) * B" using assms(2) by (auto simp: tracks_def bounded_def)
  then have "bounded B ps \<Longrightarrow> (0 :: rat) \<le> of_int (int (length ps) * B)" by (simp only: of_int_0_le_iff)
  then show ?thesis using assms by (auto simp: tracks_def row_for_def apply_event_def)
qed

lemma simulates_other:
  assumes "event_vault e \<noteq> i" and "row_for E e r p" and "jm_ok M" and "simulates i a B ps m M"
  shows "simulates i a B (ps @ payment i e) (observe e m) (if ev_owner p = a then replay_event E p M else M)"
proof -
  have "observe e m i = m i" "payment i e = []" using assms(1) by (cases e; simp)+
  moreover have "jm_get (replay_event E p M) (vid i) = jm_get M (vid i)"
    using assms(1,2) by (simp add: replay_event_lookup [OF assms(3)] row_for_def)
  ultimately show ?thesis using assms(4) by (auto simp: simulates_def split: option.splits)
qed

lemma simulates_step:
  assumes ok: "jm_ok M" and sim: "simulates i a B ps m M" and l: "legal m e" and row: "row_for E e r p"
  shows "simulates i a B (ps @ payment i e) (observe e m) (if ev_owner p = a then replay_event E p M else M)"
proof (cases "event_vault e = i")
  case False
  then show ?thesis using row ok sim by (rule simulates_other)
next
  case True
  note look = replay_event_lookup [OF ok, of E p "vid i"]
  show ?thesis
  proof (cases e)
    case (CreateEvent b j amount u)
    then show ?thesis
      using sim l row True look tracks_create [of E b j amount u r p B] by (auto simp: simulates_def row_for_def)
  next
    case (DepositEvent b j amount)
    then show ?thesis
      using sim l row True look tracks_deposit [of E b j amount r p B ps]
      by (auto simp: simulates_def row_for_def split: option.splits if_splits)
  next
    case (ExtendEvent b j u)
    then show ?thesis
      using sim l row True look tracks_extend [of E b j u r p B ps]
      by (auto simp: simulates_def row_for_def split: option.splits if_splits)
  next
    case (WithdrawEvent b j amount)
    then show ?thesis
      using sim l row True look tracks_withdraw [of E b j _ r p B ps]
      by (auto simp: simulates_def row_for_def split: option.splits if_splits)
  qed
qed

text \<open>Nothing but the ids of told vaults is a key.\<close>

definition keys_told :: "address \<Rightarrow> (u64 \<Rightarrow> vault_view option) \<Rightarrow> (string, accum) jsmap \<Rightarrow> bool" where
  "keys_told a m M \<longleftrightarrow> (\<forall>k. jm_get M k \<noteq> None \<longrightarrow> (\<exists>i w. k = vid i \<and> m i = Some w \<and> vw_owner w = a))"

lemma observe_keeps: "m i = Some w \<Longrightarrow> legal m e \<Longrightarrow> \<exists>w'. observe e m i = Some w' \<and> vw_owner w' = vw_owner w"
  by (cases e) auto

lemma keys_told_step:
  assumes "jm_ok M" and "keys_told a m M" and "legal m e" and "row_for E e r p"
  shows "keys_told a (observe e m) (if ev_owner p = a then replay_event E p M else M)"
  unfolding keys_told_def
proof (intro allI impI)
  fix k assume k: "jm_get (if ev_owner p = a then replay_event E p M else M) k \<noteq> None"
  show "\<exists>i w. k = vid i \<and> observe e m i = Some w \<and> vw_owner w = a"
  proof (cases "jm_get M k")
    case (Some v)
    then show ?thesis using assms(2) observe_keeps [OF _ assms(3)] unfolding keys_told_def by fastforce
  next
    case None
    then have "k = vid (event_vault e)" "kind_of e = KCreate" "ev_owner p = a" "snd (event_topics e) = a"
      using k assms(4) by (auto simp: replay_event_lookup [OF assms(1)] row_for_def split: if_splits)
    then show ?thesis by (cases e) auto
  qed
qed

text \<open>The client's replay, event by event, follows the account book.\<close>

definition mine :: "address \<Rightarrow> parsed_event list \<Rightarrow> parsed_event list" where
  "mine a ps = filter (\<lambda>p. ev_owner p = a) ps"

lemma replay_simulates:
  assumes "legal_run (\<lambda>_. None) es" and "list_all2 (\<lambda>(e, r) p. row_for E e r p) (zip es rs) ps" and "length rs = length es"
  shows "jm_ok (fold (replay_event E) (mine a ps) []) \<and>
    keys_told a (fold observe es (\<lambda>_. None)) (fold (replay_event E) (mine a ps) []) \<and>
    simulates i a B (paid_in i es) (fold observe es (\<lambda>_. None)) (fold (replay_event E) (mine a ps) [])"
  using assms
proof (induction es arbitrary: rs ps rule: rev_induct)
  case Nil
  then show ?case by (simp add: mine_def simulates_def keys_told_def jm.lookup_empty jm.ok_empty)
next
  case (snoc e es)
  obtain rs' r where rs: "rs = rs' @ [r]" "length rs' = length es"
    using snoc.prems(3) by (cases rs rule: rev_cases) auto
  obtain ps' p where ps: "ps = ps' @ [p]" "list_all2 (\<lambda>(e, r) p. row_for E e r p) (zip es rs') ps'" "row_for E e r p"
    using snoc.prems(2) rs by (auto simp: list_all2_append1 list_all2_Cons1)
  have l: "legal_run (\<lambda>_. None) es" "legal (fold observe es (\<lambda>_. None)) e" using snoc.prems(1) by (simp_all add: legal_run_snoc)
  let ?M = "fold (replay_event E) (mine a ps') []"
  note IH = snoc.IH [OF l(1) ps(2) rs(2)]
  have M: "fold (replay_event E) (mine a ps) [] = (if ev_owner p = a then replay_event E p ?M else ?M)"
    by (simp add: ps(1) mine_def)
  show ?case
    using IH keys_told_step [OF _ _ l(2) ps(3), of ?M a] replay_event_ok [of ?M E p] simulates_step [OF _ _ l(2) ps(3), of ?M i a B]
    by (simp add: M)
qed

section \<open>From the contract's ledger to the client's rows\<close>

text \<open>The stream reports the events in the ledger's order, closing times do not go back, and every unlock
  time lies in the years that the notes carry.\<close>

definition history_told :: "env \<Rightarrow> chain_event list \<Rightarrow> event_response list \<Rightarrow> bool" where
  "history_told E es rs \<longleftrightarrow> list_all2 (reports E) es rs \<and> sorted (map er_closed_sec rs) \<and> list_all datable es"

lemma history_parses:
  assumes "list_all2 (reports E) es rs" and "list_all datable es"
  shows "\<exists>ps. list_all2 (parses E) rs ps \<and> list_all2 (\<lambda>(e, r) p. row_for E e r p) (zip es rs) ps \<and> map ev_timestamp ps = map er_closed_sec rs"
  using assms
proof (induction rule: list_all2_induct)
  case (Cons e es r rs)
  then obtain ps where "list_all2 (parses E) rs ps" "list_all2 (\<lambda>(e, r) p. row_for E e r p) (zip es rs) ps"
    "map ev_timestamp ps = map er_closed_sec rs" by auto
  moreover obtain p where "parses E r p" "row_for E e r p" using parse_report [of E e r] Cons by (auto simp: parses_def)
  moreover from this(2) have "ev_timestamp p = er_closed_sec r" by (simp add: row_for_def)
  ultimately show ?case by (intro exI [of _ "p # ps"]) simp
qed simp

lemma replay_in_order:
  assumes "sorted (map ev_timestamp ps)"
  shows "replay E a ps = fold (replay_event E) (mine a ps) []"
proof -
  have "sorted (map ev_timestamp (mine a ps))" unfolding mine_def by (rule sorted_filter [OF assms])
  then have "sorted_wrt older_first (mine a ps)"
    by (simp add: sorted_map) (erule sorted_wrt_mono_rel [rotated], simp add: older_first_def)
  then show ?thesis unfolding replay_def mine_def [symmetric] by (simp add: js_sort_sorted)
qed

text \<open>The order of the stream matters: a newer event that comes first, of the same second as the create event
  of its vault, stays first, and is skipped as an event of an unknown vault.\<close>

lemma same_second_reversed:
  assumes "ev_kind c = KCreate" and "ev_kind d \<noteq> KCreate" and "ev_timestamp d = ev_timestamp c"
    and "ev_vault_id d = ev_vault_id c" and "ev_owner d = a" "ev_owner c = a"
  shows "replay E a [d, c] = replay E a [c]"
  using assms by (simp add: replay_def js_sort_def older_first_def replay_event_def)

lemma balance_to_the_stroop:
  assumes "\<bar>x * 10000000 - of_int n\<bar> * 2 ^ 51 \<le> of_int C" and "C \<le> 2 ^ 48" and "0 \<le> n" "n \<le> 2 ^ 48"
  shows "xlmToStroops (Some x) = Inr n"
proof -
  have "(of_int C :: rat) \<le> of_int (2 ^ 48)" using assms(2) by (rule of_int_leI)
  then have e: "\<bar>x * 10000000 - of_int n\<bar> * 8 \<le> 1" using assms(1) by simp
  have "\<bar>of_int n :: rat\<bar> \<le> 1125899906842624" using of_int_leI [OF assms(4)] assms(3) by simp
  moreover have "\<bar>js_mul x 10000000 - x * 10000000\<bar> * 9007199254740992 \<le> \<bar>x * 10000000\<bar>"
    using rnd_error [of "x * 10000000"] by (simp add: js_mul_def)
  ultimately have "\<bar>js_mul x 10000000 - of_int n\<bar> < 1 / 2" using e by (intro two_roundings)
  then have "\<lfloor>js_mul x 10000000 + 1 / 2\<rfloor> = n" by (intro floor_unique) linarith+
  then show ?thesis by (simp add: xlmToStroops_def js_round_def)
qed

text \<open>What the client knows of a vault after the replay.\<close>

definition rebuilt :: "int list \<Rightarrow> chain_vault \<Rightarrow> accum \<Rightarrow> bool" where
  "rebuilt ps v acc \<longleftrightarrow> a_withdrawn acc = withdrawn v \<and> a_unlock acc = day_start (unlock_timestamp v) \<and>
     (bounded (sum_list ps) ps \<longrightarrow> xlmToStroops (Some (a_balance acc)) = Inr (balance v))"

lemma tracks_rebuilt:
  assumes "tracks (sum_list ps) ps (view_of v) acc"
  shows "rebuilt ps v acc"
proof -
  have "xlmToStroops (Some (a_balance acc)) = Inr (balance v)" if b: "bounded (sum_list ps) ps"
  proof (rule balance_to_the_stroop)
    show "\<bar>a_balance acc * 10000000 - of_int (balance v)\<bar> * 2 ^ 51 \<le> of_int (int (length ps) * sum_list ps)"
      using assms b by (simp add: tracks_def view_of_def)
    show "int (length ps) * sum_list ps \<le> 2 ^ 48" "0 \<le> balance v" using assms b by (simp_all add: tracks_def view_of_def bounded_def)
    have "sum_list ps \<le> 2 ^ 48" using assms b bounded_append(2) [of "sum_list ps" "[]" ps] by (cases ps) (auto simp: tracks_def)
    then show "balance v \<le> 2 ^ 48" using assms by (simp add: tracks_def view_of_def)
  qed
  then show ?thesis using assms by (simp add: rebuilt_def tracks_def view_of_def)
qed

text \<open>The replay of a told history of the ledger: the vaults of the owner, each rebuilt, and no other.\<close>

lemma replay_rebuilds:
  assumes laws: "token_laws P" and chain: "on_chain P (t, s)" and told: "history_told E (lg_events s) rs"
  shows "\<exists>ps. list_all2 (parses E) rs ps \<and>
    (\<forall>a k. jm_get (replay E a ps) k \<noteq> None \<longrightarrow> (\<exists>i v. k = vid i \<and> lg_vaults s i = Some v \<and> owner v = a)) \<and>
    (\<forall>i v. lg_vaults s i = Some v \<longrightarrow>
      (\<exists>acc. jm_get (replay E (owner v) ps) (vid i) = Some acc \<and> rebuilt (paid_in i (lg_events s)) v acc))"
proof -
  let ?es = "lg_events s"
  obtain ps where ps: "list_all2 (parses E) rs ps" "list_all2 (\<lambda>(e, r) p. row_for E e r p) (zip ?es rs) ps"
    "map ev_timestamp ps = map er_closed_sec rs"
    using history_parses [of E ?es rs] told by (auto simp: history_told_def)
  have len: "length rs = length ?es" using told by (auto simp: history_told_def dest: list_all2_lengthD)
  have l: "legal_run (\<lambda>_. None) ?es" using legal_always [OF laws chain] by (simp add: legal_ledger_def)
  have views: "fold observe ?es (\<lambda>_. None) = (\<lambda>i. map_option view_of (lg_vaults s i))"
    using told_always [OF chain] by (simp add: told_def observed_def)
  have in_order: "replay E a ps = fold (replay_event E) (mine a ps) []" for a
    using told by (intro replay_in_order) (simp add: ps(3) history_told_def)
  note sim = replay_simulates [OF l ps(2) len, folded in_order, unfolded views]
  have "\<exists>i v. k = vid i \<and> lg_vaults s i = Some v \<and> owner v = a" if "jm_get (replay E a ps) k \<noteq> None" for a k
    using sim [of a] that by (fastforce simp: keys_told_def view_of_def)
  moreover have "\<exists>acc. jm_get (replay E (owner v) ps) (vid i) = Some acc \<and> rebuilt (paid_in i ?es) v acc"
    if v: "lg_vaults s i = Some v" for i v
  proof -
    have "simulates i (owner v) (sum_list (paid_in i ?es)) (paid_in i ?es) (\<lambda>i. map_option view_of (lg_vaults s i)) (replay E (owner v) ps)"
      using sim by blast
    then show ?thesis using v tracks_rebuilt by (fastforce simp: simulates_def view_of_def)
  qed
  ultimately show ?thesis using ps(1) by blast
qed

lemma event_rows_return:
  "(\<And>hs. \<exists>m. e_getItem E hs = Inr m) \<Longrightarrow> \<exists>out w'. event_rows E g t metas vs w = (Inr out, w')"
proof (induction vs arbitrary: w)
  case (Cons iv vs)
  obtain i v where iv: "iv = (i, v)" by (cases iv)
  obtain m where m: "e_getItem E (w_log (record_action (AGetItem (metaKey g i)) w)) = Inr m" using Cons.prems by blast
  obtain out w' where "event_rows E g t metas vs (record_action (AGetItem (metaKey g i)) w) = (Inr out, w')"
    using Cons by blast
  then show ?case using m by (simp add: iv loadMeta_def eff_eval del: record_action_simps)
qed (simp add: ret_eval)

text \<open>What a row of the dashboard is to say of a vault at the clock's time \<open>now\<close>.\<close>

definition row_tells :: "int \<Rightarrow> int list \<Rightarrow> chain_vault \<Rightarrow> vault \<Rightarrow> bool" where
  "row_tells now ps v row \<longleftrightarrow> va_owner row = owner v \<and> va_unlock row = of_int (day_start (unlock_timestamp v)) \<and>
     va_status row = (if withdrawn v then Withdrawn else if day_start (unlock_timestamp v) \<le> now then Unlocked else Locked) \<and>
     (bounded (sum_list ps) ps \<longrightarrow> xlmToStroops (Some (va_balance row)) = Inr (balance v))"

lemma xlmToStroops_0: "xlmToStroops (Some 0) = Inr 0"
  by (simp add: xlmToStroops_def js_mul_def js_round_def rnd_def floor_unique)

lemma rebuilt_row:
  assumes "rebuilt ps v acc" and "vault_ok t i v"
  shows "row_tells now ps v (event_row E (owner v) now k acc meta None)"
  using assms by (auto simp: row_tells_def rebuilt_def event_row_def Let_def vault_ok_def xlmToStroops_0)

text \<open>The rows that an owner's accumulators become.\<close>

lemma rows_of_replay:
  assumes "event_rows E a now metas (replay E a ps) w = (Inr rows, w')"
  shows "map va_vault_id rows = map fst (replay E a ps)" and "distinct (map va_vault_id rows)"
    and "row \<in> set rows \<Longrightarrow> \<exists>acc meta. jm_get (replay E a ps) (va_vault_id row) = Some acc \<and>
      row = event_row E a now (va_vault_id row) acc meta (jm_get metas (va_vault_id row))"
proof -
  note all = event_rows_run [OF assms]
  show ids: "map va_vault_id rows = map fst (replay E a ps)"
    using all by induction (auto simp: event_row_def Let_def)
  have ok: "jm_ok (replay E a ps)" by (rule replay_lookup(1))
  then show "distinct (map va_vault_id rows)" by (simp add: ids jm_ok_def jm_keys_def)
  assume "row \<in> set rows"
  then obtain k acc meta where k: "(k, acc) \<in> set (replay E a ps)" "row = event_row E a now k acc meta (jm_get metas k)"
    using all by (fastforce simp: list_all2_conv_all_nth in_set_conv_nth)
  then have "va_vault_id row = k" by (simp add: event_row_def Let_def)
  moreover have "jm_get (replay E a ps) k = Some acc" using k(1) ok by (simp add: jm_get_map_of jm_ok_def jm_keys_def)
  ultimately show "\<exists>acc meta. jm_get (replay E a ps) (va_vault_id row) = Some acc \<and>
      row = event_row E a now (va_vault_id row) acc meta (jm_get metas (va_vault_id row))" using k(2) by blast
qed

text \<open>When an owner's accumulators are those of the ledger, so are the rows.\<close>

lemma rows_rebuilt:
  assumes run: "event_rows E a now metas (replay E a ps) w = (Inr rows, w')"
    and keys: "\<And>k. jm_get (replay E a ps) k \<noteq> None \<Longrightarrow> \<exists>i v. k = vid i \<and> lg_vaults s i = Some v \<and> owner v = a"
    and accs: "\<And>i v. lg_vaults s i = Some v \<Longrightarrow> owner v = a \<Longrightarrow>
      \<exists>acc. jm_get (replay E a ps) (vid i) = Some acc \<and> rebuilt (pays i) v acc"
    and ok: "\<And>i v. lg_vaults s i = Some v \<Longrightarrow> vault_ok t i v"
  shows "va_vault_id ` set rows = vid ` {i. \<exists>v. lg_vaults s i = Some v \<and> owner v = a}"
    and "lg_vaults s i = Some v \<Longrightarrow> owner v = a \<Longrightarrow>
      \<exists>row\<in>set rows. va_vault_id row = vid i \<and> (jm_get metas (vid i) = None \<longrightarrow> row_tells now (pays i) v row)"
proof -
  note r = rows_of_replay [OF run]
  have mem: "va_vault_id ` set rows = {k. jm_get (replay E a ps) k \<noteq> None}"
    using arg_cong [OF r(1), of set] by (auto simp: jm_get_None jm_keys_def)
  show "va_vault_id ` set rows = vid ` {i. \<exists>v. lg_vaults s i = Some v \<and> owner v = a}"
    unfolding mem using keys accs by fastforce
  assume v: "lg_vaults s i = Some v" "owner v = a"
  obtain acc where acc: "jm_get (replay E a ps) (vid i) = Some acc" "rebuilt (pays i) v acc" using accs [OF v] by blast
  then have "vid i \<in> va_vault_id ` set rows" by (simp add: mem)
  then obtain row where row: "row \<in> set rows" "va_vault_id row = vid i" by auto
  then obtain meta where "row = event_row E a now (vid i) acc meta (jm_get metas (vid i))" using r(3) [of row] acc(1) by auto
  then have "jm_get metas (vid i) = None \<longrightarrow> row_tells now (pays i) v row"
    using rebuilt_row [OF acc(2) ok [OF v(1)]] v(2) by simp
  then show "\<exists>row\<in>set rows. va_vault_id row = vid i \<and> (jm_get metas (vid i) = None \<longrightarrow> row_tells now (pays i) v row)"
    using row(2) by (intro bexI [OF _ row(1)] conjI)
qed

text \<open>C8: without simulation the dashboard still tells the ledger. Take any history of the ledger of up to a
  thousand events, reported in order by a server that serves it page by page, with unlock times
  between 2020 and 2100, and a readable storage. Then the reconstruction returns exactly one row for
  each vault that the contract holds for the owner and no other row; for a vault the backend knows
  nothing of, the row shows the contract's withdrawn flag, the unlock time moved back to midnight
  UTC of its day and the status that follows from it (locked only while the contract refuses;
  unlocked up to a day before it pays), and a balance that is the contract's to the stroop, if the
  number of payments into the vault times their sum stays below 2^48 stroops.\<close>
theorem events_rebuild_ledger:
  assumes laws: "token_laws P" and chain: "on_chain P (t, s)" and told: "history_told E (lg_events s) rs"
    and srv: "serves_events E cur cid (max 1 (latest - EVENT_LEDGERS_WINDOW)) rs" "\<And>hs. e_getLedger E hs = Inr latest"
    and few: "length (lg_events s) \<le> MAX_EVENTS" and "w_eventCache w = None"
    and store: "\<And>hs. \<exists>m. e_getItem E hs = Inr m" and clock: "\<And>hs. e_now E hs div 1000 = now"
  shows "\<exists>rows w'. aggregateVaultsFromEvents E a metas w = (Inr rows, w') \<and> distinct (map va_vault_id rows) \<and>
    va_vault_id ` set rows = vid ` {i. \<exists>v. lg_vaults s i = Some v \<and> owner v = a} \<and>
    (\<forall>i v. lg_vaults s i = Some v \<and> owner v = a \<longrightarrow>
      (\<exists>row\<in>set rows. va_vault_id row = vid i \<and> (jm_get metas (vid i) = None \<longrightarrow> row_tells now (paid_in i (lg_events s)) v row)))"
proof -
  obtain ps where ps: "list_all2 (parses E) rs ps"
    and keys: "\<And>k. jm_get (replay E a ps) k \<noteq> None \<Longrightarrow> \<exists>i v. k = vid i \<and> lg_vaults s i = Some v \<and> owner v = a"
    and accs: "\<And>i v. lg_vaults s i = Some v \<Longrightarrow> owner v = a \<Longrightarrow>
      \<exists>acc. jm_get (replay E a ps) (vid i) = Some acc \<and> rebuilt (paid_in i (lg_events s)) v acc"
    using replay_rebuilds [OF laws chain told] by blast
  have "length ps \<le> MAX_EVENTS" using few told ps by (auto simp: history_told_def dest!: list_all2_lengthD)
  then obtain w1 where fetch: "fetchContractEvents E w = (Inr ps, w1)"
    using fetch_served [OF srv(1) ps srv(2) assms(7)] by (cases "fetchContractEvents E w") simp
  obtain rows w2 where rows: "event_rows E a now metas (replay E a ps) w1 = (Inr rows, w2)"
    using event_rows_return [OF store] by blast
  have run: "aggregateVaultsFromEvents E a metas w = (Inr (js_sort newer_first rows), w2)"
    using fetch rows by (simp add: aggregateVaultsFromEvents_def seqM_eval getM_eval ret_eval clock)
  note r = rows_rebuilt [OF rows keys accs ledger_okD(2) [OF on_chain_ok [OF chain laws]]]
  have "distinct (map va_vault_id (js_sort newer_first rows))"
    using rows_of_replay(2) [OF rows] mset_eq_imp_distinct_iff [of "map va_vault_id (js_sort newer_first rows)" "map va_vault_id rows"]
    by simp
  then show ?thesis using run r
    by (intro exI [of _ "js_sort newer_first rows"] exI [of _ w2] conjI allI impI) (unfold by_newest.set_js_sort, blast+)
qed

text \<open>A vault of 40 stroops that unlocks on 29 February 2024, a second before midnight.\<close>

definition leap_vault :: chain_vault where
  "leap_vault = \<lparr>vault_id = 0, owner = ''alice'', vname = ''trip'', balance = 40, unlock_timestamp = 1709251199,
     created_timestamp = 1700000000, withdrawn = False\<rparr>"

definition leap_ledger :: "(address \<Rightarrow> int) ledger" where
  "leap_ledger = snd (invoke book_site (at_time 1700000000) (CreateVault ''alice'' ''trip'' 40 1709251199) ledger1)"

lemma leap_ledger_eq: "lg_vaults leap_ledger = [0 \<mapsto> leap_vault]" "lg_events leap_ledger = [CreateEvent ''alice'' 0 40 1709251199]"
  by (simp_all add: leap_ledger_def ledger1_eq invoke_def create_vault_def chain_eval deployed_def book_site_def book_def
      at_time_def checked_add_def leap_vault_def Let_def)

lemma leap_on_chain: "on_chain book_site (1700000000, leap_ledger)"
  using call_from [of book_site 5 ledger1 "at_time 1700000000" "CreateVault ''alice'' ''trip'' 40 1709251199"] on_chain1
  by (simp add: leap_ledger_def at_time_def book_site_def)

definition leap_stream :: "event_response list" where
  "leap_stream = [\<lparr>er_topic = [''k'', ''o''], er_data = ''v'', er_txHash = ''h'', er_closedAt = ''t'', er_closed_sec = 1700000000\<rparr>]"

definition leap_env :: env where
  "leap_env = demo_env\<lparr>
     e_now := \<lambda>_. 1709200000000,
     e_getEvents := \<lambda>hs. case fst (last hs) of
         AGetEvents _ _ (FromLedger _) _ \<Rightarrow> Inr (page_at unary leap_stream 0)
       | AGetEvents _ _ (FromCursor c) _ \<Rightarrow> Inr (page_at unary leap_stream (length c - 1))
       | _ \<Rightarrow> Inl (JsError ''no''),
     e_native := \<lambda>x. Inr (if x = ''k'' then NStr ''create'' else if x = ''o'' then NStr ''alice''
       else event_data (CreateEvent ''alice'' 0 40 1709251199))\<rparr>"

lemma leap_told: "history_told leap_env (lg_events leap_ledger) leap_stream"
  by (simp add: history_told_def leap_ledger_eq leap_stream_def reports_def leap_env_def datable_def)

lemma leap_serves: "serves_events leap_env unary ''C'' start leap_stream"
  by (auto simp: serves_events_def leap_env_def demo_env_def unary_def intro!: injI)

text \<open>On that day the client shows it as unlocked with its 40 stroops; the contract refuses.\<close>

theorem events_rebuild_ledger_witness:
  "(\<exists>rows w'. aggregateVaultsFromEvents leap_env ''alice'' [] demo_world = (Inr rows, w') \<and>
     (\<exists>row\<in>set rows. va_vault_id row = vid 0 \<and> va_status row = Unlocked \<and> xlmToStroops (Some (va_balance row)) = Inr 40)) \<and>
   fst (invoke book_site (at_time 1709200000) (Withdraw ''alice'' 0) leap_ledger) = Inl (Fail StillLocked)"
proof
  have "\<exists>rows w'. aggregateVaultsFromEvents leap_env ''alice'' [] demo_world = (Inr rows, w') \<and> distinct (map va_vault_id rows) \<and>
    va_vault_id ` set rows = vid ` {i. \<exists>v. lg_vaults leap_ledger i = Some v \<and> owner v = ''alice''} \<and>
    (\<forall>i v. lg_vaults leap_ledger i = Some v \<and> owner v = ''alice'' \<longrightarrow>
      (\<exists>row\<in>set rows. va_vault_id row = vid i \<and> (jm_get ([] :: (string, remote_meta) jsmap) (vid i) = None \<longrightarrow> row_tells 1709200000 (paid_in i (lg_events leap_ledger)) v row)))"
    by (rule events_rebuild_ledger [OF book_laws(1) leap_on_chain leap_told leap_serves])
      (simp_all add: leap_ledger_eq MAX_EVENTS_def demo_world_def leap_env_def demo_env_def)
  then obtain rows w' where run: "aggregateVaultsFromEvents leap_env ''alice'' [] demo_world = (Inr rows, w')"
    and vaults: "\<And>i v. lg_vaults leap_ledger i = Some v \<Longrightarrow> owner v = ''alice'' \<Longrightarrow>
      \<exists>row\<in>set rows. va_vault_id row = vid i \<and> row_tells 1709200000 (paid_in i (lg_events leap_ledger)) v row"
    by auto
  obtain row where row: "row \<in> set rows" "va_vault_id row = vid 0" "row_tells 1709200000 [40] leap_vault row"
    using vaults [of 0 leap_vault] by (auto simp: leap_ledger_eq leap_vault_def paid_in_def)
  then have "va_status row = Unlocked" "xlmToStroops (Some (va_balance row)) = Inr 40"
    by (simp_all add: row_tells_def leap_vault_def day_start_def bounded_def)
  then show "\<exists>rows w'. aggregateVaultsFromEvents leap_env ''alice'' [] demo_world = (Inr rows, w') \<and>
     (\<exists>row\<in>set rows. va_vault_id row = vid 0 \<and> va_status row = Unlocked \<and> xlmToStroops (Some (va_balance row)) = Inr 40)"
    using run row by blast
  show "fst (invoke book_site (at_time 1709200000) (Withdraw ''alice'' 0) leap_ledger) = Inl (Fail StillLocked)"
    by (simp add: invoke_def withdraw_all_def chain_eval leap_ledger_eq leap_vault_def at_time_def)
qed

end
