(* ===== verification/Chain_Reads.thy ===== *)
theory Chain_Reads imports Chain_Events Vault_List begin

text \<open>
  The contract and the client composed over the simulated reads: a server that answers a simulation by
  running the contract on the ledger, under the vault list of \<^verbatim>\<open>soroban-client.ts\<close>. The contract's
  calls by name and typed arguments are its interface as the client uses it.
\<close>

section \<open>The contract's interface\<close>

definition word_of :: "int \<Rightarrow> u64 option" where
  "word_of n = (if 0 \<le> n \<and> n < 2 ^ 64 then Some (word_of_int n) else None)"

text \<open>Arguments by their types; \<open>None\<close> for another type or a value out of range.\<close>

fun as_address :: "sc_type \<times> native \<Rightarrow> address option" where
  "as_address (ScAddress, NStr a) = Some a"
| "as_address _ = None"

fun as_u64 :: "sc_type \<times> native \<Rightarrow> u64 option" where
  "as_u64 (ScU64, NInt n) = word_of n"
| "as_u64 _ = None"

fun as_i128 :: "sc_type \<times> native \<Rightarrow> int option" where
  "as_i128 (ScI128, NInt n) = (if - I128_MAX - 1 \<le> n \<and> n \<le> I128_MAX then Some n else None)"
| "as_i128 _ = None"

fun as_text :: "sc_type \<times> native \<Rightarrow> string option" where
  "as_text (ScString, NStr s) = Some s"
| "as_text _ = None"

text \<open>The function of a name, applied to its arguments; \<open>None\<close> when there is no such function.\<close>

definition call_named :: "string \<Rightarrow> (sc_type \<times> native) list \<Rightarrow> contract_call option" where
  "call_named f args = (case args of
      [x] \<Rightarrow>
        if f = ''list_owned'' then map_option ListOwned (as_address x)
        else if f = ''get_vault'' then map_option GetVault (as_u64 x) else None
    | [x, y] \<Rightarrow>
        if f = ''withdraw'' then Option.bind (as_address x) (\<lambda>a. map_option (Withdraw a) (as_u64 y)) else None
    | [x, y, z] \<Rightarrow>
        if f = ''deposit'' then Option.bind (as_address x) (\<lambda>a. Option.bind (as_u64 y) (\<lambda>i. map_option (Deposit a i) (as_i128 z)))
        else if f = ''extend_lock'' then Option.bind (as_address x) (\<lambda>a. Option.bind (as_u64 y) (\<lambda>i. map_option (ExtendLock a i) (as_u64 z)))
        else None
    | [x, y, z, u] \<Rightarrow>
        if f = ''create_vault'' then Option.bind (as_address x) (\<lambda>a. Option.bind (as_text y) (\<lambda>nm.
          Option.bind (as_i128 z) (\<lambda>amount. map_option (CreateVault a nm amount) (as_u64 u)))) else None
    | _ \<Rightarrow> None)"

fun is_read :: "contract_call \<Rightarrow> bool" where
  "is_read (GetVault _) \<longleftrightarrow> True"
| "is_read (ListOwned _) \<longleftrightarrow> True"
| "is_read _ \<longleftrightarrow> False"

lemma as_address_Some: "as_address x = Some a \<longleftrightarrow> x = (ScAddress, NStr a)"
  by (cases x rule: as_address.cases) auto

lemma as_u64_Some: "as_u64 x = Some i \<longleftrightarrow> x = (ScU64, NInt (uint i))"
proof -
  have "word_of n = Some i \<longleftrightarrow> n = uint i" for n
    using uint_lt2p [of i] by (auto simp: word_of_def uint_word_of_int)
  then show ?thesis by (cases x rule: as_u64.cases) auto
qed

lemma call_named_read:
  assumes "call_named f args = Some c" and "is_read c"
  obtains a where "f = ''list_owned''" "args = [(ScAddress, NStr a)]" "c = ListOwned a"
  | i where "f = ''get_vault''" "args = [(ScU64, NInt (uint i))]" "c = GetVault i"
  using assms by (auto simp: call_named_def as_address_Some as_u64_Some bind_eq_Some_conv split: list.splits if_splits)

lemma call_named_reads:
  "call_named ''list_owned'' [(ScAddress, NStr a)] = Some (ListOwned a)"
  "call_named ''get_vault'' [(ScU64, NInt (uint i))] = Some (GetVault i)"
  using uint_lt2p [of i] by (simp_all add: call_named_def word_of_def)

text \<open>The contract's vault as the SDK's \<^verbatim>\<open>scValToNative\<close> returns it: a struct is an object with its field
  names, 64- and 128-bit integers are \<^verbatim>\<open>bigint\<close>s, addresses and strings are strings.\<close>

definition native_vault :: "chain_vault \<Rightarrow> native" where
  "native_vault v = NMap [(''vault_id'', NInt (uint (vault_id v))), (''owner'', NStr (owner v)), (''name'', NStr (vname v)),
     (''balance'', NInt (balance v)), (''unlock_timestamp'', NInt (uint (unlock_timestamp v))),
     (''created_timestamp'', NInt (uint (created_timestamp v))), (''withdrawn'', NBool (withdrawn v))]"

fun native_value :: "contract_value \<Rightarrow> native" where
  "native_value VUnit = NNull"
| "native_value (VId i) = NInt (uint i)"
| "native_value (VTime u) = NInt (uint u)"
| "native_value (VAmount n) = NInt n"
| "native_value (VVault v) = native_vault v"
| "native_value (VIds is) = NVec (map (\<lambda>i. NInt (uint i)) is)"

text \<open>What \<^verbatim>\<open>decodeVault\<close> is to make of it.\<close>

definition decoded :: "chain_vault \<Rightarrow> contract_vault" where
  "decoded v = \<lparr>cv_id = uint (vault_id v), cv_owner = owner v, cv_name = vname v, cv_balance = balance v,
     cv_unlock = uint (unlock_timestamp v), cv_created = uint (created_timestamp v), cv_withdrawn = withdrawn v\<rparr>"

lemma decode_native_vault: "decodeVault (native_vault v) = Inr (decoded v)"
  by (simp add: decodeVault_def native_vault_def decoded_def js_field_def js_BigInt_def js_Boolean_def)

section \<open>A server backed by the ledger\<close>

definition encoded :: "env \<Rightarrow> sc_type \<times> native \<Rightarrow> xdr \<Rightarrow> bool" where
  "encoded E arg x \<longleftrightarrow> e_scval E (fst arg) (snd arg) = Inr x"

text \<open>\<open>L\<close> is the ledger behind the server after a history; only a sent envelope changes it. Accounts load,
  transactions build, arguments convert; and simulating a reading call that the contract answers on
  the ledger gives the encoding of its value.\<close>

definition sendless :: "entry \<Rightarrow> bool" where
  "sendless x \<longleftrightarrow> (case fst x of ASend _ _ \<Rightarrow> False | _ \<Rightarrow> True)"

definition backed_by :: "env \<Rightarrow> 'tok site \<Rightarrow> invocation \<Rightarrow> (history \<Rightarrow> 'tok ledger) \<Rightarrow> bool" where
  "backed_by E P I L \<longleftrightarrow> (\<forall>hs x. sendless x \<longrightarrow> L (hs @ [x]) = L hs) \<and>
     (\<forall>hs. \<exists>acc. e_getAccount E hs = Inr acc) \<and> (\<forall>c. e_contract E c = Inr ()) \<and>
     (\<forall>rq. \<exists>tx. e_build E rq = Inr tx) \<and> (\<forall>t n. \<exists>x. e_scval E t n = Inr x) \<and>
     (\<forall>hs server h rq tx cid f args params c val.
        e_build E rq = Inr tx \<longrightarrow> rq_op rq = CallOp cid f params \<longrightarrow> call_named f args = Some c \<longrightarrow> is_read c \<longrightarrow>
        list_all2 (encoded E) args params \<longrightarrow> fst (invoke P I c (L hs)) = Inr val \<longrightarrow>
        (\<exists>d rv. e_simulate E (hs @ [(ASimulate server tx, h)]) = Inr (SimSuccess d (Some rv) None) \<and>
          e_native E rv = Inr (native_value val)))"

lemma backed_totals:
  assumes "backed_by E P I L"
  shows "\<exists>acc. e_getAccount E hs = Inr acc" "e_contract E c = Inr ()" "\<exists>tx. e_build E rq = Inr tx" "\<exists>x. e_scval E t n = Inr x"
    "sendless x \<Longrightarrow> L (hs @ [x]) = L hs"
  using assms unfolding backed_by_def by blast+

lemma backed_simulation:
  assumes "backed_by E P I L" and "e_build E rq = Inr tx" and "rq_op rq = CallOp cid f params" and "call_named f args = Some c" "is_read c"
    and "list_all2 (encoded E) args params" and "fst (invoke P I c (L hs)) = Inr val"
  shows "\<exists>d rv. e_simulate E (hs @ [(ASimulate server tx, h)]) = Inr (SimSuccess d (Some rv) None) \<and> e_native E rv = Inr (native_value val)"
  using assms unfolding backed_by_def by blast

text \<open>Whatever sends nothing leaves the ledger as it is.\<close>

lemma sendless_log:
  assumes "backed_by E P I L" and "\<forall>x\<in>set new. sendless x"
  shows "L (hs @ new) = L hs"
  using assms(2)
proof (induction new rule: rev_induct)
  case (snoc x new)
  then show ?case using backed_totals(5) [OF assms(1), of x "hs @ new"] by simp
qed simp

lemma no_send_sendless: "no_send x \<Longrightarrow> sendless x"
  by (cases "fst x") (simp_all add: no_send_def sendless_def)

lemma ledger_stays:
  assumes "backed_by E P I L" and "appends no_send m" and "m w = (r, w')"
  shows "L (w_log w') = L (w_log w)"
proof -
  obtain new where "w_log w' = w_log w @ new" "\<forall>x\<in>set new. no_send x" using appendsD [OF assms(2,3)] by blast
  then show ?thesis using sendless_log [OF assms(1)] no_send_sendless by metis
qed

lemma loadAccount_backed:
  assumes "backed_by E P I L"
  shows "\<exists>acc v. loadAccount E pk w = (Inr acc, v) \<and> L (w_log v) = L (w_log w)"
proof -
  let ?w = "record_action (AGetAccount (e_url E (w_log w)) pk) w"
  obtain acc where "e_getAccount E (w_log ?w) = Inr acc" using backed_totals(1) [OF assms] by blast
  then have "seqM (rpcServer E) (\<lambda>server. ask (AGetAccount server pk) (e_getAccount E)) w = (Inr acc, ?w)"
    by (simp add: rpcServer_def eff_eval)
  then have "loadAccount E pk w = (Inr acc, ?w)"
    using failover_first by (fastforce simp: loadAccount_def getActiveDeployment_def seqM_eval [of "getM _"] getM_eval)
  moreover have "L (w_log ?w) = L (w_log w)" using sendless_log [OF assms, of "[(AGetAccount (e_url E (w_log w)) pk, w_heap w)]"]
    by (simp add: sendless_def)
  ultimately show ?thesis by blast
qed

lemma invokeRead_backed:
  assumes b: "backed_by E P I L" and c: "call_named f args = Some c" "is_read c" "list_all2 (encoded E) args params"
    and val: "fst (invoke P I c (L (w_log w))) = Inr val"
  shows "\<exists>rv v. invokeRead E f params w = (Inr rv, v) \<and> e_native E rv = Inr (native_value val)"
proof -
  let ?dep = "e_dep E (w_log w)"
  obtain acc v where acc: "loadAccount E (READ_SIM_SOURCE (d_network ?dep)) w = (Inr acc, v)" "L (w_log v) = L (w_log w)"
    using loadAccount_backed [OF b] by blast
  let ?rq = "\<lparr>rq_source = acc, rq_fee = BASE_FEE, rq_passphrase = d_passphrase ?dep,
         rq_data = None, rq_op = CallOp (d_contractId ?dep) f params, rq_timeout = 60\<rparr>"
  obtain tx where tx: "e_build E ?rq = Inr tx" using backed_totals(3) [OF b] by blast
  let ?server = "e_url E (w_log v)"
  obtain d rv where sim: "e_simulate E (w_log v @ [(ASimulate ?server tx, w_heap v)]) = Inr (SimSuccess d (Some rv) None)"
    "e_native E rv = Inr (native_value val)"
    using backed_simulation [OF b tx _ c, of _ "w_log v"] val acc(2) by fastforce
  have "seqM (rpcServer E) (\<lambda>server. ask (ASimulate server tx) (e_simulate E)) v =
      (Inr (SimSuccess d (Some rv) None), record_action (ASimulate ?server tx) v)"
    using sim(1) by (simp add: rpcServer_def eff_eval)
  note fo = failover_first [of "seqM (rpcServer E) (\<lambda>server. ask (ASimulate server tx) (e_simulate E))", OF this]
  have "invokeRead E f params w = (Inr rv, record_action (ASimulate ?server tx) v)"
    using acc(1) tx fo backed_totals(2) [OF b]
    by (simp add: invokeRead_def getActiveDeployment_def seqM_eval [of "getM _"] getM_eval seqM_eval catchM_eval liftM_eval ret_eval)
  then show ?thesis using sim(2) by blast
qed

section \<open>The list\<close>

text \<open>A vault of the ledger as the client's row, at some moment of the phone's clock with some metadata.\<close>

definition ledger_row :: "env \<Rightarrow> chain_vault \<Rightarrow> vault \<Rightarrow> bool" where
  "ledger_row E v row \<longleftrightarrow> (\<exists>hs meta. row = toVault (e_now E hs) (decoded v) meta)"

lemma loadMeta_returns:
  assumes "\<And>hs. \<exists>m. e_getItem E hs = Inr m"
  shows "\<exists>meta w'. loadMeta E g i w = (Inr meta, w')"
proof -
  obtain m where "e_getItem E (w_log (record_action (AGetItem (metaKey g i)) w)) = Inr m" using assms by blast
  then show ?thesis by (simp add: loadMeta_def seqM_eval ask_def Let_def ret_eval)
qed

lemma read_vault_backed:
  assumes b: "backed_by E P I L" and store: "\<And>hs. \<exists>m. e_getItem E hs = Inr m" and v: "lg_vaults (L (w_log w)) i = Some v"
  shows "\<exists>row w'. read_vault E g (uint i) w = (Inr row, w') \<and> ledger_row E v row"
proof -
  obtain x where x: "scU64 E (uint i) = Inr x" using backed_totals(4) [OF b] by (fastforce simp: scU64_def)
  have val: "fst (invoke P I (GetVault i) (L (w_log w))) = Inr (VVault v)"
    using v by (simp add: invoke_def get_vault_def load_vault_def eff_eval mapM_def)
  have "list_all2 (encoded E) [(ScU64, NInt (uint i))] [x]" using x by (simp add: encoded_def scU64_def)
  then obtain rv w1 where r: "invokeRead E ''get_vault'' [x] w = (Inr rv, w1)" "e_native E rv = Inr (native_vault v)"
    using invokeRead_backed [OF b call_named_reads(2) _ _ val, of "[x]"] by auto
  have dec: "bind_res (e_native E rv) decodeVault = Inr (decoded v)" using r(2) by (simp add: decode_native_vault)
  obtain meta w2 where meta: "loadMeta E (g (decoded v)) (int_string (cv_id (decoded v))) w1 = (Inr meta, w2)"
    using loadMeta_returns [OF store] by blast
  have "read_vault E g (uint i) w = (Inr (toVault (e_now E (w_log w2)) (decoded v) meta), w2)"
    unfolding read_vault_def x
    by (simp only: seqM_eval [of "liftM _"] liftM_eval seqM_eval [of "invokeRead _ _ _"] r(1) prod.case sum.case dec
        seqM_eval [of "loadMeta _ _ _"] meta getM_eval)
  then show ?thesis unfolding ledger_row_def by blast
qed

lemma read_vaults_backed:
  assumes b: "backed_by E P I L" and store: "\<And>hs. \<exists>m. e_getItem E hs = Inr m"
  shows "L (w_log w) = s \<Longrightarrow> (\<And>i. i \<in> set is \<Longrightarrow> lg_vaults s i \<noteq> None) \<Longrightarrow> \<exists>rows w'. read_vaults E g (map uint is) w = (Inr (map Inr rows), w') \<and>
    list_all2 (\<lambda>i row. \<exists>v. lg_vaults s i = Some v \<and> ledger_row E v row) is rows"
proof (induction "is" arbitrary: w)
  case (Cons i "is")
  obtain v where v: "lg_vaults s i = Some v" using Cons.prems(2) by force
  obtain row w1 where row: "read_vault E (\<lambda>_. g) (uint i) w = (Inr row, w1)" "ledger_row E v row"
    using read_vault_backed [OF b store] v Cons.prems(1) by blast
  have "L (w_log w1) = s" using ledger_stays [OF b quiet_read_vault row(1)] Cons.prems(1) by simp
  then obtain rows w2 where rows: "read_vaults E g (map uint is) w1 = (Inr (map Inr rows), w2)"
    "list_all2 (\<lambda>i row. \<exists>v. lg_vaults s i = Some v \<and> ledger_row E v row) is rows"
    using Cons.IH [of w1] Cons.prems by auto
  have "read_vaults E g (map uint (i # is)) w = (Inr (map Inr (row # rows)), w2)"
    using row(1) rows(1) by (simp add: seqM_eval attemptM_eval ret_eval)
  then show ?case using v row(2) rows(2) by (intro exI [of _ "row # rows"] exI [of _ w2]) auto
qed (simp add: ret_eval)

lemma first_rejection_none: "first_rejection (map Inr xs) = Inr xs"
  by (induction xs) simp_all

lemma ids_of_native: "ids_of (native_value (VIds is)) = Inr (map uint is)"
  by (simp add: ids_of_def comp_def js_BigInt_def first_rejection_none [of "map uint is", simplified comp_def map_map])

lemma simulate_list_backed:
  assumes b: "backed_by E P I L" and store: "\<And>hs. \<exists>m. e_getItem E hs = Inr m" and s: "L (w_log w) = s"
    and known: "\<And>i. i \<in> set (owned_by s a) \<Longrightarrow> lg_vaults s i \<noteq> None"
  shows "\<exists>rows w'. simulate_list E a w = (Inr rows, w') \<and>
    list_all2 (\<lambda>i row. \<exists>v. lg_vaults s i = Some v \<and> ledger_row E v row) (owned_by s a) rows"
proof -
  obtain x where x: "scAddress E a = Inr x" using backed_totals(4) [OF b] by (fastforce simp: scAddress_def)
  have val: "fst (invoke P I (ListOwned a) (L (w_log w))) = Inr (VIds (owned_by s a))"
    by (simp add: s invoke_def list_owned_def owned_by_def eff_eval mapM_def)
  have "list_all2 (encoded E) [(ScAddress, NStr a)] [x]" using x by (simp add: encoded_def scAddress_def)
  then obtain rv w1 where r: "invokeRead E ''list_owned'' [x] w = (Inr rv, w1)" "e_native E rv = Inr (native_value (VIds (owned_by s a)))"
    using invokeRead_backed [OF b call_named_reads(1) _ _ val, of "[x]"] by auto
  have "L (w_log w1) = s" using ledger_stays [OF b quiet_invokeRead r(1)] s by simp
  then obtain rows w2 where rows: "read_vaults E a (map uint (owned_by s a)) w1 = (Inr (map Inr rows), w2)"
    "list_all2 (\<lambda>i row. \<exists>v. lg_vaults s i = Some v \<and> ledger_row E v row) (owned_by s a) rows"
    using read_vaults_backed [OF b store _ known] by blast
  have "simulate_list E a w = (Inr rows, w2)"
    using x r rows(1) by (simp add: simulate_list_def seqM_eval liftM_eval ids_of_native first_rejection_none del: native_value.simps)
  then show ?thesis using rows(2) by blast
qed

lemma list_all2_mem_right: "list_all2 P xs ys \<Longrightarrow> y \<in> set ys \<Longrightarrow> \<exists>x\<in>set xs. P x y"
  by (induction rule: list_all2_induct) auto

text \<open>The sanitisation leaves alone what the ledger gave, and what is shown as active was picked.\<close>

lemma finish_list_live:
  assumes "finish_list E g metas picked w = (Inr out, w')"
  shows "row \<in> set picked \<Longrightarrow> \<not> looksZero row \<Longrightarrow> va_status row \<noteq> Archived \<Longrightarrow> row \<in> set out"
    and "row \<in> set out \<Longrightarrow> va_status row = Locked \<or> va_status row = Unlocked \<Longrightarrow> va_vault_id row \<in> va_vault_id ` set picked"
proof -
  let ?ms = "jm_of_list (map (\<lambda>m. (rm_vault_id m, m)) metas)"
  obtain t overlay w1 where
    o: "buildArchivedOverlayFromMetas E g metas (map va_vault_id (sanitise_list E t ?ms picked)) w1 = (Inr overlay, w')"
    and out: "out = js_sort archived_last (sanitise_list E t ?ms picked @ overlay)"
    using assms by (auto simp: finish_list_def Let_def getM_eval ret_eval elim!: seqM_cases)
  have mem: "r \<in> set out \<longleftrightarrow> r \<in> set (sanitise_list E t ?ms picked) \<or> r \<in> set overlay" for r
    by (simp add: out by_archive.set_js_sort)
  show "row \<in> set out" if "row \<in> set picked" "\<not> looksZero row" "va_status row \<noteq> Archived"
  proof -
    have "sanitise E t ?ms row = row" using that(2) by (simp add: sanitise_def)
    then show ?thesis unfolding mem sanitise_list_def using that by (force simp: anchored_def)
  qed
  show "va_vault_id row \<in> va_vault_id ` set picked" if "row \<in> set out" "va_status row = Locked \<or> va_status row = Unlocked"
    using that overlay_rows(2) [OF o] unfolding mem by (fastforce simp: sanitise_list_def)
qed

lemma js_of_int_pos: "0 < n \<Longrightarrow> 0 < js_of_int n"
  using js_of_int_le_iff [of n 0] by simp

text \<open>What a row of the ledger shows.\<close>

lemma ledger_rowD:
  assumes row: "ledger_row E v row" and ok: "vault_ok t i v" and created: "0 < created_timestamp v"
  shows "va_vault_id row = vid i" and "va_balance row = stroopsToXlm (balance v)" and "va_unlock row = js_of_int (uint (unlock_timestamp v))"
    and "\<exists>hs. va_status row = statusFor (decoded v) (e_now E hs div 1000)" and "va_status row \<noteq> Archived" and "\<not> looksZero row"
proof -
  obtain hs meta where r: "row = toVault (e_now E hs) (decoded v) meta" using row unfolding ledger_row_def by blast
  have i: "vault_id v = i" and "0 < unlock_timestamp v" using ok created by (auto simp: vault_ok_def)
  then have "0 < js_of_int (uint (unlock_timestamp v))" "0 < js_of_int (uint (created_timestamp v))"
    using created by (simp_all add: js_of_int_pos word_less_def)
  then show "va_vault_id row = vid i" "va_balance row = stroopsToXlm (balance v)" "va_unlock row = js_of_int (uint (unlock_timestamp v))"
    "\<exists>hs. va_status row = statusFor (decoded v) (e_now E hs div 1000)" "va_status row \<noteq> Archived" "\<not> looksZero row"
    using i by (auto simp: r toVault_def decoded_def vid_def looksZero_def statusFor_def)
qed

text \<open>What the vault cache's \<^verbatim>\<open>mergeVaults\<close> is relied on for: a live row is shown as it is, and nothing is
  invented.\<close>

definition merge_laws :: "env \<Rightarrow> vault list \<Rightarrow> bool" where
  "merge_laws E cached \<longleftrightarrow> (\<forall>vs. set vs \<subseteq> set (e_merge E cached vs) \<and> set (e_merge E cached vs) \<subseteq> set vs \<union> set cached)"

lemma simulate_step_backed:
  assumes "simulate_list E a w = (Inr rows, w')" and "\<not> w_simBroken w"
  shows "simulate_step E a w = (Inr (Some rows), w')"
  using assms by (simp add: simulate_step_def seqM_eval getM_eval attemptM_eval ret_eval)

text \<open>Nothing after the simulation gives the simulate path up.\<close>

lemma keeps_broken_parts:
  "keeps (\<lambda>w. w_simBroken w = c) (push_live E a vs)" "keeps (\<lambda>w. w_simBroken w = c) (buildArchivedOverlayFromMetas E a metas ids)"
  "keeps (\<lambda>w. w_simBroken w = c) (read_vaults E a js)"
proof -
  have upd: "keeps (\<lambda>w. w_simBroken w = c) (updM f)" if "\<And>w. w_simBroken (f w) = w_simBroken w" for f :: "world \<Rightarrow> world"
    using that by (simp add: keeps_def updM_def)
  show "keeps (\<lambda>w. w_simBroken w = c) (push_live E a vs)"
    by (induction vs) (auto simp: pushSnapshotToBackend_def patch_snapshot_def getActiveDeployment_def intro!: keeps_intro upd)
  show "keeps (\<lambda>w. w_simBroken w = c) (buildArchivedOverlayFromMetas E a metas ids)"
    by (induction metas) (auto simp: dismissVaultMeta_def patch_snapshot_def getActiveDeployment_def intro!: keeps_intro)
  show "keeps (\<lambda>w. w_simBroken w = c) (read_vaults E a js)"
    by (induction js) (auto simp: read_vault_def loadMeta_def intro!: keeps_intro keeps_invokeRead)
qed

lemma keeps_broken_list:
  "keeps (\<lambda>w. w_simBroken w = c) (simulate_list E a)" "keeps (\<lambda>w. w_simBroken w = c) (pick_live E a cached (Some rows) ev)"
  "keeps (\<lambda>w. w_simBroken w = c) (finish_list E a metas vs)"
proof -
  show "keeps (\<lambda>w. w_simBroken w = c) (simulate_list E a)"
    by (auto simp: simulate_list_def intro!: keeps_intro keeps_invokeRead keeps_broken_parts)
  have "keeps (\<lambda>w. w_simBroken w = c) (updM (\<lambda>w. w\<lparr>w_lastSynced := f w\<rparr>))" for f :: "world \<Rightarrow> int option"
    by (simp add: keeps_def updM_def)
  then show "keeps (\<lambda>w. w_simBroken w = c) (pick_live E a cached (Some rows) ev)"
    by (auto simp: pick_live_def accept_live_def Let_def intro!: keeps_intro)
  show "keeps (\<lambda>w. w_simBroken w = c) (finish_list E a metas vs)"
    by (auto simp: finish_list_def Let_def intro!: keeps_intro keeps_broken_parts)
qed

lemma listVaults_backed:
  assumes b: "backed_by E P I L" and store: "\<And>hs. \<exists>m. e_getItem E hs = Inr m" and s: "L (w_log w) = s"
    and known: "\<And>i. i \<in> set (owned_by s a) \<Longrightarrow> lg_vaults s i \<noteq> None"
    and "\<not> w_simBroken w" and cached: "\<And>hs. e_loadVaults E hs = Inr cached"
  shows "\<exists>rows out w' metas v. listVaults E a w = (Inr out, w') \<and> finish_list E a metas (e_merge E cached rows) v = (Inr out, w') \<and>
    list_all2 (\<lambda>i row. \<exists>v. lg_vaults s i = Some v \<and> ledger_row E v row) (owned_by s a) rows \<and> \<not> w_simBroken w'"
proof -
  let ?Q = "\<lambda>w. \<not> w_simBroken w"
  note stays = ledger_stays [OF b]
  obtain w1 where 1: "hydrateMetaFromBackend E a w = (Inr (), w1)" using returnsD [OF returns_list_parts(1), of E a w] by auto
  have q1: "?Q w1" using keeps_result [OF keeps_log_metas(2) [of ?Q] _ 1] assms(5) by simp
  define w2 where "w2 = record_action (ALoadVaults a) w1"
  have 2: "(catchM (ask (ALoadVaults a) (e_loadVaults E)) (\<lambda>_. ret []) :: vault list io) w1 = (Inr cached, w2)"
    by (simp add: catchM_eval ask_def Let_def cached w2_def)
  obtain metas w3 where 3: "early_metas E a w2 = (Inr metas, w3)" using returnsD [OF returns_list_parts(2), of E a w2] by auto
  have q3: "?Q w3" using keeps_result [OF keeps_log_metas(3) [of ?Q] _ 3] q1 by (simp add: w2_def)
  have "L (w_log w3) = s"
    using stays [OF quiet_hydrate 1] backed_totals(5) [OF b, of "(ALoadVaults a, w_heap w1)" "w_log w1"] stays [OF quiet_early 3] s
    by (simp add: w2_def sendless_def)
  then obtain rows w4 where 4: "simulate_list E a w3 = (Inr rows, w4)"
    "list_all2 (\<lambda>i row. \<exists>v. lg_vaults s i = Some v \<and> ledger_row E v row) (owned_by s a) rows"
    using simulate_list_backed [OF b store _ known] by blast
  note 5 = simulate_step_backed [OF 4(1) q3]
  obtain w5 where 6: "pick_live E a cached (Some rows) None w4 = (Inr (e_merge E cached rows), w5)"
    by (simp add: pick_live_def accept_live_def Let_def eff_eval)
  obtain out w6 where 7: "finish_list E a metas (e_merge E cached rows) w5 = (Inr out, w6)"
    using returnsD [OF returns_list_parts(6), of E a metas "e_merge E cached rows" w5] by auto
  have "listVaults E a w = (Inr out, w6)"
    using 1 2 3 5 6 7 by (simp add: listVaults_def seqM_eval [of "hydrateMetaFromBackend _ _"] seqM_eval [of "catchM _ _"]
      seqM_eval [of "early_metas _ _"] seqM_eval [of "simulate_step _ _"] seqM_eval [of "pick_live _ _ _ _ _"] events_step_def seqM_eval [of "ret _"] ret_eval)
  moreover have "?Q w6"
    using keeps_result [OF keeps_broken_list(1) [of False] _ 4(1)] keeps_result [OF keeps_broken_list(2) [of False] _ 6]
      keeps_result [OF keeps_broken_list(3) [of False] _ 7] q3 by simp
  ultimately show ?thesis using 7 4(2) by blast
qed

section \<open>The status shown and the contract's answer\<close>

text \<open>For every vault of the ledger and a clock that agrees with the ledger's, the status of the decoded
  vault tells what the owner's authorised withdrawal would come to; the comparison in floating point
  loses nothing.\<close>

definition answer_to :: "vstatus \<Rightarrow> int \<Rightarrow> abort + contract_value" where
  "answer_to st amount = (case st of
     Withdrawn \<Rightarrow> Inl (Fail AlreadyWithdrawn) | Locked \<Rightarrow> Inl (Fail StillLocked) | _ \<Rightarrow> Inr (VAmount amount))"

lemma status_predicts_withdrawal:
  assumes "token_laws P" and "token_pays P" and "on_chain P (in_now I, s)" and "lg_vaults s i = Some v"
    and "in_auth I (owner v)" and "owner v \<noteq> st_self P" and "uint (in_now I) < 2 ^ 53"
  shows "fst (invoke P I (Withdraw (owner v) i) s) = answer_to (statusFor (decoded v) (uint (in_now I))) (balance v)"
proof -
  have "js_of_int (uint (unlock_timestamp v)) \<le> of_int (uint (in_now I)) \<longleftrightarrow> unlock_timestamp v \<le> in_now I"
    using js_of_int_le_iff [of "uint (unlock_timestamp v)" "uint (in_now I)"] assms(7) by (simp add: word_le_def)
  then show ?thesis
    by (simp add: withdraw_outcome [OF assms(3,1,2,4,5,6)] statusFor_def decoded_def answer_to_def flip: not_le)
qed

lemma list_tells:
  assumes laws: "token_laws P" "token_pays P" and chain: "on_chain P (in_now I, s)" and b: "backed_by E P I L" "L (w_log w) = s"
    and store: "\<And>hs. \<exists>m. e_getItem E hs = Inr m" and "\<not> w_simBroken w"
    and cached: "\<And>hs. e_loadVaults E hs = Inr cached" and merge: "merge_laws E cached"
    and clock: "\<And>hs. e_now E hs div 1000 = uint (in_now I)" "uint (in_now I) < 2 ^ 53"
    and begun: "\<forall>i v. lg_vaults s i = Some v \<longrightarrow> 0 < created_timestamp v"
    and auth: "in_auth I a" "a \<noteq> st_self P"
  shows "\<exists>out w'. listVaults E a w = (Inr out, w') \<and>
    (\<forall>i v. lg_vaults s i = Some v \<and> owner v = a \<longrightarrow> (\<exists>row\<in>set out. va_vault_id row = vid i \<and>
      va_balance row = stroopsToXlm (balance v) \<and> va_unlock row = js_of_int (uint (unlock_timestamp v)) \<and>
      fst (invoke P I (Withdraw a i) s) = answer_to (va_status row) (balance v) \<and> va_status row \<noteq> Archived)) \<and>
    (\<forall>row\<in>set out. va_status row = Locked \<or> va_status row = Unlocked \<longrightarrow>
      va_vault_id row \<in> vid ` {i. \<exists>v. lg_vaults s i = Some v \<and> owner v = a} \<union> va_vault_id ` set cached) \<and>
    \<not> w_simBroken w' \<and> L (w_log w') = s"
proof -
  have started: "0 < created_timestamp v" if "lg_vaults s i = Some v" for i v using begun that by blast
  note ok = on_chain_ok [OF chain laws(1)]
  have owned: "set (owned_by s a) = {i. \<exists>v. lg_vaults s i = Some v \<and> owner v = a}" by (rule ledger_okD(5) [OF ok])
  have known: "lg_vaults s i \<noteq> None" if "i \<in> set (owned_by s a)" for i using that owned by auto
  obtain rows out w' metas v0 where run: "listVaults E a w = (Inr out, w')"
    and fin: "finish_list E a metas (e_merge E cached rows) v0 = (Inr out, w')"
    and rows: "list_all2 (\<lambda>i row. \<exists>v. lg_vaults s i = Some v \<and> ledger_row E v row) (owned_by s a) rows"
    and flag: "\<not> w_simBroken w'"
    using listVaults_backed [OF b(1) store b(2) known assms(7) cached] by blast
  have shown: "\<exists>row\<in>set out. va_vault_id row = vid i \<and> va_balance row = stroopsToXlm (balance v) \<and>
      va_unlock row = js_of_int (uint (unlock_timestamp v)) \<and> fst (invoke P I (Withdraw a i) s) = answer_to (va_status row) (balance v) \<and> va_status row \<noteq> Archived"
    if v: "lg_vaults s i = Some v" "owner v = a" for i v
  proof -
    have "i \<in> set (owned_by s a)" using v owned by blast
    then obtain row where row: "row \<in> set rows" "ledger_row E v row" using list_all2_mem [OF rows] v(1) by force
    note r = ledger_rowD [OF row(2) ledger_okD(2) [OF ok v(1)] started [OF v(1)]]
    have "row \<in> set out" using finish_list_live(1) [OF fin _ r(6,5)] row(1) merge by (auto simp: merge_laws_def)
    moreover have "va_status row = statusFor (decoded v) (uint (in_now I))" using r(4) clock(1) by auto
    then have "fst (invoke P I (Withdraw a i) s) = answer_to (va_status row) (balance v)"
      using status_predicts_withdrawal [OF laws chain v(1) _ _ clock(2)] auth v(2) by simp
    moreover note r(5)
    ultimately show ?thesis using r(1-3) by blast
  qed
  have active: "va_vault_id row \<in> vid ` {i. \<exists>v. lg_vaults s i = Some v \<and> owner v = a} \<union> va_vault_id ` set cached"
    if row: "row \<in> set out" "va_status row = Locked \<or> va_status row = Unlocked" for row
  proof -
    have "va_vault_id row \<in> va_vault_id ` (set rows \<union> set cached)"
      using finish_list_live(2) [OF fin row] merge by (auto simp: merge_laws_def)
    moreover have "va_vault_id r \<in> vid ` set (owned_by s a)" if r: "r \<in> set rows" for r
    proof -
      obtain i v where i: "i \<in> set (owned_by s a)" "lg_vaults s i = Some v" "ledger_row E v r"
        using list_all2_mem_right [OF rows r] by blast
      then show ?thesis using ledger_rowD(1) [OF i(3) ledger_okD(2) [OF ok i(2)] started [OF i(2)]] by simp
    qed
    ultimately show ?thesis using owned by auto
  qed
  have "L (w_log w') = s" using ledger_stays [OF b(1) quiet_listVaults run] b(2) by simp
  with flag show ?thesis
    by (intro exI [of _ out] exI [of _ w'] conjI allI impI ballI run)
      (erule conjE, rule shown, assumption+, rule active, assumption+)
qed

text \<open>C7: the list shows the ledger, and its status is the contract's answer. Take any history of the
  ledger, a server that answers simulations by running the contract on it, a phone whose clock agrees
  with the ledger's, a readable storage, any backend and any cache of vaults that merging only adds
  rows from. Then \<^verbatim>\<open>listVaults\<close> returns a list in which every vault that the contract holds for the
  owner has a row with its id, its balance, its unlock time and a status that is the answer the owner
  would get to a withdrawal now: withdrawn if refused as withdrawn, locked if refused as locked,
  unlocked if it pays that balance. A row shown as locked or unlocked is of such a vault or comes
  from the cache.\<close>
theorem listVaults_tells_contract:
  assumes laws: "token_laws P" "token_pays P" and chain: "on_chain P (in_now I, s)" and b: "backed_by E P I L" "L (w_log w) = s"
    and store: "\<And>hs. \<exists>m. e_getItem E hs = Inr m" and "\<not> w_simBroken w"
    and cached: "\<And>hs. e_loadVaults E hs = Inr cached" and merge: "merge_laws E cached"
    and clock: "\<And>hs. e_now E hs div 1000 = uint (in_now I)" "uint (in_now I) < 2 ^ 53"
    and started: "\<And>i v. lg_vaults s i = Some v \<Longrightarrow> 0 < created_timestamp v"
    and auth: "in_auth I a" "a \<noteq> st_self P"
  shows "\<exists>out w'. listVaults E a w = (Inr out, w') \<and>
    (\<forall>i v. lg_vaults s i = Some v \<and> owner v = a \<longrightarrow> (\<exists>row\<in>set out. va_vault_id row = vid i \<and>
      va_balance row = stroopsToXlm (balance v) \<and> va_unlock row = js_of_int (uint (unlock_timestamp v)) \<and>
      fst (invoke P I (Withdraw a i) s) = answer_to (va_status row) (balance v))) \<and>
    (\<forall>row\<in>set out. va_status row = Locked \<or> va_status row = Unlocked \<longrightarrow>
      va_vault_id row \<in> vid ` {i. \<exists>v. lg_vaults s i = Some v \<and> owner v = a} \<union> va_vault_id ` set cached)"
proof -
  have "\<forall>i v. lg_vaults s i = Some v \<longrightarrow> 0 < created_timestamp v" using started by blast
  from list_tells [OF laws chain b store assms(7) cached merge clock this auth] show ?thesis by blast
qed

text \<open>A server with the ledger of the leap day: an argument and a call are written as text, and the value
  that a simulation returns is the text of the call.\<close>

definition ledger_env :: env where
  "ledger_env = demo_env\<lparr>
     e_now := \<lambda>_. 1709200000000,
     e_getAccount := \<lambda>_. Inr \<lparr>ac_id = ''G'', ac_sequence = ''1''\<rparr>,
     e_scval := \<lambda>t n. Inr ((case t of ScAddress \<Rightarrow> ''A'' | ScU64 \<Rightarrow> ''U'' | ScI128 \<Rightarrow> ''I'' | ScString \<Rightarrow> ''S'') @ js_String n),
     e_build := \<lambda>rq. Inr (case rq_op rq of CallOp _ f ps \<Rightarrow> f @ '':'' @ concat ps | _ \<Rightarrow> []),
     e_simulate := \<lambda>hs. case fst (last hs) of ASimulate _ tx \<Rightarrow> Inr (SimSuccess None (Some tx) None) | _ \<Rightarrow> Inl (JsError ''no''),
     e_native := \<lambda>x. Inr (if take 12 x = ''list_owned:A'' then native_value (VIds (owned_by leap_ledger (drop 12 x))) else native_vault leap_vault)\<rparr>"

lemma ledger_backed: "backed_by ledger_env book_site I (\<lambda>_. leap_ledger)"
proof -
  have "\<exists>d rv. e_simulate ledger_env (hs @ [(ASimulate server tx, h)]) = Inr (SimSuccess d (Some rv) None) \<and>
      e_native ledger_env rv = Inr (native_value val)"
    if tx: "e_build ledger_env rq = Inr tx" "rq_op rq = CallOp cid f params" and c: "call_named f args = Some c" "is_read c"
      and ps: "list_all2 (encoded ledger_env) args params" and val: "fst (invoke book_site I c leap_ledger) = Inr val"
    for hs server h rq tx cid f args params c val
    using c
  proof (cases rule: call_named_read)
    case (1 a)
    then have "val = VIds (owned_by leap_ledger a)" "tx = ''list_owned:A'' @ a"
      using val tx ps by (auto simp: invoke_def list_owned_def owned_by_def eff_eval mapM_def ledger_env_def encoded_def list_all2_Cons1)
    then show ?thesis by (simp add: ledger_env_def)
  next
    case (2 i)
    then have "lg_vaults leap_ledger i \<noteq> None" "val = VVault (the (lg_vaults leap_ledger i))"
      using val by (auto simp: invoke_def get_vault_def load_vault_def eff_eval mapM_def split: option.splits)
    then have "val = VVault leap_vault" by (auto simp: leap_ledger_eq split: if_splits)
    moreover have "take 12 tx \<noteq> ''list_owned:A''" using 2 tx ps by (auto simp: ledger_env_def)
    ultimately show ?thesis by (simp add: ledger_env_def)
  qed
  then show ?thesis by (auto simp: backed_by_def) (simp_all add: ledger_env_def demo_env_def)
qed

theorem listVaults_tells_contract_witness:
  "\<exists>out w'. listVaults ledger_env ''alice'' demo_world = (Inr out, w') \<and>
    (\<exists>row\<in>set out. va_vault_id row = vid 0 \<and> va_balance row = stroopsToXlm 40 \<and> va_status row = Locked)"
proof -
  let ?I = "at_time 1709200000"
  have chain: "on_chain book_site (in_now ?I, leap_ledger)"
    using on_chain_later [OF leap_on_chain, of 1709200000] by (simp add: at_time_def)
  have "\<exists>out w'. listVaults ledger_env ''alice'' demo_world = (Inr out, w') \<and>
    (\<forall>i v. lg_vaults leap_ledger i = Some v \<and> owner v = ''alice'' \<longrightarrow> (\<exists>row\<in>set out. va_vault_id row = vid i \<and>
      va_balance row = stroopsToXlm (balance v) \<and> va_unlock row = js_of_int (uint (unlock_timestamp v)) \<and>
      fst (invoke book_site ?I (Withdraw ''alice'' i) leap_ledger) = answer_to (va_status row) (balance v))) \<and>
    (\<forall>row\<in>set out. va_status row = Locked \<or> va_status row = Unlocked \<longrightarrow>
      va_vault_id row \<in> vid ` {i. \<exists>v. lg_vaults leap_ledger i = Some v \<and> owner v = ''alice''} \<union> va_vault_id ` set ([] :: vault list))"
    by (rule listVaults_tells_contract [OF book_laws chain ledger_backed])
      (auto simp: ledger_env_def demo_env_def demo_world_def merge_laws_def at_time_def leap_ledger_eq leap_vault_def book_site_def split: if_splits)
  then obtain out w' where run: "listVaults ledger_env ''alice'' demo_world = (Inr out, w')"
    and all: "\<And>i v. lg_vaults leap_ledger i = Some v \<Longrightarrow> owner v = ''alice'' \<Longrightarrow> \<exists>row\<in>set out. va_vault_id row = vid i \<and>
      va_balance row = stroopsToXlm (balance v) \<and> fst (invoke book_site ?I (Withdraw ''alice'' i) leap_ledger) = answer_to (va_status row) (balance v)"
    by blast
  obtain row where row: "row \<in> set out" "va_vault_id row = vid 0" "va_balance row = stroopsToXlm 40"
      "fst (invoke book_site ?I (Withdraw ''alice'' 0) leap_ledger) = answer_to (va_status row) 40"
    using all [of 0 leap_vault] by (auto simp: leap_ledger_eq(1) leap_vault_def)
  have "fst (invoke book_site ?I (Withdraw ''alice'' 0) leap_ledger) = Inl (Fail StillLocked)"
    by (simp add: invoke_def withdraw_all_def chain_eval leap_ledger_eq leap_vault_def at_time_def)
  then have "va_status row = Locked" using row(4) by (simp add: answer_to_def split: vstatus.splits)
  then show ?thesis using run row by blast
qed

end
