(* ===== verification/Chain_Writes.thy ===== *)
theory Chain_Writes imports Chain_Reads begin

text \<open>
  The write operations of \<^verbatim>\<open>soroban-client.ts\<close> against the contract's interface: which call of the
  contract the envelope carries that an operation sends, from the caller's text and floating-point
  arguments to the contract's 64- and 128-bit integers, and what executing it does to the ledger.
\<close>

section \<open>The call in an envelope\<close>

text \<open>\<open>t\<close> is the signature of the assembly of a transaction with the call \<open>c\<close>.\<close>

definition envelope_of :: "env \<Rightarrow> contract_call \<Rightarrow> xdr \<Rightarrow> bool" where
  "envelope_of E c t \<longleftrightarrow> (\<exists>rq tx cid f params args sim assembled pub sk.
     rq_op rq = CallOp cid f params \<and> call_named f args = Some c \<and> list_all2 (encoded E) args params \<and>
     e_build E rq = Inr tx \<and> e_assemble E tx sim = Inr assembled \<and> e_sign E assembled pub sk = Inr t)"

lemma build_call_built:
  assumes "build_call E pk f params w = (Inr tx, w')"
  shows "\<exists>rq cid. rq_op rq = CallOp cid f params \<and> e_build E rq = Inr tx"
proof -
  obtain acc v and dep :: deployment where "loadAccount E pk w = (Inr acc, v)"
    and "e_build E \<lparr>rq_source = acc, rq_fee = BASE_FEE, rq_passphrase = d_passphrase dep, rq_data = None,
       rq_op = CallOp (d_contractId dep) f params, rq_timeout = 60\<rparr> = Inr tx"
    using assms unfolding build_call_def by (elim seqM_Inr_elim) (simp add: liftM_eval)
  then show ?thesis
    by (intro exI [of _ "\<lparr>rq_source = acc, rq_fee = BASE_FEE, rq_passphrase = d_passphrase dep, rq_data = None,
       rq_op = CallOp (d_contractId dep) f params, rq_timeout = 60\<rparr>"]) simp
qed

lemma prepare_carries:
  assumes "prepare E server pk f params w = (Inr t, w')" and "call_named f args = Some c" and "list_all2 (encoded E) args params"
  shows "envelope_of E c t"
proof -
  obtain tx v sim u assembled where tx: "build_call E pk f params w = (Inr tx, v)" and a: "e_assemble E tx sim = Inr assembled"
    and sign: "sign_phase E f assembled u = (Inr t, w')"
    using assms(1) by (auto simp: prepare_def throw_eval liftM_eval elim!: seqM_cases catchM_cases split: sim.splits)
  obtain rq cid where rq: "rq_op rq = CallOp cid f params" "e_build E rq = Inr tx" using build_call_built [OF tx] by blast
  from sign obtain pub sk where "e_sign E assembled pub sk = Inr t" by (cases rule: sign_phase_cases) auto
  then show ?thesis unfolding envelope_of_def using rq a assms(2,3) by blast
qed

lemma invokeContract_carries:
  assumes "invokeContract E pk f params w = (r, w')" and "call_named f args = Some c" and "list_all2 (encoded E) args params"
    and t: "(server, t) \<in> set (sends (since w w'))"
  shows "envelope_of E c t"
  using assms(1)
proof (cases rule: invokeContract_shape)
  case (unsent e)
  then have "\<forall>x\<in>set (since w w'). no_send x" by blast
  then show ?thesis using t by (simp add: no_send_lists)
next
  case (rejected t' v new s)
  then have "t = t'" using t by (simp add: no_send_lists)
  then show ?thesis using prepare_carries [OF rejected(1) assms(2,3)] by simp
next
  case (sent t' v new new2 resp)
  then have "t = t'" using t by (simp add: no_send_lists polling_sends)
  then show ?thesis using prepare_carries [OF sent(1) assms(2,3)] by simp
qed

section \<open>The operations\<close>

definition carries :: "env \<Rightarrow> 'a io \<Rightarrow> contract_call \<Rightarrow> bool" where
  "carries E m c \<longleftrightarrow> (\<forall>w r w' server t. m w = (r, w') \<longrightarrow> (server, t) \<in> set (sends (since w w')) \<longrightarrow> envelope_of E c t)"

lemma carries_lift: "(\<And>x. q = Inr x \<Longrightarrow> carries E (f x) c) \<Longrightarrow> carries E (seqM (liftM q) f) c"
  by (cases q) (auto simp: carries_def seqM_eval liftM_eval)

lemma carries_invoke:
  assumes "call_named f args = Some c" and "list_all2 (encoded E) args params" and q: "\<And>x. appends no_send (k x)"
  shows "carries E (seqM (invokeContract E pk f params) k) c"
  unfolding carries_def
proof (intro allI impI)
  fix w r w' server t
  assume "seqM (invokeContract E pk f params) k w = (r, w')" and t: "(server, t) \<in> set (sends (since w w'))"
  then show "envelope_of E c t"
  proof (cases rule: seqM_cases)
    case (throws e)
    then show ?thesis using invokeContract_carries [OF _ assms(1,2) t] by blast
  next
    case (goes_on x v)
    have "since w w' = since w v @ since v w'"
      by (rule since_trans)
        (use appends_grows [OF appends_invokeContract, of w E pk f params] appends_grows [OF q, of v x] goes_on in simp_all)
    moreover have "sends (since v w') = []" using no_send_lists appends_since [OF q goes_on(2)] by blast
    ultimately have "(server, t) \<in> set (sends (since w v))" using t by simp
    then show ?thesis by (rule invokeContract_carries [OF goes_on(1) assms(1,2)])
  qed
qed

text \<open>The texts and numbers of the caller as the contract's integers.\<close>

definition vault_arg :: "string \<Rightarrow> u64 option" where
  "vault_arg i = Option.bind (string_int i) word_of"

definition amount_arg :: "number option \<Rightarrow> int option" where
  "amount_arg x = (case xlmToStroops x of Inl _ \<Rightarrow> None | Inr n \<Rightarrow> as_i128 (ScI128, NInt n))"

definition u64_arg :: "number option \<Rightarrow> u64 option" where
  "u64_arg x = (case number_int x of Inl _ \<Rightarrow> None | Inr n \<Rightarrow> word_of n)"

lemmas arg_defs = vault_arg_def amount_arg_def u64_arg_def

lemma carries_withdraw:
  assumes "vault_arg i = Some j"
  shows "carries E (withdraw E i g) (Withdraw g j)"
proof -
  obtain n where n: "js_BigInt (NStr i) = Inr n" "word_of n = Some j"
    using assms by (auto simp: vault_arg_def js_BigInt_def bind_eq_Some_conv)
  have call: "call_named ''withdraw'' [(ScAddress, NStr g), (ScU64, NInt n)] = Some (Withdraw g j)"
    using n(2) by (simp add: call_named_def)
  show ?thesis unfolding withdraw_def
    by (intro carries_lift carries_invoke [OF call] quiet) (simp_all add: n(1) encoded_def scAddress_def scU64_def)
qed

lemma carries_deposit:
  assumes "vault_arg i = Some j" and "amount_arg amount = Some k"
  shows "carries E (deposit E i g amount) (Deposit g j k)"
proof -
  obtain n where n: "js_BigInt (NStr i) = Inr n" "word_of n = Some j"
    using assms(1) by (auto simp: vault_arg_def js_BigInt_def bind_eq_Some_conv)
  have k: "xlmToStroops amount = Inr k" "as_i128 (ScI128, NInt k) = Some k"
    using assms(2) by (auto simp: amount_arg_def split: sum.splits if_splits)
  have call: "call_named ''deposit'' [(ScAddress, NStr g), (ScU64, NInt n), (ScI128, NInt k)] = Some (Deposit g j k)"
    using n(2) k(2) by (simp add: call_named_def)
  show ?thesis unfolding deposit_def
    by (intro carries_lift carries_invoke [OF call] quiet) (simp_all add: n(1) k(1) encoded_def scAddress_def scU64_def scI128_def)
qed

lemma carries_extendLock:
  assumes "vault_arg i = Some j" and "u64_arg secs = Some d"
  shows "carries E (extendLock E i g secs) (ExtendLock g j d)"
proof -
  obtain n where n: "js_BigInt (NStr i) = Inr n" "word_of n = Some j"
    using assms(1) by (auto simp: vault_arg_def js_BigInt_def bind_eq_Some_conv)
  obtain k where k: "number_int secs = Inr k" "word_of k = Some d" using assms(2) by (auto simp: u64_arg_def split: sum.splits)
  have call: "call_named ''extend_lock'' [(ScAddress, NStr g), (ScU64, NInt n), (ScU64, NInt k)] = Some (ExtendLock g j d)"
    using n(2) k(2) by (simp add: call_named_def)
  show ?thesis unfolding extendLock_def
    by (intro carries_lift carries_invoke [OF call] quiet) (simp_all add: n(1) k(1) encoded_def scAddress_def scU64_def)
qed

lemma carries_createVault:
  assumes "amount_arg (ci_deposit inp) = Some k" and "u64_arg (ci_unlock inp) = Some u"
  shows "carries E (createVault E inp) (CreateVault (ci_owner inp) (ci_name inp) k u)"
proof -
  have k: "xlmToStroops (ci_deposit inp) = Inr k" "as_i128 (ScI128, NInt k) = Some k"
    using assms(1) by (auto simp: amount_arg_def split: sum.splits if_splits)
  obtain n where n: "number_int (ci_unlock inp) = Inr n" "word_of n = Some u" using assms(2) by (auto simp: u64_arg_def split: sum.splits)
  have call: "call_named ''create_vault'' [(ScAddress, NStr (ci_owner inp)), (ScString, NStr (ci_name inp)), (ScI128, NInt k), (ScU64, NInt n)] =
      Some (CreateVault (ci_owner inp) (ci_name inp) k u)"
    using n(2) k(2) by (simp add: call_named_def)
  show ?thesis unfolding createVault_def
    by (intro carries_lift carries_invoke [OF call])
      (auto simp: n(1) k(1) encoded_def scAddress_def scU64_def scI128_def scString_def intro!: appends_intro quiet split: option.splits)
qed

section \<open>What is shown is what is sent\<close>

lemma nat_string_digits: "nat_string n \<noteq> [] \<and> list_all is_digit (nat_string n)"
proof (induction n rule: nat_string.induct)
  case (1 n)
  have "is_digit (char_of (48 + n mod 10))" by (auto simp: is_digit_def)
  moreover have "n < 10 \<Longrightarrow> is_digit (char_of (48 + n))" by (auto simp: is_digit_def)
  ultimately show ?case using 1 by (subst (1 2) nat_string.simps) auto
qed

lemma digit_value: "is_digit c \<Longrightarrow> digit_in 10 c = Some (of_char c - 48)"
  by (auto simp: digit_in_def is_digit_def Let_def)

lemma digits_in_foldl:
  "list_all is_digit s \<Longrightarrow> foldl (\<lambda>acc c. case (acc, digit_in 10 c) of (Some n, Some d) \<Rightarrow> Some (int 10 * n + int d) | _ \<Rightarrow> None) (Some (int a)) s =
    Some (int (foldl (\<lambda>n c. 10 * n + (of_char c - 48)) a s))"
proof (induction s arbitrary: a)
  case (Cons c s)
  then show ?case using Cons.IH [of "10 * a + (of_char c - 48)"] by (simp add: digit_value)
qed simp

lemma digits_in_10: "s \<noteq> [] \<Longrightarrow> list_all is_digit s \<Longrightarrow> digits_in 10 s = Some (int (digits_value s))"
  using digits_in_foldl [of s 0] by (simp add: digits_in_def digits_value_def)

lemma digit_no_space: "is_digit c \<Longrightarrow> \<not> is_space c"
  by (auto simp: is_digit_def is_space_def)

lemma trim_digits: "list_all is_digit s \<Longrightarrow> trim s = s"
proof -
  assume s: "list_all is_digit s"
  have keep: "list_all is_digit t \<Longrightarrow> dropWhile is_space t = t" for t by (cases t) (auto simp: digit_no_space)
  show ?thesis using s keep [of s] keep [of "rev s"] by (simp add: trim_def list_all_iff)
qed

lemma string_int_back: "0 \<le> n \<Longrightarrow> string_int (int_string n) = Some n"
proof -
  assume n: "0 \<le> n"
  let ?s = "nat_string (nat n)"
  have s: "?s \<noteq> []" "list_all is_digit ?s" using nat_string_digits by blast+
  have "lower_char x = x" if "is_digit x" for x using that by (auto simp: lower_char_def is_digit_def)
  then have low: "to_lower ?s = ?s" using s(2) by (auto simp: to_lower_def list_all_iff intro: map_idI)
  have "\<forall>x\<in>set (take 2 ?s). is_digit x" using s(2) by (auto simp: list_all_iff dest: in_set_takeD)
  then have "take 2 ?s \<noteq> ''0x''" "take 2 ?s \<noteq> ''0o''" "take 2 ?s \<noteq> ''0b''" by (auto simp: is_digit_def)
  moreover have "hd ?s \<noteq> CHR ''-''" "hd ?s \<noteq> CHR ''+''" using s by (cases ?s; auto simp: is_digit_def)+
  ultimately have "string_int ?s = digits_in 10 ?s"
    using s(1) by (simp add: string_int_def Let_def trim_digits [OF s(2)] low)
  then show ?thesis using n digits_in_10 [OF s] by (simp add: int_string_def digits_nat_string)
qed

lemma vault_arg_vid: "vault_arg (vid j) = Some j"
  using uint_lt2p [of j] by (simp add: vault_arg_def vid_def string_int_back word_of_def)

lemma amount_arg_shown: "0 \<le> k \<Longrightarrow> k \<le> 2 ^ 50 \<Longrightarrow> amount_arg (Some (stroopsToXlm k)) = Some k"
  using stroops_back [of k] by (simp add: amount_arg_def I128_MAX_def)

lemma u64_arg_shown: "uint d < 2 ^ 53 \<Longrightarrow> u64_arg (Some (js_of_int (uint d))) = Some d"
proof -
  assume d: "uint d < 2 ^ 53"
  have "number_int (Some (of_int n)) = Inr n" for n by (simp add: number_int_def)
  moreover have "js_of_int n = of_int n" if "0 \<le> n" "n < 2 ^ 53" for n using that by (intro js_of_int_exact) simp
  ultimately have "number_int (Some (js_of_int (uint d))) = Inr (uint d)" using d by (simp only: unsigned_greater_eq)
  then show ?thesis using uint_lt2p [of d] by (simp add: u64_arg_def word_of_def)
qed

text \<open>C9: what the user asks for is the call that the contract gets. Take the id of any vault as the list
  shows it, any amount up to 2^50 stroops as the app shows it in XLM, and any number of seconds that a
  double holds. Whatever the network does, an envelope that one of the four write operations sends is
  the signature of the assembly of a transaction whose only operation is the contract's function of
  that name on exactly these arguments: the vault's id, the amount in stroops, the seconds and the
  unlock time; no conversion between text, double and the contract's integers changes them.\<close>
theorem writes_carry_call:
  assumes "0 \<le> k" and "k \<le> 2 ^ 50" and "uint d < 2 ^ 53"
  shows "carries E (withdraw E (vid j) a) (Withdraw a j) \<and>
    carries E (deposit E (vid j) a (Some (stroopsToXlm k))) (Deposit a j k) \<and>
    carries E (extendLock E (vid j) a (Some (js_of_int (uint d)))) (ExtendLock a j d) \<and>
    carries E (createVault E \<lparr>ci_owner = a, ci_name = nm, ci_description = desc, ci_template = tpl,
      ci_deposit = Some (stroopsToXlm k), ci_unlock = Some (js_of_int (uint d)), ci_target = target\<rparr>) (CreateVault a nm k d)"
  using carries_withdraw [OF vault_arg_vid] carries_deposit [OF vault_arg_vid amount_arg_shown [OF assms(1,2)]]
    carries_extendLock [OF vault_arg_vid u64_arg_shown [OF assms(3)]]
    carries_createVault [of "\<lparr>ci_owner = a, ci_name = nm, ci_description = desc, ci_template = tpl,
      ci_deposit = Some (stroopsToXlm k), ci_unlock = Some (js_of_int (uint d)), ci_target = target\<rparr>" k d E]
    amount_arg_shown [OF assms(1,2)] u64_arg_shown [OF assms(3)]
  by simp

theorem writes_carry_call_witness:
  "envelope_of demo_env (Withdraw ''G'' 4) ''tx 10000 assembled signed''"
proof -
  let ?m = "withdraw demo_env ''4'' ''G''"
  have run: "?m quiet_world = (fst (?m quiet_world), snd (?m quiet_world))" by simp
  have sent: "(''r1'', ''tx 10000 assembled signed'') \<in> set (sends (since quiet_world (snd (?m quiet_world))))"
    by (simp add: withdraw_def scAddress_def scU64_def js_BigInt_def string_int_4
        getVault_def get_simulated_def get_from_events_def fetchContractEvents_def EVENT_CACHE_MS_def quiet_world_def demo_unfold since_def)
  have "nat_string 4 = ''4''" by code_simp
  then have id: "vid 4 = ''4''" by (simp add: vid_def int_string_def)
  have "carries demo_env ?m (Withdraw ''G'' 4)"
    using writes_carry_call [of 1 1 demo_env 4 "''G''"] by (simp add: id)
  with run sent show ?thesis unfolding carries_def by blast
qed

end
