(* ===== verification/Chain_Settles.thy ===== *)
theory Chain_Settles imports Chain_Writes begin

text \<open>
  The write operations of \<^verbatim>\<open>soroban-client.ts\<close> from the user's tap to the ledger and back: over a network
  that preflights and executes calls by running the contract, an operation either settles the
  contract's call or shows the contract's refusal.
\<close>

section \<open>The network\<close>

text \<open>The host's text for an error that the contract returns; the diagnostics \<open>post\<close> may say anything.\<close>

definition host_text :: "contract_error \<Rightarrow> string \<Rightarrow> string" where
  "host_text e post = ''HostError: '' @ code_text '' '' (nat_string (error_code e)) @ post"

text \<open>What a simulation says of an answer of the contract; a trap is an error with some text.\<close>

fun sim_answer :: "abort + contract_value \<Rightarrow> sim \<Rightarrow> bool" where
  "sim_answer (Inr val) q \<longleftrightarrow> (\<exists>d rv p. q = SimSuccess d rv p)"
| "sim_answer (Inl (Fail e)) q \<longleftrightarrow> (\<exists>post. q = SimError (host_text e post))"
| "sim_answer (Inl Trap) q \<longleftrightarrow> (\<exists>diag. q = SimError diag)"

lemma sim_answer_abort:
  "sim_answer (Inl ab) q \<Longrightarrow> \<exists>diag. q = SimError diag \<and> (\<forall>e. ab = Fail e \<longrightarrow> (\<exists>post. diag = host_text e post))"
  by (cases ab) auto

text \<open>Simulating the call \<open>c\<close> runs the contract on the ledger of that moment.\<close>

definition preflights :: "env \<Rightarrow> 'tok site \<Rightarrow> invocation \<Rightarrow> (history \<Rightarrow> 'tok ledger) \<Rightarrow> contract_call \<Rightarrow> bool" where
  "preflights E P I L c \<longleftrightarrow> (\<forall>hs server h rq tx cid f args params.
     e_build E rq = Inr tx \<longrightarrow> rq_op rq = CallOp cid f params \<longrightarrow> call_named f args = Some c \<longrightarrow>
     list_all2 (encoded E) args params \<longrightarrow>
     (\<exists>q. e_simulate E (hs @ [(ASimulate server tx, h)]) = Inr q \<and> sim_answer (fst (invoke P I c (L hs))) q))"

text \<open>The wallet is there: a simulated transaction assembles, a seed is stored, and the key made of it signs
  with the bytes that it has in memory when it is made.\<close>

definition signs :: "env \<Rightarrow> bool" where
  "signs E \<longleftrightarrow> (\<forall>tx d rv p. \<exists>t. e_assemble E tx (SimSuccess d rv p) = Inr t) \<and>
     (\<forall>hs. \<exists>seed. e_loadSigner E hs = Inr (Some seed)) \<and>
     (\<forall>seed h. \<exists>i k bufs. e_fromSecret E seed h = Inr (i, k, bufs) \<and>
        (let h' = h\<lparr>h_bufs := bufs, h_kps := (h_kps h)(i := Some k)\<rparr>
         in \<forall>tx. \<exists>t. e_sign E tx (view_bytes h' (kp_secretSeed k)) (view_bytes h' (kp_secretKey k)) = Inr t))"

text \<open>After \<open>delay\<close> undecided answers the transaction is reported as successful, with the call's value.\<close>

definition included :: "env \<Rightarrow> history \<Rightarrow> string \<Rightarrow> nat \<Rightarrow> contract_value \<Rightarrow> bool" where
  "included E hs hash delay val \<longleftrightarrow> (\<forall>later server h.
     let answer = e_getTx E (hs @ later @ [(AGetTx server hash, h)])
     in if length (filter (is_getTx \<circ> fst) later) < delay then \<not> decisive answer
        else \<exists>g rv. answer = Inr g \<and> g_status g = ''SUCCESS'' \<and> g_returnValue g = Some rv \<and>
          e_native E rv = Inr (native_value val))"

text \<open>An envelope of a call that the contract carries out is accepted and executed, and reported before the
  client gives up polling.\<close>

definition executes :: "env \<Rightarrow> 'tok site \<Rightarrow> invocation \<Rightarrow> (history \<Rightarrow> 'tok ledger) \<Rightarrow> contract_call \<Rightarrow> bool" where
  "executes E P I L c \<longleftrightarrow> (\<forall>hs server t h val. let hs' = hs @ [(ASend server t, h)] in
     envelope_of E c t \<longrightarrow> fst (invoke P I c (L hs)) = Inr val \<longrightarrow>
       L hs' = snd (invoke P I c (L hs)) \<and>
       (\<exists>resp delay. e_send E hs' = Inr resp \<and> sr_status resp = ''PENDING'' \<and> delay < POLL_ATTEMPTS \<and>
          included E hs' (sr_hash resp) delay val))"

definition network_of :: "env \<Rightarrow> 'tok site \<Rightarrow> invocation \<Rightarrow> (history \<Rightarrow> 'tok ledger) \<Rightarrow> contract_call \<Rightarrow> bool" where
  "network_of E P I L c \<longleftrightarrow> backed_by E P I L \<and> preflights E P I L c \<and> signs E \<and> executes E P I L c"

lemma network_parts:
  assumes "network_of E P I L c"
  shows "backed_by E P I L" "preflights E P I L c" "signs E" "executes E P I L c"
  using assms by (simp_all add: network_of_def)

section \<open>The pipeline over it\<close>

lemma quiet_loadAccount: "appends no_send (loadAccount E pk)"
  by (rule appends_loadAccount) (simp_all add: no_send_def)

lemma build_call_backed:
  assumes b: "backed_by E P I L"
  obtains rq cid tx v where "build_call E pk f params w = (Inr tx, v)" "rq_op rq = CallOp cid f params" "e_build E rq = Inr tx"
    "L (w_log v) = L (w_log w)"
proof -
  obtain acc v where acc: "loadAccount E pk w = (Inr acc, v)" "L (w_log v) = L (w_log w)" using loadAccount_backed [OF b] by blast
  let ?dep = "e_dep E (w_log v)"
  let ?rq = "\<lparr>rq_source = acc, rq_fee = BASE_FEE, rq_passphrase = d_passphrase ?dep, rq_data = None,
    rq_op = CallOp (d_contractId ?dep) f params, rq_timeout = 60\<rparr>"
  obtain tx where tx: "e_build E ?rq = Inr tx" using backed_totals(3) [OF b] by blast
  have "build_call E pk f params w = (Inr tx, v)"
    using acc(1) tx backed_totals(2) [OF b]
    by (simp add: build_call_def getActiveDeployment_def seqM_eval [of "loadAccount _ _"] seqM_eval [of "getM _"] getM_eval
        seqM_eval [of "liftM _"] liftM_eval)
  then show thesis using that [of tx v ?rq] tx acc(2) by simp
qed

text \<open>The call is built, and simulated on the ledger as it was.\<close>

lemma simulation_backed:
  assumes b: "backed_by E P I L" and pre: "preflights E P I L c" and c: "call_named f args = Some c" "list_all2 (encoded E) args params"
  obtains tx v q where "build_call E pk f params w = (Inr tx, v)"
    "e_simulate E (w_log (record_action (ASimulate server tx) v)) = Inr q" "sim_answer (fst (invoke P I c (L (w_log w)))) q"
proof -
  obtain rq cid tx v where tx: "build_call E pk f params w = (Inr tx, v)" "rq_op rq = CallOp cid f params" "e_build E rq = Inr tx"
    and L: "L (w_log v) = L (w_log w)"
    by (rule build_call_backed [OF b])
  obtain q where "e_simulate E (w_log v @ [(ASimulate server tx, w_heap v)]) = Inr q" "sim_answer (fst (invoke P I c (L (w_log v)))) q"
    using pre tx(2,3) c unfolding preflights_def by blast
  then show thesis using L by (intro that [OF tx(1)]) simp_all
qed

lemma sign_phase_signs:
  assumes "signs E"
  shows "\<exists>t w'. sign_phase E m tx w = (Inr t, w')"
proof -
  let ?w = "record_action ALoadSigner w"
  obtain seed where seed: "e_loadSigner E (w_log ?w) = Inr (Some seed)" using assms unfolding signs_def by blast
  obtain i k bufs where k: "e_fromSecret E seed (w_heap ?w) = Inr (i, k, bufs)"
    and "\<And>tx. \<exists>t. e_sign E tx (view_bytes ((w_heap ?w)\<lparr>h_bufs := bufs, h_kps := (h_kps (w_heap ?w))(i := Some k)\<rparr>) (kp_secretSeed k))
      (view_bytes ((w_heap ?w)\<lparr>h_bufs := bufs, h_kps := (h_kps (w_heap ?w))(i := Some k)\<rparr>) (kp_secretKey k)) = Inr t"
    using assms unfolding signs_def Let_def by blast
  then obtain t where "e_sign E tx (view_bytes ((w_heap ?w)\<lparr>h_bufs := bufs, h_kps := (h_kps (w_heap ?w))(i := Some k)\<rparr>) (kp_secretSeed k))
      (view_bytes ((w_heap ?w)\<lparr>h_bufs := bufs, h_kps := (h_kps (w_heap ?w))(i := Some k)\<rparr>) (kp_secretKey k)) = Inr t" by blast
  then show ?thesis using seed k
    by (simp add: sign_phase_def catchM_eval seqM_eval ask_eval fromSecret_def finallyM_eval sign_tx_def Let_def)
qed

lemma prepare_settles:
  assumes net: "network_of E P I L c" and c: "call_named f args = Some c" "list_all2 (encoded E) args params"
    and val: "fst (invoke P I c (L (w_log w))) = Inr val"
  shows "\<exists>t w'. prepare E server pk f params w = (Inr t, w') \<and> envelope_of E c t \<and> L (w_log w') = L (w_log w)"
proof -
  obtain tx v d rv p where tx: "build_call E pk f params w = (Inr tx, v)"
    and sim: "e_simulate E (w_log (record_action (ASimulate server tx) v)) = Inr (SimSuccess d rv p)"
    by (rule simulation_backed [OF network_parts(1,2) [OF net] c, of pk w server]) (auto simp: val)
  obtain a where a: "e_assemble E tx (SimSuccess d rv p) = Inr a" using network_parts(3) [OF net] unfolding signs_def by blast
  obtain t w' where "sign_phase E f a (record_action (ASimulate server tx) v) = (Inr t, w')"
    using sign_phase_signs [OF network_parts(3) [OF net]] by blast
  then have run: "prepare E server pk f params w = (Inr t, w')" using prepare_run(4) [OF tx sim a] by simp
  obtain new where "w_log w' = w_log w @ new" "\<forall>x\<in>set new. no_send x" using prepare_log [OF run] by blast
  then have "L (w_log w') = L (w_log w)" using sendless_log [OF network_parts(1) [OF net], of new] no_send_sendless by metis
  then show ?thesis using run prepare_carries [OF run c] by blast
qed

text \<open>A refusal ends the pipeline before a key is loaded.\<close>

lemma digits_nat_string_all: "list_all is_digit (nat_string n)" "nat_string n \<noteq> []"
  using nat_string_digits by blast+

lemma host_text_decoded: "match_code (host_text e post) = Some (nat_string (error_code e))"
  unfolding host_text_def
proof (rule match_code_text)
  fix a b assume "''HostError: '' = a @ b" and "b \<noteq> []"
  then have "suffix b ''HostError: ''" by (simp add: suffixI)
  then show "\<not> prefix contract_open (b @ code_text '' '' (nat_string (error_code e)) @ post)"
    using \<open>b \<noteq> []\<close> by (auto simp: suffix_Cons contract_open_def code_text_def)
qed (simp_all add: is_space_def digits_nat_string_all)

lemma refusal_message: "se_userMessage (simulationError f (host_text e post)) = error_message e"
  by (simp add: simulationError_def humanizeSimulationError_def host_text_decoded digits_nat_string code_message_error Let_def)

lemma prepare_refused:
  assumes b: "backed_by E P I L" and pre: "preflights E P I L c" and c: "call_named f args = Some c" "list_all2 (encoded E) args params"
    and refused: "fst (invoke P I c (L (w_log w))) = Inl ab"
  shows "\<exists>diag w'. prepare E server pk f params w = (Inl (Soroban (simulationError f diag)), w') \<and>
    (\<forall>e. ab = Fail e \<longrightarrow> (\<exists>post. diag = host_text e post)) \<and>
    (\<forall>x\<in>set (since w w'). reading (fst x)) \<and> L (w_log w') = L (w_log w)"
proof -
  obtain tx v diag where tx: "build_call E pk f params w = (Inr tx, v)"
    and sim: "e_simulate E (w_log (record_action (ASimulate server tx) v)) = Inr (SimError diag)"
    and diag: "\<forall>e. ab = Fail e \<longrightarrow> (\<exists>post. diag = host_text e post)"
    by (rule simulation_backed [OF b pre c, of pk w server]) (use refused sim_answer_abort in force)
  let ?u = "record_action (ASimulate server tx) v"
  have run: "prepare E server pk f params w = (Inl (Soroban (simulationError f diag)), ?u)"
    by (rule prepare_run(2) [OF tx sim])
  obtain new where new: "w_log v = w_log w @ new" "\<forall>x\<in>set new. reading (fst x)"
    using appendsD [OF appends_build_call [where P = "\<lambda>x. reading (fst x)"] tx] by auto
  then have log: "w_log ?u = w_log w @ (new @ [(ASimulate server tx, w_heap v)])" by simp
  have all: "\<forall>x\<in>set (new @ [(ASimulate server tx, w_heap v)]). reading (fst x)" using new(2) by simp
  have "sendless x" if "reading (fst x)" for x using that by (cases "fst x") (simp_all add: sendless_def)
  then have "L (w_log ?u) = L (w_log w)" unfolding log using all by (intro sendless_log [OF b]) blast
  then show ?thesis using run diag all since_new [OF log] by metis
qed

lemma invokeContract_refused:
  assumes "backed_by E P I L" and "preflights E P I L c" and "call_named f args = Some c" "list_all2 (encoded E) args params"
    and "fst (invoke P I c (L (w_log w))) = Inl ab"
  shows "\<exists>diag w'. invokeContract E pk f params w = (Inl (Soroban (simulationError f diag)), w') \<and>
    (\<forall>e. ab = Fail e \<longrightarrow> (\<exists>post. diag = host_text e post)) \<and>
    (\<forall>x\<in>set (since w w'). reading (fst x)) \<and> L (w_log w') = L (w_log w)"
proof -
  obtain diag w' where p: "prepare E (e_url E (w_log w)) pk f params w = (Inl (Soroban (simulationError f diag)), w')"
    and rest: "\<forall>e. ab = Fail e \<longrightarrow> (\<exists>post. diag = host_text e post)" "\<forall>x\<in>set (since w w'). reading (fst x)" "L (w_log w') = L (w_log w)"
    using prepare_refused [OF assms, of "e_url E (w_log w)" pk] by blast
  have "invokeContract E pk f params w = (Inl (Soroban (simulationError f diag)), w')"
    using p by (simp add: invokeContract_def rpcServer_def seqM_eval getM_eval)
  then show ?thesis using rest by blast
qed

text \<open>Polling meets the report.\<close>

lemma poll_included:
  assumes inc: "included E hs hash delay val"
  shows "w_log w = hs @ later \<Longrightarrow> length (filter (is_getTx \<circ> fst) later) \<le> delay \<Longrightarrow>
    delay < length (filter (is_getTx \<circ> fst) later) + n \<Longrightarrow>
    \<exists>rv rc w'. poll E (Some s) m hash n w = (Inr (Some rv, rc), w') \<and> e_native E rv = Inr (native_value val)"
proof (induction n arbitrary: w later)
  case (Suc n)
  let ?sleep = "(ASleep 1500, w_heap w)" and ?get = "(AGetTx s hash, w_heap w)"
  let ?w2 = "record_action (AGetTx s hash) (record_action (ASleep 1500) w)"
  have log: "w_log ?w2 = hs @ (later @ [?sleep]) @ [?get]" using Suc.prems(1) by simp
  have count: "length (filter (is_getTx \<circ> fst) (later @ [?sleep])) = length (filter (is_getTx \<circ> fst) later)"
    by (simp add: is_getTx_def)
  show ?case
  proof (cases "length (filter (is_getTx \<circ> fst) later) < delay")
    case True
    then have "\<not> decisive (e_getTx E (w_log ?w2))" using inc count unfolding included_def Let_def log by presburger
    then have step: "poll E (Some s) m hash (Suc n) w = poll E (Some s) m hash n ?w2" using poll_next [of "Suc n"] by simp
    show ?thesis unfolding step
      by (rule Suc.IH [of ?w2 "later @ [?sleep, ?get]"]) (use Suc.prems True in \<open>simp_all add: is_getTx_def comp_def\<close>)
  next
    case False
    then obtain g rv where g: "e_getTx E (w_log ?w2) = Inr g" "g_status g = ''SUCCESS''" "g_returnValue g = Some rv"
      "e_native E rv = Inr (native_value val)"
      using inc count unfolding included_def Let_def log by metis
    have "poll E (Some s) m hash (Suc n) w =
        seqM (emitReceipt E m hash (g_ledger g) RSuccess) (\<lambda>rc. ret (g_returnValue g, rc)) ?w2"
      using g(1,2) by (intro poll_success) simp_all
    then show ?thesis using g(3,4) by (simp add: seqM_eval emitReceipt_def Let_def ret_eval)
  qed
qed simp

text \<open>What the pipeline leaves alone: all but the log and the memory of keys.\<close>

lemma keeps_sign_phase:
  assumes "\<And>a w. Q w \<Longrightarrow> Q (record_action a w)" and "\<And>h w. Q w \<Longrightarrow> Q (w\<lparr>w_heap := h\<rparr>)"
  shows "keeps Q (sign_phase E m tx)"
proof -
  have "keeps Q (fromSecret E seed)" for seed
    by (rule keepsI) (auto simp: fromSecret_def Let_def assms split: sum.splits prod.splits)
  moreover have "keeps Q (finallyM (sign_tx E tx i) (wipe_signer i))" for i
    by (rule keeps_finallyM) (auto simp: keeps_def sign_tx_world wipe_signer_def assms)
  ultimately show ?thesis
    by (auto simp: sign_phase_def intro!: keeps_intro assms(1) split: option.splits)
qed

lemma keeps_poll:
  assumes "\<And>a w. Q w \<Longrightarrow> Q (record_action a w)"
  shows "keeps Q (poll E srv m hash n)"
proof -
  have "keeps Q (emitReceipt E m hash l st)" for l st
    by (rule keepsI) (simp add: emitReceipt_def Let_def assms)
  then show ?thesis
    by (induction n) (auto intro!: keeps_intro assms simp: server_of_def rpcServer_def split: sum.splits option.splits)
qed

lemma keeps_invokeContract:
  assumes "\<And>a w. Q w \<Longrightarrow> Q (record_action a w)" and "\<And>h w. Q w \<Longrightarrow> Q (w\<lparr>w_heap := h\<rparr>)"
  shows "keeps Q (invokeContract E pk m params)"
  by (auto simp: invokeContract_def prepare_def send_phase_def build_call_def loadAccount_def with_failover_def Let_def rpcServer_def
      getActiveDeployment_def intro!: keeps_intro keeps_failover keeps_poll keeps_sign_phase assms split: sim.splits)

lemma invokeContract_settles:
  assumes net: "network_of E P I L c" and c: "call_named f args = Some c" "list_all2 (encoded E) args params"
    and val: "fst (invoke P I c (L (w_log w))) = Inr val"
  shows "\<exists>rv rc w'. invokeContract E pk f params w = (Inr (Some rv, rc), w') \<and> e_native E rv = Inr (native_value val) \<and>
    L (w_log w') = snd (invoke P I c (L (w_log w))) \<and> receipts (since w w') = [rc] \<and> rc_status rc = RSuccess"
proof -
  let ?server = "e_url E (w_log w)"
  obtain t v where t: "prepare E ?server pk f params w = (Inr t, v)" "envelope_of E c t" "L (w_log v) = L (w_log w)"
    using prepare_settles [OF net c val] by blast
  let ?u = "record_action (ASend ?server t) v"
  have val': "fst (invoke P I c (L (w_log v))) = Inr val" using val t(3) by simp
  obtain resp delay where ledger: "L (w_log ?u) = snd (invoke P I c (L (w_log v)))"
    and resp: "e_send E (w_log ?u) = Inr resp" "sr_status resp = ''PENDING''" "delay < POLL_ATTEMPTS"
      "included E (w_log ?u) (sr_hash resp) delay val"
    using network_parts(4) [OF net, unfolded executes_def Let_def] t(2) val' unfolding record_action_simps by blast
  obtain rv rc w' where polled: "poll E (Some ?server) f (sr_hash resp) POLL_ATTEMPTS ?u = (Inr (Some rv, rc), w')"
    and rv: "e_native E rv = Inr (native_value val)"
    using poll_included [OF resp(4), of ?u "[]" POLL_ATTEMPTS ?server f] resp(3) by auto
  have "send_phase E ?server f t v = (Inr (sr_hash resp), ?u)"
    using resp(1,2) by (simp add: send_phase_def seqM_eval catchM_eval ask_eval ret_eval)
  then have run: "invokeContract E pk f params w = (Inr (Some rv, rc), w')"
    using t(1) polled by (simp add: invokeContract_def rpcServer_def seqM_eval getM_eval)
  obtain new where new: "w_log v = w_log w @ new" "\<forall>x\<in>set new. no_send x" using prepare_log [OF t(1)] by blast
  obtain new2 where new2: "w_log w' = w_log ?u @ new2" "\<forall>x\<in>set new2. polling (Some ?server) (sr_hash resp) x"
    "poll_result f (sr_hash resp) POLL_ATTEMPTS (Inr (Some rv, rc)) (answers E (w_log ?u) new2) (receipts new2)"
    using polled_log [OF polled] by blast
  have "\<forall>x\<in>set new2. sendless x" using new2(2) by (auto simp: polling_def sendless_def split: action.splits)
  then have "L (w_log w') = snd (invoke P I c (L (w_log w)))"
    using sendless_log [OF network_parts(1) [OF net], of new2 "w_log ?u"] ledger t(3) new2(1) by simp
  moreover have "receipts new2 = [rc]" "rc_status rc = RSuccess" using new2(3) by (auto simp: poll_result_def)
  moreover have "since w w' = new @ (ASend ?server t, w_heap v) # new2"
    by (rule since_new) (simp add: new new2)
  ultimately show ?thesis using run rv no_send_lists(2) [OF new(2)] by simp
qed

section \<open>The operations\<close>

text \<open>The user's action for a call of the contract: amounts and times are entered as the app shows them.\<close>

fun user_action :: "env \<Rightarrow> string \<Rightarrow> string \<Rightarrow> number option \<Rightarrow> contract_call \<Rightarrow> vault io" where
  "user_action E desc tpl goal (CreateVault a nm k u) = createVault E \<lparr>ci_owner = a, ci_name = nm, ci_description = desc,
     ci_template = tpl, ci_deposit = Some (stroopsToXlm k), ci_unlock = Some (js_of_int (uint u)), ci_target = goal\<rparr>"
| "user_action E desc tpl goal (Deposit a j k) = deposit E (vid j) a (Some (stroopsToXlm k))"
| "user_action E desc tpl goal (ExtendLock a j d) = extendLock E (vid j) a (Some (js_of_int (uint d)))"
| "user_action E desc tpl goal (Withdraw a j) = withdraw E (vid j) a"
| "user_action E desc tpl goal c = throw (JsError ''not an action'')"

text \<open>The calls that a user can make, with amounts and times that doubles carry exactly.\<close>

fun expressible :: "contract_call \<Rightarrow> bool" where
  "expressible (CreateVault a nm k u) \<longleftrightarrow> \<bar>k\<bar> \<le> 2 ^ 50 \<and> uint u < 2 ^ 53"
| "expressible (Deposit a j k) \<longleftrightarrow> \<bar>k\<bar> \<le> 2 ^ 50"
| "expressible (ExtendLock a j d) \<longleftrightarrow> uint d < 2 ^ 53"
| "expressible (Withdraw a j) \<longleftrightarrow> True"
| "expressible c \<longleftrightarrow> False"

fun caller :: "contract_call \<Rightarrow> address" where
  "caller (CreateVault a _ _ _) = a"
| "caller (Deposit a _ _) = a"
| "caller (ExtendLock a _ _) = a"
| "caller (Withdraw a _) = a"
| "caller c = []"

text \<open>The vault that a call with the value \<open>val\<close> is about.\<close>

fun concerns :: "contract_call \<Rightarrow> contract_value \<Rightarrow> u64 \<Rightarrow> bool" where
  "concerns (CreateVault a nm k u) val i \<longleftrightarrow> val = VId i"
| "concerns (Deposit a j k) val i \<longleftrightarrow> j = i"
| "concerns (ExtendLock a j d) val i \<longleftrightarrow> j = i"
| "concerns (Withdraw a j) val i \<longleftrightarrow> j = i"
| "concerns c val i \<longleftrightarrow> False"

lemma invoke_concerns:
  assumes "expressible c" and "invoke P I c s = (Inr val, s')"
  shows "\<exists>i v. concerns c val i \<and> lg_vaults s' i = Some v"
proof -
  have d: "dispatch P I c s = (Inr val, s')" using assms(2) by (auto simp: invoke_def split: prod.splits sum.splits)
  show ?thesis
  proof (cases c)
    case (CreateVault a nm k u)
    then obtain i where "create_vault P I a nm k u s = (Inr i, s')" "val = VId i" using d by (auto simp: mapM_returns)
    then show ?thesis using CreateVault create_vault_returns(6) by fastforce
  next
    case (Deposit a j k)
    then obtain x where "deposit_into P I a j k s = (Inr x, s')" using d by (auto simp: mapM_returns)
    then show ?thesis using Deposit deposit_returns(3) by fastforce
  next
    case (ExtendLock a j d')
    then obtain x where "extend_lock I a j d' s = (Inr x, s')" using d by (auto simp: mapM_returns)
    then show ?thesis using ExtendLock extend_returns(3) by fastforce
  next
    case (Withdraw a j)
    then obtain x where "withdraw_all P I a j s = (Inr x, s')" using d by (auto simp: mapM_returns)
    then show ?thesis using Withdraw withdraw_returns(2) by fastforce
  qed (use assms(1) in simp_all)
qed

text \<open>\<open>getVault\<close> of a vault of the ledger.\<close>

lemma js_BigInt_vid: "js_BigInt (NStr (vid j)) = Inr (uint j)"
  by (simp add: js_BigInt_def vid_def string_int_back)

lemma keeps_read_vault:
  "(\<And>a w. Q w \<Longrightarrow> Q (record_action a w)) \<Longrightarrow> keeps Q (read_vault E f i)"
  by (auto simp: read_vault_def loadMeta_def intro!: keeps_intro keeps_invokeRead)

lemma getVault_backed:
  assumes "backed_by E P I L" and "\<And>hs. \<exists>m. e_getItem E hs = Inr m" and "lg_vaults (L (w_log w)) j = Some v" and "\<not> w_simBroken w"
  shows "\<exists>row w'. getVault E (vid j) hint w = (Inr row, w') \<and> ledger_row E v row \<and> \<not> w_simBroken w'"
proof -
  obtain row w' where run: "read_vault E cv_owner (uint j) w = (Inr row, w')" "ledger_row E v row"
    using read_vault_backed [OF assms(1-3)] by blast
  then have "\<not> w_simBroken w'" using keeps_result [OF keeps_read_vault [of "\<lambda>w. \<not> w_simBroken w"] assms(4)] by simp
  with run show ?thesis using assms(4)
    by (simp add: getVault_def get_simulated_def js_BigInt_vid seqM_eval getM_eval attemptM_eval liftM_eval ret_eval)
qed

text \<open>After the call every operation reads the vault again; \<^verbatim>\<open>createVault\<close> stores its metadata first.\<close>

definition rereads :: "env \<Rightarrow> (xdr option \<times> receipt \<Rightarrow> vault io) \<Rightarrow> contract_call \<Rightarrow> bool" where
  "rereads E k c \<longleftrightarrow> (\<forall>rv rc val i w. e_native E rv = Inr (native_value val) \<longrightarrow> concerns c val i \<longrightarrow>
     (\<exists>v. k (Some rv, rc) w = getVault E (vid i) None v \<and> w_simBroken v = w_simBroken w \<and>
        (\<exists>new. w_log v = w_log w @ new \<and> (\<forall>x\<in>set new. no_send x))))"

lemma rereads_at_once:
  "rereads E (\<lambda>_. getVault E (vid j) None) (Withdraw a j)" "rereads E (\<lambda>_. getVault E (vid j) None) (Deposit a j k)"
  "rereads E (\<lambda>_. getVault E (vid j) None) (ExtendLock a j d)"
  by (auto simp: rereads_def)

lemma saveMeta_returns:
  assumes "\<And>hs. e_setItem E hs = Inr ()"
  shows "\<exists>v. saveMeta E a i m w = (Inr (), v) \<and> w_simBroken v = w_simBroken w"
proof -
  obtain r v where run: "saveMeta E a i m w = (r, v)" by (cases "saveMeta E a i m w")
  have "keeps (\<lambda>v. w_simBroken v = w_simBroken w) (saveMeta E a i m)"
    by (auto simp: saveMeta_def saveMetaLocal_def mirrorMetaToBackend_def getActiveDeployment_def intro!: keeps_intro)
  then have "w_simBroken v = w_simBroken w"
    using keeps_result [of "\<lambda>v. w_simBroken v = w_simBroken w" "saveMeta E a i m" w r v] run by simp
  moreover have "r = Inr ()"
    using run assms by (auto simp: saveMeta_def saveMetaLocal_def mirrorMetaToBackend_def getActiveDeployment_def eff_eval split: sum.splits if_splits)
  ultimately show ?thesis using run by blast
qed

lemma rereads_created:
  assumes "\<And>hs. e_setItem E hs = Inr ()"
  shows "rereads E (\<lambda>(returnValue, _). case returnValue of
         None \<Rightarrow> throw (Soroban (simulationError ''create_vault'' ''Contract did not return a vault id.''))
       | Some rv \<Rightarrow> seqM (liftM (e_native E rv)) (\<lambda>n. seqM (saveMeta E a (js_String n) m) (\<lambda>_. getVault E (js_String n) None)))
    (CreateVault a nm k u)"
  unfolding rereads_def
proof (intro allI impI)
  fix rv :: xdr and rc :: receipt and val i w
  assume "e_native E rv = Inr (native_value val)" and "concerns (CreateVault a nm k u) val i"
  then have n: "e_native E rv = Inr (NInt (uint i))" by simp
  obtain v where v: "saveMeta E a (vid i) m w = (Inr (), v)" "w_simBroken v = w_simBroken w"
    using saveMeta_returns [OF assms] by blast
  have "\<exists>new. w_log v = w_log w @ new \<and> (\<forall>x\<in>set new. no_send x)" by (rule appendsD [OF quiet_saveMeta v(1)])
  then show "\<exists>v. (case (Some rv, rc) of (returnValue, _) \<Rightarrow> case returnValue of
         None \<Rightarrow> throw (Soroban (simulationError ''create_vault'' ''Contract did not return a vault id.''))
       | Some rv \<Rightarrow> seqM (liftM (e_native E rv)) (\<lambda>n. seqM (saveMeta E a (js_String n) m) (\<lambda>_. getVault E (js_String n) None))) w =
      getVault E (vid i) None v \<and> w_simBroken v = w_simBroken w \<and> (\<exists>new. w_log v = w_log w @ new \<and> (\<forall>x\<in>set new. no_send x))"
    using v n by (intro exI [of _ v]) (simp add: seqM_eval liftM_eval vid_def)
qed

text \<open>Every action is the call by its name on its encoded arguments, followed by the second reading.\<close>

lemma call_named_writes:
  "call_named ''withdraw'' [(ScAddress, NStr a), (ScU64, NInt (uint j))] = Some (Withdraw a j)"
  "call_named ''extend_lock'' [(ScAddress, NStr a), (ScU64, NInt (uint j)), (ScU64, NInt (uint d))] = Some (ExtendLock a j d)"
  "\<bar>k\<bar> \<le> 2 ^ 50 \<Longrightarrow>
    call_named ''deposit'' [(ScAddress, NStr a), (ScU64, NInt (uint j)), (ScI128, NInt k)] = Some (Deposit a j k)"
  "\<bar>k\<bar> \<le> 2 ^ 50 \<Longrightarrow>
    call_named ''create_vault'' [(ScAddress, NStr a), (ScString, NStr nm), (ScI128, NInt k), (ScU64, NInt (uint d))] = Some (CreateVault a nm k d)"
  using uint_lt2p [of j] uint_lt2p [of d] by (auto simp: call_named_def word_of_def I128_MAX_def)

lemma number_int_shown: "uint (d :: u64) < 2 ^ 53 \<Longrightarrow> number_int (Some (js_of_int (uint d))) = Inr (uint d)"
  using u64_arg_shown [of d] by (auto simp: u64_arg_def word_of_def uint_word_of_int split: sum.splits if_splits)

lemma user_action_runs:
  assumes b: "backed_by E P I L" and c: "expressible c"
  obtains f args params k where "call_named f args = Some c" "list_all2 (encoded E) args params"
    "user_action E desc tpl goal c = seqM (invokeContract E (caller c) f params) k" "(\<And>hs. e_setItem E hs = Inr ()) \<Longrightarrow> rereads E k c"
    "\<And>x. appends no_send (k x)"
proof -
  have enc: "\<exists>x. e_scval E t n = Inr x" for t n by (rule backed_totals(4) [OF b])
  have lift: "seqM (liftM (Inr x)) g = g x" for x and g :: "xdr \<Rightarrow> vault io" by (simp add: seqM_def liftM_def)
  note conv = scAddress_def scU64_def scI128_def scString_def js_BigInt_vid
  show thesis
  proof (cases c)
    case (Withdraw a j)
    obtain p q where x: "e_scval E ScAddress (NStr a) = Inr p" "e_scval E ScU64 (NInt (uint j)) = Inr q" using enc by blast
    show ?thesis
      by (rule that [of "''withdraw''" "[(ScAddress, NStr a), (ScU64, NInt (uint j))]" "[p, q]" "\<lambda>_. getVault E (vid j) None"])
        (simp_all add: Withdraw x call_named_writes encoded_def withdraw_def conv lift rereads_at_once quiet)
  next
    case (ExtendLock a j d)
    obtain p q r where x: "e_scval E ScAddress (NStr a) = Inr p" "e_scval E ScU64 (NInt (uint j)) = Inr q"
      "e_scval E ScU64 (NInt (uint d)) = Inr r" using enc by blast
    show ?thesis
      by (rule that [of "''extend_lock''" "[(ScAddress, NStr a), (ScU64, NInt (uint j)), (ScU64, NInt (uint d))]" "[p, q, r]"
          "\<lambda>_. getVault E (vid j) None"])
        (use c in \<open>simp_all add: ExtendLock x call_named_writes encoded_def extendLock_def conv number_int_shown lift rereads_at_once quiet\<close>)
  next
    case (Deposit a j k)
    then have k: "\<bar>k\<bar> \<le> 2 ^ 50" using c by simp_all
    obtain p q r where x: "e_scval E ScAddress (NStr a) = Inr p" "e_scval E ScU64 (NInt (uint j)) = Inr q"
      "e_scval E ScI128 (NInt k) = Inr r" using enc by blast
    show ?thesis
      by (rule that [of "''deposit''" "[(ScAddress, NStr a), (ScU64, NInt (uint j)), (ScI128, NInt k)]" "[p, q, r]" "\<lambda>_. getVault E (vid j) None"])
        (simp_all add: Deposit x call_named_writes(3) [OF k] encoded_def deposit_def conv stroops_back [OF k] lift rereads_at_once quiet)
  next
    case (CreateVault a nm k u)
    then have k: "\<bar>k\<bar> \<le> 2 ^ 50" and u: "uint u < 2 ^ 53" using c by simp_all
    obtain p q where pq: "e_scval E ScAddress (NStr a) = Inr p" "e_scval E ScString (NStr nm) = Inr q" using enc by blast
    obtain r t where "e_scval E ScI128 (NInt k) = Inr r" "e_scval E ScU64 (NInt (uint u)) = Inr t" using enc by blast
    note x = pq this
    note re = rereads_created [of E a "\<lparr>vm_description = Some desc, vm_template = Some tpl, vm_target = goal,
      vm_name = Some nm, vm_dest = None, vm_dest_label = None, vm_memo = None, vm_bill = None\<rparr>" nm k u]
    show ?thesis
      by (rule that [OF _ _ _ re [folded CreateVault], of "''create_vault''"
          "[(ScAddress, NStr a), (ScString, NStr nm), (ScI128, NInt k), (ScU64, NInt (uint u))]" "[p, q, r, t]"])
        (auto simp: CreateVault x call_named_writes(4) [OF k] encoded_def createVault_def conv stroops_back [OF k] number_int_shown [OF u] lift
          intro!: appends_intro quiet cong: option.case_cong split: option.splits)
  qed (use c in simp_all)
qed

section \<open>Settled or refused\<close>

lemma action_settles:
  assumes net: "network_of E P I L c" and c: "expressible c" and run: "invoke P I c (L (w_log w)) = (Inr val, s')"
    and "\<not> w_simBroken w" and store: "\<And>hs. \<exists>m. e_getItem E hs = Inr m" "\<And>hs. e_setItem E hs = Inr ()"
  shows "\<exists>row w' rc i v. user_action E desc tpl goal c w = (Inr row, w') \<and> L (w_log w') = s' \<and>
    concerns c val i \<and> lg_vaults s' i = Some v \<and> ledger_row E v row \<and> receipts (since w w') = [rc] \<and> rc_status rc = RSuccess \<and> \<not> w_simBroken w'"
proof -
  note b = network_parts(1) [OF net]
  obtain f args params k where f: "call_named f args = Some c" "list_all2 (encoded E) args params"
    "user_action E desc tpl goal c = seqM (invokeContract E (caller c) f params) k" "rereads E k c" "\<And>x. appends no_send (k x)"
    using user_action_runs [OF b c, of desc tpl goal] store(2) by metis
  have val: "fst (invoke P I c (L (w_log w))) = Inr val" using run by simp
  obtain rv rc w1 where w1: "invokeContract E (caller c) f params w = (Inr (Some rv, rc), w1)" "e_native E rv = Inr (native_value val)"
    "L (w_log w1) = s'" "receipts (since w w1) = [rc]" "rc_status rc = RSuccess"
    using invokeContract_settles [OF net f(1,2) val, of "caller c"] run by auto
  obtain i v where i: "concerns c val i" "lg_vaults s' i = Some v" using invoke_concerns [OF c run] by blast
  obtain w2 new where w2: "k (Some rv, rc) w1 = getVault E (vid i) None w2" "w_simBroken w2 = w_simBroken w1"
    "w_log w2 = w_log w1 @ new" "\<forall>x\<in>set new. no_send x"
    using f(4) w1(2) i(1) unfolding rereads_def by meson
  have "\<not> w_simBroken w1"
    using keeps_result [OF keeps_invokeContract [of "\<lambda>w. \<not> w_simBroken w"] assms(4) w1(1)] by simp
  moreover have "L (w_log w2) = s'" using sendless_log [OF b, of new "w_log w1"] no_send_sendless w2(3,4) w1(3) by metis
  ultimately obtain row w' where row: "getVault E (vid i) None w2 = (Inr row, w')" "ledger_row E v row" "\<not> w_simBroken w'"
    using getVault_backed [OF b store(1), of w2 i v None] i(2) w2(2) by auto
  have k: "k (Some rv, rc) w1 = (Inr row, w')" using w2(1) row(1) by simp
  have "user_action E desc tpl goal c w = (Inr row, w')" using f(3) w1(1) k by (simp add: seqM_eval)
  moreover have "L (w_log w') = s'" using ledger_stays [OF b f(5) k] w1(3) by simp
  moreover have "since w w' = since w w1 @ since w1 w'"
    by (rule since_trans)
      (use appends_grows [OF appends_invokeContract, of w E "caller c" f params] appends_grows [OF f(5), of w1 "(Some rv, rc)"] w1(1) k in simp_all)
  then have "receipts (since w w') = [rc]" using w1(4) no_send_lists(2) appends_since [OF f(5) k] by simp
  ultimately show ?thesis using i row(2,3) w1(5) by blast
qed

lemma action_refused:
  assumes b: "backed_by E P I L" and pre: "preflights E P I L c" and c: "expressible c"
    and refused: "fst (invoke P I c (L (w_log w))) = Inl ab"
  shows "\<exists>f diag w'. user_action E desc tpl goal c w = (Inl (Soroban (simulationError f diag)), w') \<and>
    (\<forall>e. ab = Fail e \<longrightarrow> (\<exists>post. diag = host_text e post)) \<and>
    (\<forall>x\<in>set (since w w'). reading (fst x)) \<and> L (w_log w') = L (w_log w) \<and> w_simBroken w' = w_simBroken w"
proof -
  obtain f args params k where f: "call_named f args = Some c" "list_all2 (encoded E) args params"
    "user_action E desc tpl goal c = seqM (invokeContract E (caller c) f params) k"
    using user_action_runs [OF b c, of desc tpl goal] by metis
  obtain diag w' where run: "invokeContract E (caller c) f params w = (Inl (Soroban (simulationError f diag)), w')"
    and rest: "\<forall>e. ab = Fail e \<longrightarrow> (\<exists>post. diag = host_text e post)" "\<forall>x\<in>set (since w w'). reading (fst x)" "L (w_log w') = L (w_log w)"
    using invokeContract_refused [OF b pre f(1,2) refused, of "caller c"] by blast
  have "user_action E desc tpl goal c w = (Inl (Soroban (simulationError f diag)), w')"
    using f(3) run by (simp add: seqM_eval)
  moreover have "w_simBroken w' = w_simBroken w"
    using keeps_result [OF keeps_invokeContract [of "\<lambda>v. w_simBroken v = w_simBroken w"] _ run] by simp
  ultimately show ?thesis using rest by blast
qed

text \<open>C5: a write that the contract would carry out is carried out, and told as it is. Take a network that
  preflights and executes calls by running the contract, a wallet with a key, a readable and writable
  storage, and any action whose amounts and times a double carries. If the contract returns a value
  for the action's call on the ledger of that moment, then the operation returns, after which the
  ledger is the one that the contract leaves; exactly one receipt is emitted, of success; and the
  row returned shows the vault that the call was about, for a creation the new one, as it is now in
  the ledger.\<close>
theorem writes_settle:
  assumes net: "network_of E P I L c" and c: "expressible c" and run: "invoke P I c (L (w_log w)) = (Inr val, s')"
    and "\<not> w_simBroken w" and store: "\<And>hs. \<exists>m. e_getItem E hs = Inr m" "\<And>hs. e_setItem E hs = Inr ()"
  shows "\<exists>row w' rc i v. user_action E desc tpl goal c w = (Inr row, w') \<and> L (w_log w') = s' \<and>
    concerns c val i \<and> lg_vaults s' i = Some v \<and> ledger_row E v row \<and> receipts (since w w') = [rc] \<and> rc_status rc = RSuccess"
  using action_settles [OF assms] by blast

text \<open>C6: what the contract refuses is refused at once, in its words. Over the same network, if the contract
  answers the action's call with one of its eight errors, the operation throws a simulation error,
  not marked as retryable, whose message for the user is that error's own; until then it has only
  read: no key was loaded, nothing was signed, sent or receipted, and the ledger is as before.\<close>
theorem refusal_shown:
  assumes b: "backed_by E P I L" and pre: "preflights E P I L c" and c: "expressible c"
    and refused: "fst (invoke P I c (L (w_log w))) = Inl (Fail e)"
  shows "\<exists>err w'. user_action E desc tpl goal c w = (Inl (Soroban err), w') \<and>
    se_class err = Simulation \<and> \<not> se_retryable err \<and> se_userMessage err = error_message e \<and>
    (\<forall>x\<in>set (since w w'). reading (fst x)) \<and> L (w_log w') = L (w_log w)"
proof -
  obtain f post w' where "user_action E desc tpl goal c w = (Inl (Soroban (simulationError f (host_text e post))), w')"
    "\<forall>x\<in>set (since w w'). reading (fst x)" "L (w_log w') = L (w_log w)"
    using action_refused [OF assms, of desc tpl goal] by blast
  moreover have "se_class (simulationError f x) = Simulation" "\<not> se_retryable (simulationError f x)" for x
    by (simp_all add: simulationError_def)
  ultimately show ?thesis using refusal_message by blast
qed

subsection \<open>A network around the leap day's ledger\<close>

text \<open>A server that runs the contract with the invocation \<open>I\<close>, on the leap day's ledger until something is sent
  and on \<open>s2\<close> from then on. A value is the text of the call after the number of the ledger.\<close>

definition live_ledger :: "(address \<Rightarrow> int) ledger \<Rightarrow> history \<Rightarrow> (address \<Rightarrow> int) ledger" where
  "live_ledger s2 hs = (if sends hs = [] then leap_ledger else s2)"

definition live_env :: "invocation \<Rightarrow> (address \<Rightarrow> int) ledger \<Rightarrow> env" where
  "live_env I s2 = ledger_env\<lparr>
     e_simulate := \<lambda>hs. case fst (last hs) of
         ASimulate _ tx \<Rightarrow> Inr (if take 9 tx = ''withdraw:'' then
             (case fst (invoke book_site I (Withdraw ''alice'' 0) (live_ledger s2 (butlast hs))) of
                Inl (Fail e) \<Rightarrow> SimError (host_text e []) | Inl Trap \<Rightarrow> SimError [] | Inr _ \<Rightarrow> SimSuccess None (Some ''w'') None)
           else SimSuccess None (Some ((if sends hs = [] then CHR ''1'' else CHR ''2'') # tx)) None)
       | _ \<Rightarrow> Inl (JsError ''no''),
     e_getTx := \<lambda>_. Inr \<lparr>g_status = ''SUCCESS'', g_ledger = Some 9, g_returnValue = Some ''w''\<rparr>,
     e_native := \<lambda>x. Inr (if x = ''w'' then NInt 40
       else let s = (if hd x = CHR ''1'' then leap_ledger else s2)
         in if take 12 (tl x) = ''list_owned:A'' then native_value (VIds (owned_by s (drop 12 (tl x))))
            else native_vault (the (lg_vaults s 0)))\<rparr>"

lemma live_ledger_stays: "sendless x \<Longrightarrow> live_ledger s2 (hs @ [x]) = live_ledger s2 hs"
  by (auto simp: live_ledger_def sendless_def split: action.splits)

lemma live_backed:
  assumes one: "\<And>i. i \<noteq> 0 \<Longrightarrow> lg_vaults s2 i = None"
  shows "backed_by (live_env I s2) book_site I (live_ledger s2)"
proof -
  let ?E = "live_env I s2"
  have "\<exists>d rv. e_simulate ?E (hs @ [(ASimulate server tx, h)]) = Inr (SimSuccess d (Some rv) None) \<and>
      e_native ?E rv = Inr (native_value val)"
    if tx: "e_build ?E rq = Inr tx" "rq_op rq = CallOp cid f params" and c: "call_named f args = Some c" "is_read c"
      and ps: "list_all2 (encoded ?E) args params" and val: "fst (invoke book_site I c (live_ledger s2 hs)) = Inr val"
    for hs server h rq tx cid f args params c val
    using c
  proof (cases rule: call_named_read)
    case (1 a)
    then have "val = VIds (owned_by (live_ledger s2 hs) a)" "tx = ''list_owned:A'' @ a"
      using val tx ps by (auto simp: invoke_def list_owned_def owned_by_def eff_eval mapM_def live_env_def ledger_env_def encoded_def list_all2_Cons1)
    then show ?thesis by (simp add: live_env_def live_ledger_def)
  next
    case (2 i)
    then have v: "lg_vaults (live_ledger s2 hs) i \<noteq> None" "val = VVault (the (lg_vaults (live_ledger s2 hs) i))"
      using val by (auto simp: invoke_def get_vault_def load_vault_def eff_eval mapM_def split: option.splits)
    have "i = 0"
    proof (rule ccontr)
      assume "i \<noteq> 0"
      then show False using v(1) one by (auto simp: live_ledger_def leap_ledger_eq split: if_splits)
    qed
    moreover have "take 12 tx \<noteq> ''list_owned:A''" "take 9 tx \<noteq> ''withdraw:''" using 2 tx ps by (auto simp: live_env_def ledger_env_def)
    ultimately show ?thesis using v(2) by (simp add: live_env_def live_ledger_def)
  qed
  then show ?thesis unfolding backed_by_def using live_ledger_stays
    by (intro conjI allI impI) (simp_all add: live_env_def ledger_env_def demo_env_def)
qed

lemma withdraw_call:
  assumes "call_named f args = Some (Withdraw a i)"
  shows "f = ''withdraw''"
  using assms by (auto simp: call_named_def bind_eq_Some_conv split: list.splits if_splits)

lemma live_preflights: "preflights (live_env I s2) book_site I (live_ledger s2) (Withdraw ''alice'' 0)"
  unfolding preflights_def
proof (intro allI impI)
  fix hs server h rq tx cid f params and args :: "(sc_type \<times> native) list"
  assume c: "call_named f args = Some (Withdraw ''alice'' 0)" and "e_build (live_env I s2) rq = Inr tx" "rq_op rq = CallOp cid f params"
  then have "take 9 tx = ''withdraw:''" using withdraw_call [OF c] by (auto simp: live_env_def ledger_env_def)
  then show "\<exists>q. e_simulate (live_env I s2) (hs @ [(ASimulate server tx, h)]) = Inr q \<and>
      sim_answer (fst (invoke book_site I (Withdraw ''alice'' 0) (live_ledger s2 hs))) q"
    by (auto simp: live_env_def split: sum.splits abort.splits)
qed

theorem refusal_shown_witness:
  "\<exists>err w'. withdraw (live_env (at_time 1709200000) leap_ledger) (vid 0) ''alice'' demo_world = (Inl (Soroban err), w') \<and>
    se_userMessage err = ''This vault is still locked. You can withdraw after the unlock date.''"
proof -
  have "lg_vaults leap_ledger i = None" if "i \<noteq> 0" for i using that by (simp add: leap_ledger_eq)
  note b = live_backed [OF this, of "at_time 1709200000"]
  have "live_ledger leap_ledger hs = leap_ledger" for hs by (simp add: live_ledger_def)
  then have "fst (invoke book_site (at_time 1709200000) (Withdraw ''alice'' 0) (live_ledger leap_ledger (w_log demo_world))) =
      Inl (Fail StillLocked)"
    by (simp add: invoke_def withdraw_all_def chain_eval leap_ledger_eq leap_vault_def at_time_def)
  then show ?thesis using refusal_shown [OF b live_preflights, of demo_world StillLocked "[]" "[]" None] by auto
qed

text \<open>The ledger after the withdrawal in January 2027.\<close>

definition paid_ledger :: "(address \<Rightarrow> int) ledger" where
  "paid_ledger = snd (invoke book_site (at_time 1800000000) (Withdraw ''alice'' 0) leap_ledger)"

lemma paid_ledger_eq: "lg_vaults paid_ledger = [0 \<mapsto> leap_vault\<lparr>balance := 0, withdrawn := True\<rparr>]"
  and withdraw_leap: "invoke book_site (at_time 1800000000) (Withdraw ''alice'' 0) leap_ledger = (Inr (VAmount 40), paid_ledger)"
  by (simp_all add: paid_ledger_def leap_ledger_def ledger1_eq invoke_def create_vault_def withdraw_all_def chain_eval deployed_def
      book_site_def book_def at_time_def checked_add_def leap_vault_def Let_def)

lemma withdraw_paid: "fst (invoke book_site (at_time 1800000000) (Withdraw ''alice'' 0) paid_ledger) = Inl (Fail AlreadyWithdrawn)"
  by (simp add: invoke_def withdraw_all_def chain_eval paid_ledger_eq leap_vault_def at_time_def)

lemma live_network: "network_of (live_env (at_time 1800000000) paid_ledger) book_site (at_time 1800000000) (live_ledger paid_ledger) (Withdraw ''alice'' 0)"
proof -
  let ?E = "live_env (at_time 1800000000) paid_ledger"
  have "backed_by ?E book_site (at_time 1800000000) (live_ledger paid_ledger)" by (rule live_backed) (simp add: paid_ledger_eq)
  moreover have "signs ?E"
    by (simp add: signs_def live_env_def ledger_env_def demo_env_def demo_kp_def view_bytes_def Let_def)
  moreover have "executes ?E book_site (at_time 1800000000) (live_ledger paid_ledger) (Withdraw ''alice'' 0)"
    unfolding executes_def Let_def
  proof (intro allI impI)
    fix hs server t h val
    assume "fst (invoke book_site (at_time 1800000000) (Withdraw ''alice'' 0) (live_ledger paid_ledger hs)) = Inr val"
    then have "sends hs = []" "val = VAmount 40"
      using withdraw_leap withdraw_paid by (auto simp: live_ledger_def split: if_splits)
    then show "live_ledger paid_ledger (hs @ [(ASend server t, h)]) =
        snd (invoke book_site (at_time 1800000000) (Withdraw ''alice'' 0) (live_ledger paid_ledger hs)) \<and>
        (\<exists>resp delay. e_send ?E (hs @ [(ASend server t, h)]) = Inr resp \<and> sr_status resp = ''PENDING'' \<and> delay < POLL_ATTEMPTS \<and>
          included ?E (hs @ [(ASend server t, h)]) (sr_hash resp) delay val)"
      by (simp add: live_ledger_def withdraw_leap included_def live_env_def ledger_env_def demo_env_def POLL_ATTEMPTS_def)
        (rule exI [of _ 0], simp)
  qed
  ultimately show ?thesis using live_preflights by (simp add: network_of_def)
qed

theorem writes_settle_witness:
  "\<exists>row w' rc. withdraw (live_env (at_time 1800000000) paid_ledger) (vid 0) ''alice'' demo_world = (Inr row, w') \<and>
    va_status row = Withdrawn \<and> receipts (since demo_world w') = [rc] \<and> rc_status rc = RSuccess"
proof -
  let ?E = "live_env (at_time 1800000000) paid_ledger"
  have "invoke book_site (at_time 1800000000) (Withdraw ''alice'' 0) (live_ledger paid_ledger (w_log demo_world)) = (Inr (VAmount 40), paid_ledger)"
    using withdraw_leap by (simp add: live_ledger_def demo_world_def)
  then have "\<exists>row w' rc i v. user_action ?E [] [] None (Withdraw ''alice'' 0) demo_world = (Inr row, w') \<and>
      live_ledger paid_ledger (w_log w') = paid_ledger \<and> concerns (Withdraw ''alice'' 0) (VAmount 40) i \<and>
      lg_vaults paid_ledger i = Some v \<and> ledger_row ?E v row \<and> receipts (since demo_world w') = [rc] \<and> rc_status rc = RSuccess"
    by (intro writes_settle [OF live_network]) (simp_all add: demo_world_def live_env_def ledger_env_def demo_env_def)
  then show ?thesis by (auto simp: paid_ledger_eq ledger_row_def toVault_def decoded_def statusFor_def)
qed

end
