(* ===== verification/Chain_Payout.thy ===== *)
theory Chain_Payout imports Chain_Settles begin

text \<open>
  From the list to the money: what the vault list of \<^verbatim>\<open>soroban-client.ts\<close> says of a vault is what the
  withdrawal of that vault, started from the list, then does to the ledger.
\<close>

section \<open>The withdrawal of a listed vault\<close>

text \<open>The status that a vault has at a time of the ledger.\<close>

definition status_at :: "u64 \<Rightarrow> chain_vault \<Rightarrow> vstatus" where
  "status_at t v = (if withdrawn v then Withdrawn else if t < unlock_timestamp v then Locked else Unlocked)"

text \<open>What a withdrawal is to come to, by the status of the row that the user tapped: the row is shown as
  withdrawn and the balance \<open>amount\<close> is the owner's, or the contract's refusal is shown and nothing has changed.\<close>

definition taken_out :: "env \<Rightarrow> 'tok site \<Rightarrow> (history \<Rightarrow> 'tok ledger) \<Rightarrow> address \<Rightarrow> int \<Rightarrow> vault \<Rightarrow> world \<Rightarrow> bool" where
  "taken_out E P L a amount row w \<longleftrightarrow> (let s = L (w_log w); (r, w') = withdraw E (va_vault_id row) a w; s' = L (w_log w') in
     case va_status row of
       Unlocked \<Rightarrow> \<exists>row' k. r = Inr row' \<and> va_vault_id row' = va_vault_id row \<and> va_status row' = Withdrawn \<and> lg_token s = Some k \<and>
         0 < amount \<and> st_balance P k a (lg_tok s') = st_balance P k a (lg_tok s) + amount \<and>
         map rc_status (receipts (since w w')) = [RSuccess]
     | Locked \<Rightarrow> \<exists>err. r = Inl (Soroban err) \<and> se_userMessage err = error_message StillLocked \<and> s' = s
     | Withdrawn \<Rightarrow> \<exists>err. r = Inl (Soroban err) \<and> se_userMessage err = error_message AlreadyWithdrawn \<and> s' = s
     | Archived \<Rightarrow> False)"

lemma payout:
  assumes laws: "token_laws P" "token_pays P" and chain: "on_chain P (in_now I, L (w_log w))"
    and net: "network_of E P I L (Withdraw a i)" and store: "\<And>hs. \<exists>m. e_getItem E hs = Inr m" "\<And>hs. e_setItem E hs = Inr ()"
    and "\<not> w_simBroken w" and v: "lg_vaults (L (w_log w)) i = Some v" "owner v = a" and auth: "in_auth I a" "a \<noteq> st_self P"
    and answer: "fst (invoke P I (Withdraw a i) (L (w_log w))) = Inr (VAmount (balance v))"
  shows "\<exists>row' k w'. withdraw E (vid i) a w = (Inr row', w') \<and> va_vault_id row' = vid i \<and> va_status row' = Withdrawn \<and>
    lg_token (L (w_log w)) = Some k \<and> 0 < balance v \<and>
    st_balance P k a (lg_tok (L (w_log w'))) = st_balance P k a (lg_tok (L (w_log w))) + balance v \<and>
    map rc_status (receipts (since w w')) = [RSuccess]"
proof -
  let ?s = "L (w_log w)"
  have "\<not> withdrawn v" "unlock_timestamp v \<le> in_now I"
    using answer withdraw_outcome [OF chain laws v(1)] v(2) auth by (auto split: if_splits)
  with withdrawal [OF laws chain v(1)] v(2) auth obtain k s' where s': "invoke P I (Withdraw a i) ?s = (Inr (VAmount (balance v)), s')"
    "0 < balance v" "lg_token ?s = Some k" "st_balance P k a (lg_tok s') = st_balance P k a (lg_tok ?s) + balance v"
    "lg_vaults s' i = Some (v\<lparr>balance := 0, withdrawn := True\<rparr>)" by auto
  have "expressible (Withdraw a i)" by simp
  from action_settles [OF net this s'(1) assms(7) store, of "[]" "[]" None]
  obtain row w' rc j v' where row: "withdraw E (vid i) a w = (Inr row, w')" "L (w_log w') = s'" "concerns (Withdraw a i) (VAmount (balance v)) j"
    "lg_vaults s' j = Some v'" "ledger_row E v' row" "receipts (since w w') = [rc]" "rc_status rc = RSuccess" by auto
  then have "v' = v\<lparr>balance := 0, withdrawn := True\<rparr>" using s'(5) by simp
  then have "va_status row = Withdrawn" using row(5) by (auto simp: ledger_row_def toVault_def decoded_def statusFor_def)
  moreover have "vault_id v = i" using ledger_okD(2) [OF on_chain_ok [OF chain laws(1)] v(1)] by (simp add: vault_ok_def)
  then have "va_vault_id row = vid i"
    using row(5) \<open>v' = _\<close> by (auto simp: ledger_row_def toVault_def decoded_def vid_def)
  ultimately show ?thesis using row s' by auto
qed

lemma payout_refused:
  assumes net: "network_of E P I L (Withdraw a i)" and refused: "fst (invoke P I (Withdraw a i) (L (w_log w))) = Inl (Fail e)"
  shows "\<exists>err w'. withdraw E (vid i) a w = (Inl (Soroban err), w') \<and> se_userMessage err = error_message e \<and> L (w_log w') = L (w_log w)"
proof -
  have "expressible (Withdraw a i)" by simp
  from action_refused [OF network_parts(1,2) [OF net] this refused, of "[]" "[]" None]
  show ?thesis using refusal_message by fastforce
qed

text \<open>C2: what the list says is what a withdrawal does. Over a network that answers, preflights and executes by
  running the contract, on any legal state of the ledger, with a phone whose clock agrees with the
  ledger's: the list has a row for each of the owner's vaults, with its balance; and if the owner then
  withdraws the vault of that row, it happens what the row's status says. From an unlocked row the
  operation returns the vault as withdrawn, the owner's token balance has grown by the row's whole
  balance, which is positive, and the one receipt is of success; from a locked or a withdrawn row
  it shows the contract's own refusal for that, and the ledger is as before. No vault of the contract
  is shown as archived.\<close>
theorem list_pays_out:
  assumes laws: "token_laws P" "token_pays P" and chain: "on_chain P (in_now I, L (w_log w))"
    and net: "network_of E P I L (Withdraw a i)" and store: "\<And>hs. \<exists>m. e_getItem E hs = Inr m" "\<And>hs. e_setItem E hs = Inr ()"
    and sim: "\<not> w_simBroken w" and cached: "\<And>hs. e_loadVaults E hs = Inr cached" and merge: "merge_laws E cached"
    and clock: "\<And>hs. e_now E hs div 1000 = uint (in_now I)" "uint (in_now I) < 2 ^ 53"
    and started: "\<And>i v. lg_vaults (L (w_log w)) i = Some v \<Longrightarrow> 0 < created_timestamp v"
    and auth: "in_auth I a" "a \<noteq> st_self P" and v: "lg_vaults (L (w_log w)) i = Some v" "owner v = a"
  shows "\<exists>rows w1 row. listVaults E a w = (Inr rows, w1) \<and> row \<in> set rows \<and> va_vault_id row = vid i \<and>
    va_balance row = stroopsToXlm (balance v) \<and> va_status row = status_at (in_now I) v \<and>
    L (w_log w1) = L (w_log w) \<and> taken_out E P L a (balance v) row w1"
proof -
  let ?s = "L (w_log w)"
  have "\<forall>i v. lg_vaults ?s i = Some v \<longrightarrow> 0 < created_timestamp v" using started by blast
  from list_tells [OF laws chain network_parts(1) [OF net] refl store(1) sim cached merge clock this auth] v
  obtain rows w1 row where list: "listVaults E a w = (Inr rows, w1)" "row \<in> set rows" "va_vault_id row = vid i"
    "va_balance row = stroopsToXlm (balance v)" and answer: "fst (invoke P I (Withdraw a i) ?s) = answer_to (va_status row) (balance v)"
    and st: "va_status row \<noteq> Archived" and w1: "\<not> w_simBroken w1" "L (w_log w1) = ?s" by blast
  have "va_status row = status_at (in_now I) v"
    using answer st withdraw_outcome [OF chain laws v(1)] v(2) auth
    by (cases "va_status row") (auto simp: answer_to_def status_at_def split: if_splits)
  moreover have "taken_out E P L a (balance v) row w1"
  proof (cases "va_status row = Unlocked")
    case True
    then have "fst (invoke P I (Withdraw a i) (L (w_log w1))) = Inr (VAmount (balance v))"
      using answer w1(2) by (simp add: answer_to_def)
    from payout [OF laws _ net store w1(1) _ v(2) auth this] chain v(1) w1(2) True list(3) show ?thesis
      by (auto simp: taken_out_def)
  next
    case False
    then obtain e where e: "answer_to (va_status row) (balance v) = Inl (Fail e)"
      "va_status row = Locked \<and> e = StillLocked \<or> va_status row = Withdrawn \<and> e = AlreadyWithdrawn"
      using st by (cases "va_status row") (auto simp: answer_to_def)
    then have "fst (invoke P I (Withdraw a i) (L (w_log w1))) = Inl (Fail e)" using answer w1(2) by simp
    from payout_refused [OF net this] e(2) list(3) show ?thesis by (auto simp: taken_out_def)
  qed
  ultimately show ?thesis using list w1(2) by blast
qed

text \<open>The leap day's ledger in January 2027, on a phone whose clock is right.\<close>

lemma network_clock: "network_of (E\<lparr>e_now := c\<rparr>) P I L call \<longleftrightarrow> network_of E P I L call"
  by (simp add: network_of_def backed_by_def preflights_def signs_def executes_def included_def envelope_of_def encoded_def [abs_def])

definition due_env :: env where
  "due_env = live_env (at_time 1800000000) paid_ledger\<lparr>e_now := \<lambda>_. 1800000000000\<rparr>"

theorem list_pays_out_witness:
  "\<exists>rows w1 row row' w2. listVaults due_env ''alice'' demo_world = (Inr rows, w1) \<and> row \<in> set rows \<and> va_status row = Unlocked \<and>
    withdraw due_env (va_vault_id row) ''alice'' w1 = (Inr row', w2) \<and> va_status row' = Withdrawn \<and>
    lg_tok (live_ledger paid_ledger (w_log w2)) ''alice'' = lg_tok leap_ledger ''alice'' + 40"
proof -
  let ?I = "at_time 1800000000" and ?L = "live_ledger paid_ledger"
  have start: "?L (w_log demo_world) = leap_ledger" by (simp add: live_ledger_def demo_world_def)
  have chain: "on_chain book_site (in_now ?I, ?L (w_log demo_world))"
    unfolding start using on_chain_later [OF leap_on_chain, of 1800000000] by (simp add: at_time_def)
  have net: "network_of due_env book_site ?I ?L (Withdraw ''alice'' 0)"
    unfolding due_env_def network_clock by (rule live_network)
  have created: "0 < created_timestamp v" if "lg_vaults (?L (w_log demo_world)) i = Some v" for i v
    using that unfolding start by (auto simp: leap_ledger_eq leap_vault_def split: if_splits)
  have v: "lg_vaults (?L (w_log demo_world)) 0 = Some leap_vault" unfolding start by (simp add: leap_ledger_eq)
  have "\<exists>rows w1 row. listVaults due_env ''alice'' demo_world = (Inr rows, w1) \<and> row \<in> set rows \<and> va_vault_id row = vid 0 \<and>
      va_balance row = stroopsToXlm (balance leap_vault) \<and> va_status row = status_at (in_now ?I) leap_vault \<and>
      ?L (w_log w1) = ?L (w_log demo_world) \<and> taken_out due_env book_site ?L ''alice'' (balance leap_vault) row w1"
    by (rule list_pays_out [OF book_laws chain net, where cached = "[]"])
      (use created v in \<open>auto simp: leap_vault_def due_env_def live_env_def ledger_env_def demo_env_def demo_world_def merge_laws_def
        at_time_def book_site_def\<close>)
  then obtain rows w1 row where list: "listVaults due_env ''alice'' demo_world = (Inr rows, w1)" "row \<in> set rows" "va_vault_id row = vid 0"
    and st: "va_status row = status_at (in_now ?I) leap_vault" and w1: "?L (w_log w1) = leap_ledger"
    and out: "taken_out due_env book_site ?L ''alice'' (balance leap_vault) row w1" unfolding start by blast
  have "va_status row = Unlocked" using st by (simp add: status_at_def at_time_def leap_vault_def)
  then obtain row' w2 where "withdraw due_env (va_vault_id row) ''alice'' w1 = (Inr row', w2)" "va_status row' = Withdrawn"
    "lg_tok (?L (w_log w2)) ''alice'' = lg_tok leap_ledger ''alice'' + 40"
    using out w1 by (auto simp: taken_out_def leap_vault_def book_site_def split: prod.splits)
  with list \<open>va_status row = Unlocked\<close> show ?thesis by blast
qed

end
