(* ===== verification/Chain_Session.thy ===== *)
theory Chain_Session imports Chain_Settles begin

text \<open>
  A whole session of write operations of \<^verbatim>\<open>soroban-client.ts\<close> against the contract: the operations are
  performed one after the other, whatever each of them returns or throws, while others call the
  contract and time passes between them. What they do is a run of the contract's step system.
\<close>

section \<open>Sessions\<close>

text \<open>An action as the user enters it: the metadata of a creation, and the call that it stands for.\<close>

record request =
  q_description :: string
  q_template :: string
  q_goal :: "number option"
  q_call :: contract_call

definition perform :: "env \<Rightarrow> request \<Rightarrow> vault io" where
  "perform E q = user_action E (q_description q) (q_template q) (q_goal q) (q_call q)"

text \<open>One action with the world around it: how the outside answers during the action, the contract's clock and
  the authorization given, and the ledger as a function of the history.\<close>

record 'tok stage =
  sg_request :: request
  sg_env :: env
  sg_ctx :: invocation
  sg_ledger :: "history \<Rightarrow> 'tok ledger"

abbreviation sg_call :: "'tok stage \<Rightarrow> contract_call" where
  "sg_call g \<equiv> q_call (sg_request g)"

abbreviation play :: "'tok stage \<Rightarrow> vault io" where
  "play g \<equiv> perform (sg_env g) (sg_request g)"

text \<open>The app catches what an operation throws, shows it, and takes the next action.\<close>

fun session :: "'tok stage list \<Rightarrow> (thrown + vault) list io" where
  "session [] = ret []"
| "session (g # gs) = seqM (attemptM (play g)) (\<lambda>r. seqM (session gs) (\<lambda>rs. ret (r # rs)))"

text \<open>The network is up for an action: it preflights and executes the call by running the contract, the
  amounts and times of the call are ones that a double carries, the contract itself does not authorize
  it, and the device's storage works.\<close>

definition ready :: "'tok site \<Rightarrow> 'tok stage \<Rightarrow> bool" where
  "ready P g \<longleftrightarrow> network_of (sg_env g) P (sg_ctx g) (sg_ledger g) (sg_call g) \<and> expressible (sg_call g) \<and>
     \<not> in_auth (sg_ctx g) (st_self P) \<and> (\<forall>hs. (\<exists>m. e_getItem (sg_env g) hs = Inr m) \<and> e_setItem (sg_env g) hs = Inr ())"

text \<open>From the chain state \<open>x\<close> and the world \<open>w\<close>, every action finds the network up, on a ledger that the chain has
  come to in any number of steps since the action before.\<close>

fun staged :: "'tok site \<Rightarrow> u64 \<times> 'tok ledger \<Rightarrow> 'tok stage list \<Rightarrow> world \<Rightarrow> bool" where
  "staged P x [] w \<longleftrightarrow> True"
| "staged P x (g # gs) w \<longleftrightarrow> ready P g \<and> (chain_step P)\<^sup>*\<^sup>* x (in_now (sg_ctx g), sg_ledger g (w_log w)) \<and>
     (let w' = snd (play g w) in staged P (in_now (sg_ctx g), sg_ledger g (w_log w')) gs w')"

section \<open>What it is to do\<close>

text \<open>The outcome of one operation against the contract's answer to its call.\<close>

definition outcome :: "env \<Rightarrow> 'tok site \<Rightarrow> invocation \<Rightarrow> contract_call \<Rightarrow> 'tok ledger \<Rightarrow> thrown + vault \<Rightarrow> bool" where
  "outcome E P I c s r \<longleftrightarrow> (case fst (invoke P I c s) of
     Inr val \<Rightarrow> \<exists>row i v. r = Inr row \<and> concerns c val i \<and> lg_vaults (snd (invoke P I c s)) i = Some v \<and> ledger_row E v row
   | Inl ab \<Rightarrow> \<exists>err. r = Inl (Soroban err) \<and> se_class err = Simulation \<and>
       (\<forall>e. ab = Fail e \<longrightarrow> se_userMessage err = error_message e))"

text \<open>A run of the contract beside the session's: between any steps of others, the contract executes the call of
  each action on the ledger that the action found, and leaves the ledger that the action left; the
  action's outcome is the contract's answer.\<close>

inductive chain_session :: "'tok site \<Rightarrow> (u64 \<times> 'tok ledger) \<times> world \<Rightarrow> 'tok stage list \<Rightarrow> (thrown + vault) list \<Rightarrow>
    (u64 \<times> 'tok ledger) \<times> world \<Rightarrow> bool" for P where
  over: "chain_session P z [] [] z"
| turn: "(chain_step P)\<^sup>*\<^sup>* x (in_now (sg_ctx g), sg_ledger g (w_log w)) \<Longrightarrow> play g w = (r, v) \<Longrightarrow>
    outcome (sg_env g) P (sg_ctx g) (sg_call g) (sg_ledger g (w_log w)) r \<Longrightarrow>
    snd (invoke P (sg_ctx g) (sg_call g) (sg_ledger g (w_log w))) = sg_ledger g (w_log v) \<Longrightarrow>
    chain_step P (in_now (sg_ctx g), sg_ledger g (w_log w)) (in_now (sg_ctx g), sg_ledger g (w_log v)) \<Longrightarrow>
    chain_session P ((in_now (sg_ctx g), sg_ledger g (w_log v)), v) gs rs z \<Longrightarrow>
    chain_session P (x, w) (g # gs) (r # rs) z"

inductive_simps chain_session_Nil: "chain_session P z [] rs z'"
inductive_simps chain_session_Cons: "chain_session P (x, w) (g # gs) rs z"

text \<open>It is a run of the step system, so it keeps what that keeps, and it is the run of the session.\<close>

lemma chain_session_steps: "chain_session P z gs rs z' \<Longrightarrow> (chain_step P)\<^sup>*\<^sup>* (fst z) (fst z')"
  by (induction rule: chain_session.induct) (auto intro: rtranclp_trans converse_rtranclp_into_rtranclp)

lemma chain_session_plays: "chain_session P z gs rs z' \<Longrightarrow> session gs (snd z) = (Inr rs, snd z')"
  by (induction rule: chain_session.induct) (simp_all add: seqM_eval attemptM_eval ret_eval)

lemma on_chain_steps: "(chain_step P)\<^sup>*\<^sup>* x y \<Longrightarrow> on_chain P x \<Longrightarrow> on_chain P y"
  by (induction rule: rtranclp_induct) (auto intro: on_chain.step)

text \<open>One receipt for each operation that returned, of success.\<close>

definition receipted :: "receipt list \<Rightarrow> (thrown + vault) list \<Rightarrow> bool" where
  "receipted rcs rs \<longleftrightarrow> length rcs = length (filter (\<lambda>r. \<exists>row. r = Inr row) rs) \<and> (\<forall>rc\<in>set rcs. rc_status rc = RSuccess)"

lemma receipted_append: "receipted xs rs \<Longrightarrow> receipted ys ss \<Longrightarrow> receipted (xs @ ys) (rs @ ss)"
  by (auto simp: receipted_def)

lemma invoke_aborts: "fst (invoke P I c s) = Inl ab \<Longrightarrow> snd (invoke P I c s) = s"
  by (auto simp: invoke_def split: prod.splits sum.splits)

section \<open>The simulation\<close>

lemma user_action_grows:
  assumes "backed_by E P I L" and "expressible c" and "user_action E desc tpl goal c w = (r, w')"
  shows "grows w w'"
proof -
  obtain f args params k where run: "user_action E desc tpl goal c = seqM (invokeContract E (caller c) f params) k"
    and k: "\<And>x. appends no_send (k x)"
    using user_action_runs [OF assms(1,2), of desc tpl goal] by metis
  have "appends (\<lambda>_. True) (user_action E desc tpl goal c)"
    unfolding run by (rule appends_seqM [OF appends_invokeContract appends_mono [OF k]]) simp
  then show ?thesis using appends_grows [of "\<lambda>_. True" "user_action E desc tpl goal c" w] assms(3) by simp
qed

lemma reading_receipts: "\<forall>x\<in>set new. reading (fst x) \<Longrightarrow> receipts new = []"
  by (induction new) (auto split: action.splits)

text \<open>One action.\<close>

lemma play_follows:
  assumes "ready P g" and "\<not> w_simBroken w"
  defines "s \<equiv> sg_ledger g (w_log w)"
  shows "\<exists>r w'. play g w = (r, w') \<and> outcome (sg_env g) P (sg_ctx g) (sg_call g) s r \<and>
    sg_ledger g (w_log w') = snd (invoke P (sg_ctx g) (sg_call g) s) \<and> \<not> w_simBroken w' \<and> receipted (receipts (since w w')) [r] \<and> grows w w'"
proof -
  let ?E = "sg_env g" and ?I = "sg_ctx g" and ?L = "sg_ledger g" and ?c = "sg_call g" and ?q = "sg_request g"
  have net: "network_of ?E P ?I ?L ?c" and c: "expressible ?c"
    and store: "\<And>hs. \<exists>m. e_getItem ?E hs = Inr m" "\<And>hs. e_setItem ?E hs = Inr ()"
    using assms(1) by (auto simp: ready_def)
  note grows = user_action_grows [OF network_parts(1) [OF net] c, of "q_description ?q" "q_template ?q" "q_goal ?q" w, folded perform_def]
  show ?thesis
  proof (cases "fst (invoke P ?I ?c s)")
    case (Inr val)
    then have run: "invoke P ?I ?c (?L (w_log w)) = (Inr val, snd (invoke P ?I ?c s))" by (simp add: prod_eq_iff s_def)
    obtain row w' rc i v where "play g w = (Inr row, w')" "?L (w_log w') = snd (invoke P ?I ?c s)" "concerns ?c val i"
      "lg_vaults (snd (invoke P ?I ?c s)) i = Some v" "ledger_row ?E v row" "receipts (since w w') = [rc]" "rc_status rc = RSuccess"
      "\<not> w_simBroken w'"
      using action_settles [OF net c run assms(2) store, of "q_description ?q" "q_template ?q" "q_goal ?q"] unfolding perform_def by blast
    then show ?thesis using Inr grows by (auto simp: outcome_def receipted_def)
  next
    case (Inl ab)
    then have refused: "fst (invoke P ?I ?c (?L (w_log w))) = Inl ab" by (simp add: s_def)
    obtain f diag w' where r: "play g w = (Inl (Soroban (simulationError f diag)), w')"
      "\<forall>e. ab = Fail e \<longrightarrow> (\<exists>post. diag = host_text e post)" "\<forall>x\<in>set (since w w'). reading (fst x)"
      "?L (w_log w') = s" "w_simBroken w' = w_simBroken w"
      using action_refused [OF network_parts(1,2) [OF net] c refused, of "q_description ?q" "q_template ?q" "q_goal ?q"]
      unfolding perform_def s_def by blast
    have "se_class (simulationError f diag) = Simulation" by (simp add: simulationError_def)
    moreover have "\<forall>e. ab = Fail e \<longrightarrow> se_userMessage (simulationError f diag) = error_message e" using r(2) refusal_message by blast
    ultimately have "outcome ?E P ?I ?c s (Inl (Soroban (simulationError f diag)))" using Inl by (simp add: outcome_def)
    then show ?thesis using r assms(2) grows invoke_aborts [OF Inl] reading_receipts [OF r(3)] by (auto simp: receipted_def)
  qed
qed

text \<open>The simulation, lifted from one action to the session.\<close>

lemma session_follows:
  "staged P x gs w \<Longrightarrow> \<not> w_simBroken w \<Longrightarrow>
    \<exists>rs w' y. chain_session P (x, w) gs rs (y, w') \<and> receipted (receipts (since w w')) rs \<and> grows w w'"
proof (induction gs arbitrary: x w)
  case Nil
  have "chain_session P (x, w) [] [] (x, w) \<and> receipted (receipts (since w w)) [] \<and> grows w w"
    by (simp add: chain_session.over receipted_def since_def grows_def)
  then show ?case by blast
next
  case (Cons g gs)
  let ?I = "sg_ctx g" and ?s = "sg_ledger g (w_log w)"
  have g: "ready P g" and steps: "(chain_step P)\<^sup>*\<^sup>* x (in_now ?I, ?s)" using Cons.prems(1) by (auto simp: Let_def)
  obtain r v where r: "play g w = (r, v)" "outcome (sg_env g) P ?I (sg_call g) ?s r"
    "sg_ledger g (w_log v) = snd (invoke P ?I (sg_call g) ?s)" "\<not> w_simBroken v" "receipted (receipts (since w v)) [r]" "grows w v"
    using play_follows [OF g Cons.prems(2)] by blast
  have "chain_step P (in_now ?I, ?s) (in_now ?I, sg_ledger g (w_log v))"
    unfolding r(3) using g by (intro chain_step.call) (simp_all add: ready_def)
  note step = chain_session.turn [OF steps r(1,2) r(3) [symmetric] this]
  have "staged P (in_now ?I, sg_ledger g (w_log v)) gs v" using Cons.prems(1) r(1) by (simp add: Let_def)
  from Cons.IH [OF this r(4)] obtain rs w' y where rs: "chain_session P ((in_now ?I, sg_ledger g (w_log v)), v) gs rs (y, w')"
    "receipted (receipts (since v w')) rs" "grows v w'" by blast
  have "chain_session P (x, w) (g # gs) (r # rs) (y, w')" using step [OF rs(1)] .
  moreover have "receipted (receipts (since w w')) (r # rs)"
    using receipted_append [OF r(5) rs(2)] since_trans [OF r(6) rs(3)] by simp
  ultimately show ?case using grows_trans [OF r(6) rs(3)] by blast
qed

text \<open>C1: the client refines the contract. Take any sequence of write operations, each with amounts and times
  that a double carries, performed one after the other whatever the earlier ones returned or threw,
  each over a network that preflights and executes its call by running the contract, while between
  two operations anyone may call the contract, tokens move and time passes. Then the session is a run
  of the contract in which exactly the operations' calls are executed, each at its turn on the ledger that
  it found, and which ends in a legal state of the ledger (so it is solvent and keeps its locks);
  each operation returned the vault that its call was about or threw the contract's own error, according
  to the contract's answer at its turn; and there is one receipt of success for each that returned and
  no other receipt.\<close>
theorem session_refines_contract:
  assumes "staged P x gs w" and "on_chain P x" and "\<not> w_simBroken w"
  shows "\<exists>rs w' y. session gs w = (Inr rs, w') \<and> chain_session P (x, w) gs rs (y, w') \<and> on_chain P y \<and>
    receipted (receipts (since w w')) rs"
proof -
  obtain rs w' y where run: "chain_session P (x, w) gs rs (y, w')" "receipted (receipts (since w w')) rs"
    using session_follows [OF assms(1,3)] by blast
  have "session gs w = (Inr rs, w')" using chain_session_plays [OF run(1)] by simp
  moreover have "on_chain P y" using on_chain_steps [OF chain_session_steps [OF run(1)]] assms(2) by simp
  ultimately show ?thesis using run by blast
qed

text \<open>Around the leap day's ledger: the vault is withdrawn a day early, after it has unlocked, and once more.\<close>

definition take_out :: request where
  "take_out = \<lparr>q_description = [], q_template = [], q_goal = None, q_call = Withdraw ''alice'' 0\<rparr>"

definition early :: "(address \<Rightarrow> int) stage" where
  "early = \<lparr>sg_request = take_out, sg_env = live_env (at_time 1709200000) leap_ledger, sg_ctx = at_time 1709200000,
     sg_ledger = live_ledger leap_ledger\<rparr>"

definition due :: "(address \<Rightarrow> int) stage" where
  "due = \<lparr>sg_request = take_out, sg_env = live_env (at_time 1800000000) paid_ledger, sg_ctx = at_time 1800000000,
     sg_ledger = live_ledger paid_ledger\<rparr>"

lemma withdraw_early: "fst (invoke book_site (at_time 1709200000) (Withdraw ''alice'' 0) leap_ledger) = Inl (Fail StillLocked)"
  by (simp add: invoke_def withdraw_all_def chain_eval leap_ledger_eq leap_vault_def at_time_def)

lemma early_ledger: "live_ledger leap_ledger hs = leap_ledger"
  by (simp add: live_ledger_def)

lemma due_ready: "ready book_site due"
  unfolding ready_def using live_network
  by (simp add: due_def take_out_def at_time_def book_site_def) (simp add: live_env_def ledger_env_def demo_env_def)

lemma early_ready: "ready book_site early"
proof -
  let ?E = "live_env (at_time 1709200000) leap_ledger"
  have "backed_by ?E book_site (at_time 1709200000) (live_ledger leap_ledger)" by (rule live_backed) (simp add: leap_ledger_eq)
  moreover have "signs ?E" by (simp add: signs_def live_env_def ledger_env_def demo_env_def demo_kp_def view_bytes_def Let_def)
  moreover have "executes ?E book_site (at_time 1709200000) (live_ledger leap_ledger) (Withdraw ''alice'' 0)"
    by (simp add: executes_def early_ledger withdraw_early)
  ultimately have "network_of ?E book_site (at_time 1709200000) (live_ledger leap_ledger) (Withdraw ''alice'' 0)"
    using live_preflights by (simp add: network_of_def)
  then show ?thesis unfolding ready_def
    by (simp add: early_def take_out_def at_time_def book_site_def) (simp add: live_env_def ledger_env_def demo_env_def)
qed

lemma reading_sends: "\<forall>x\<in>set new. reading (fst x) \<Longrightarrow> sends new = []"
  by (induction new) (auto split: action.splits)

lemma early_reads: "sends (w_log (snd (play early demo_world))) = []"
proof -
  note net = early_ready [unfolded ready_def, THEN conjunct1]
  have "fst (invoke book_site (sg_ctx early) (sg_call early) (sg_ledger early (w_log demo_world))) = Inl (Fail StillLocked)"
    using withdraw_early by (simp add: early_def take_out_def early_ledger)
  from action_refused [OF network_parts(1,2) [OF net] early_ready [unfolded ready_def, THEN conjunct2, THEN conjunct1] this,
      of "[]" "[]" None]
  obtain v e where v: "play early demo_world = (e, v)" "\<forall>x\<in>set (since demo_world v). reading (fst x)"
    by (auto simp: perform_def early_def take_out_def)
  have "w_log v = since demo_world v" by (simp add: since_def demo_world_def)
  then show ?thesis using v reading_sends [OF v(2)] by simp
qed

lemma early_staged: "staged book_site (1700000000, leap_ledger) [early, due, due] demo_world"
proof -
  let ?w1 = "snd (play early demo_world)"
  let ?w2 = "snd (play due ?w1)"
  have later: "(chain_step book_site)\<^sup>*\<^sup>* (t, s) (t', s)" if "t \<le> t'" for t t' and s :: "(address \<Rightarrow> int) ledger"
    using chain_step.outside [of t t' book_site s "lg_tok s"] that by (simp add: r_into_rtranclp)
  have "(chain_step book_site)\<^sup>*\<^sup>* (1700000000, leap_ledger) (in_now (sg_ctx early), sg_ledger early (w_log demo_world))"
    using later [of 1700000000 1709200000 leap_ledger] by (simp add: early_def at_time_def early_ledger)
  moreover have "(chain_step book_site)\<^sup>*\<^sup>* (in_now (sg_ctx early), sg_ledger early (w_log ?w1)) (in_now (sg_ctx due), sg_ledger due (w_log ?w1))"
    using later [of 1709200000 1800000000 leap_ledger] early_reads
    by (simp add: early_def due_def at_time_def early_ledger live_ledger_def [of paid_ledger])
  ultimately show ?thesis using early_ready due_ready by (simp add: Let_def)
qed

theorem session_refines_contract_witness:
  "\<exists>e1 row e3 w'. session [early, due, due] demo_world = (Inr [Inl (Soroban e1), Inr row, Inl (Soroban e3)], w') \<and>
    se_userMessage e1 = error_message StillLocked \<and> va_status row = Withdrawn \<and> se_userMessage e3 = error_message AlreadyWithdrawn \<and>
    length (receipts (since demo_world w')) = 1"
proof -
  let ?x = "(1700000000, leap_ledger)"
  have "\<not> w_simBroken demo_world" by (simp add: demo_world_def)
  from session_refines_contract [OF early_staged leap_on_chain this]
  obtain rs w' y where run: "session [early, due, due] demo_world = (Inr rs, w')"
    and chain: "chain_session book_site (?x, demo_world) [early, due, due] rs (y, w')"
    and rc: "receipted (receipts (since demo_world w')) rs" by blast
  have call: "sg_call early = Withdraw ''alice'' 0" "sg_call due = Withdraw ''alice'' 0" "sg_ctx early = at_time 1709200000"
    "sg_ctx due = at_time 1800000000" by (simp_all add: early_def due_def take_out_def)
  obtain r1 v rs1 where rs1: "rs = r1 # rs1" and v: "play early demo_world = (r1, v)"
    and o1: "outcome (sg_env early) book_site (sg_ctx early) (sg_call early) (sg_ledger early (w_log demo_world)) r1"
    and c1: "chain_session book_site ((in_now (sg_ctx early), sg_ledger early (w_log v)), v) [due, due] rs1 (y, w')"
    using chain_session_Cons [THEN iffD1, OF chain] by blast
  obtain r2 u rs2 where rs2: "rs1 = r2 # rs2"
    and o2: "outcome (sg_env due) book_site (sg_ctx due) (sg_call due) (sg_ledger due (w_log v)) r2"
    and u: "snd (invoke book_site (sg_ctx due) (sg_call due) (sg_ledger due (w_log v))) = sg_ledger due (w_log u)"
    and c2: "chain_session book_site ((in_now (sg_ctx due), sg_ledger due (w_log u)), u) [due] rs2 (y, w')"
    using chain_session_Cons [THEN iffD1, OF c1] by blast
  obtain r3 rs3 t where rs3: "rs2 = r3 # rs3"
    and o3: "outcome (sg_env due) book_site (sg_ctx due) (sg_call due) (sg_ledger due (w_log u)) r3"
    and c3: "chain_session book_site t [] rs3 (y, w')"
    using chain_session_Cons [THEN iffD1, OF c2] by blast
  have rs: "rs = [r1, r2, r3]" using c3 by (simp add: rs1 rs2 rs3 chain_session_Nil)
  have "sg_ledger early (w_log demo_world) = leap_ledger" by (simp add: early_def early_ledger)
  then obtain e1 where e1: "r1 = Inl (Soroban e1)" "se_userMessage e1 = error_message StillLocked"
    using o1 withdraw_early by (auto simp: outcome_def call)
  have "sends (w_log v) = []" using early_reads v by simp
  then have l2: "sg_ledger due (w_log v) = leap_ledger" by (simp add: due_def live_ledger_def)
  then obtain row vt where row: "r2 = Inr row" "lg_vaults paid_ledger 0 = Some vt" "ledger_row (sg_env due) vt row"
    using o2 by (auto simp: outcome_def call withdraw_leap)
  have st: "va_status row = Withdrawn" using row(2,3) by (auto simp: paid_ledger_eq ledger_row_def toVault_def decoded_def statusFor_def)
  have "sg_ledger due (w_log u) = paid_ledger" using u l2 by (simp add: call withdraw_leap)
  then obtain e3 where e3: "r3 = Inl (Soroban e3)" "se_userMessage e3 = error_message AlreadyWithdrawn"
    using o3 by (auto simp: outcome_def call withdraw_paid)
  have rs': "rs = [Inl (Soroban e1), Inr row, Inl (Soroban e3)]" by (simp add: rs e1(1) row(1) e3(1))
  then have "length (receipts (since demo_world w')) = 1" using rc by (simp add: receipted_def)
  then show ?thesis using run e1(2) st e3(2) unfolding rs' by blast
qed

end
