(* ===== verification/Spec2Isabelle.thy ===== *)
theory Spec2Isabelle
  imports Secure_Wipe Session_Keystore Soroban_Errors Wake_Up Horizon Biometric Notebook_Crypto Chain_Payout Chain_Session
begin

text \<open>
  A verification development for Stellar TimeLock: a wallet that locks XLM in vaults of a Soroban
  contract. The program is the contract (\<^verbatim>\<open>contracts/xlm_vault/src/lib.rs\<close>) and the core of the mobile
  client (\<^verbatim>\<open>src/\<close>), which keeps the wallet's secrets, talks to the contract over RPC, and shows the
  vaults even when RPC, backend or the phone's JavaScript engine fail.

  \<^bold>\<open>Parts and theories.\<close>
  \<^item> \<open>Prelude\<close>: effects with exceptions (state passing; a throw keeps earlier assignments), the
    insertion-ordered \<^verbatim>\<open>Map\<close> with its laws as the locale \<open>keyed_store\<close>, comparators of sorts as the locale
    \<open>comparator\<close>, runs of interleaved steps as the locale \<open>step_system\<close> (interpreted for the session
    keystore, the notebook and the ledger), and the collections of proof rules.
  \<^item> \<open>Secure_Wipe\<close> (\<^verbatim>\<open>security/secure-wipe.ts\<close>): byte buffers, word arrays, keypairs and timers in an
    explicit store; wiping is the locale \<open>wiper\<close>, interpreted for the wipe and for the timers.
  \<^item> \<open>Session_Keystore\<close> (\<^verbatim>\<open>security/session-keystore.ts\<close>): the cache of seeds, its lock, the storage
    migration; every operation is split at its awaits and \<open>reachable\<close> interleaves them.
  \<^item> \<open>Soroban_Errors\<close> (\<^verbatim>\<open>api/soroban-errors.ts\<close>): error classes, texts, and coercion of thrown values.
  \<^item> \<open>JS_Number\<close>, \<open>JS_Date\<close>, \<open>Vault_Data\<close>: IEEE doubles as rationals rounded to 53 bits, calendar dates,
    the language's conversions, and the data of \<^verbatim>\<open>api/soroban-client.ts\<close>.
  \<^item> \<open>Soroban_World\<close>: the outside world of the client. Every request, receipt and wait is an entry of a
    history together with the memory at that moment; the answers are functions of the history, so a
    theorem for all environments covers every behaviour of network, SDK and backend. Failover.
  \<^item> \<open>Soroban_Invoke\<close>: building, simulating, signing, sending and polling a transaction; reads.
  \<^item> \<open>Vault_Meta\<close>: names and snapshots of vaults on the device and at the backend, and the overlay of
    vaults that the chain no longer shows. \<open>Vault_Events\<close>: the event history with its two caches and
    the reconstruction of vaults from it. \<open>Vault_List\<close>: the client class, which composes both.
    \<open>Wake_Up\<close>: restoring an archived vault. (All of \<^verbatim>\<open>api/soroban-client.ts\<close>.)
  \<^item> \<open>Word_Arrays\<close>, \<open>Notebook_Crypto\<close> (\<^verbatim>\<open>notebook/crypto.ts\<close>): the key of the notes in the store of
    \<open>Secure_Wipe\<close>, encryption and decryption split at their awaits, interleaved by \<open>nb_reachable\<close>.
  \<^item> \<open>Biometric\<close> (\<^verbatim>\<open>security/biometric.ts\<close>): enrollment, root secret, key derivation.
  \<^item> \<open>Horizon\<close> (\<^verbatim>\<open>wallet/horizon.ts\<close>): account balance with reserve, faucet, payment history.
  \<^item> \<open>Xlm_Vault\<close>, \<open>Vault_Contract\<close> (\<^verbatim>\<open>contracts/xlm_vault/src/lib.rs\<close>): the contract's error codes, its storage
    and functions, and the ledger's history under arbitrary invocations (\<open>on_chain\<close>).
  \<^item> The contract and the client composed. \<open>Event_Pages\<close>: the event read against a server that pages its
    events in order. \<open>Chain_Events\<close>: the events that the contract publishes, as the server reports them,
    parsed and replayed by the client; a simulation (\<open>simulates\<close>) relates the account book of the events
    to the client's accumulators. \<open>Chain_Reads\<close>: the vault list over a server that answers simulations by
    running the contract. \<open>Chain_Writes\<close>: the call of the contract that an operation's envelope carries.
    \<open>Chain_Settles\<close>: the write operations from the user's action to the ledger and back, settled or refused.
    \<open>Chain_Payout\<close>: the withdrawal of a vault from its row in the list. \<open>Chain_Session\<close>: a
    session of such operations, whatever each returns or throws, with others' calls and time passing in
    between, as a run of the contract.

  \<^bold>\<open>What the lemmas show.\<close> Secrets: wiping zeroes exactly what it should, every signer is wiped before
  anything is sent and on every exit, seeds come only from storage or the caller, returning after the
  idle limit locks. Transactions: at most one is sent per write, it is the one that was simulated and
  signed, receipts tell its outcome, every error is categorised, polling and waking up are bounded.
  Vault rows: the reconstruction equals a fold per vault, lists are ordered and anchored in what the
  backend or the chain knows. Notes: they decrypt after a reinstall, the cached key is that of the
  active wallet, and where interleavings break this. Contract: solvency, the time lock, payment in
  full, and the events as a complete account of the vaults. Composition: the list shows the ledger, its
  status is the contract's answer to a withdrawal, and the withdrawal of an unlocked row pays its balance; without simulation the rows rebuilt from the events
  are the owner's vaults, balances to the stroop; a write sends the contract's call on exactly the
  arguments that the user was shown; it settles when the contract would carry it out, and otherwise
  shows the contract's own error, having only read; and a whole session of writes, with others' calls in
  between, is a run of the contract that executes their calls at their turns. Several properties state where the code departs from its comments; the manifest lists them
  as findings.

  \<^bold>\<open>Conventions and bounds.\<close>
  \<^item> A thrown value is \<open>Inl\<close>. Loops with a bound in the code recurse on it: 30 polls
    (\<open>POLL_ATTEMPTS\<close>), 3 new simulations (\<open>RE_SIM_ATTEMPTS\<close>), 20 pages (\<open>MAX_PAGES\<close>) of 200 events
    (\<open>EVENT_PAGE_LIMIT\<close>) and a thousand events in all (\<open>MAX_EVENTS\<close>), one round of failover per URL; no
    other fuel is used, and every definition is total.
  \<^item> Concurrent requests of \<^verbatim>\<open>Promise.all\<close> run in the order of the list and all of them run; the first
    rejection in the list decides. A call that is not awaited is made at its place, its result dropped.
  \<^item> Amounts and times of the contract are integers; 64-bit values of the contract are words with
    checked addition; in the client every operation on numbers rounds as IEEE doubles do. An amount up
    to 2^50 stroops survives the conversion to XLM and back; the sum of a vault's payments in doubles is
    right to the stroop while their number times their sum stays below 2^48 (\<open>bounded\<close>).
  \<^item> Code outside the repository's sources is a parameter (the Stellar SDK, CryptoJS, secure storage, the
    vault cache module, fetch, clocks, the token contract). Where a theorem needs it to behave, the
    behaviour is a named hypothesis (\<open>crypto_laws\<close>, \<open>token_laws\<close>, \<open>token_pays\<close>, \<open>sdk_success\<close>, and
    for the compositions \<open>serves_events\<close>: the RPC server pages its events oldest first, \<open>history_told\<close>: it
    reports those of the contract, \<open>backed_by\<close>, \<open>preflights\<close>, \<open>executes\<close>: it simulates and executes the
    contract on a ledger that only sent envelopes change, \<open>signs\<close>: the wallet has a key, \<open>staged\<close>: all this
    holds during each operation of a session, \<open>merge_laws\<close>: the cache module keeps live rows), and a witness instantiates it.

  \<^bold>\<open>Not modelled.\<close> Log output and development-build checks; the expiry of the contract's ledger entries
  (the host's), whose effects the client meets as answers of the environment; exceptions of the browser's
  \<^verbatim>\<open>localStorage\<close> in the web preview of the notebook;
  documents, tests and snapshots.
\<close>

end
